(* ===== verification/Prelude.thy ===== *)
theory Prelude
  imports Main "HOL-Library.Word"
begin

text \<open>
  Shared vocabulary of the development: machine integers, the outcome of a kernel call
  (a value and the new state, a \<^verbatim>\<open>panic\<close>, or a \<^verbatim>\<open>sleep\<close>), sequencing of calls, little-endian
  fields, in-place update of a byte range, and the generic list lemmas the components use.
\<close>

unbundle bit_operations_syntax

section \<open>Machine integers and C constants\<close>

type_synonym u8 = "8 word"
type_synonym u16 = "16 word"
type_synonym u32 = "32 word"
type_synonym bytes = "u8 list"

text \<open>
  C's \<^verbatim>\<open>uint\<close> where the model keeps it as a \<^typ>\<open>nat\<close>: every addition that can leave the
  32-bit range goes through \<open>u32add\<close>, which wraps.
\<close>

definition u32add :: "nat \<Rightarrow> nat \<Rightarrow> nat" where
  "u32add a b = (a + b) mod 2 ^ 32"

lemma u32add_bound [simp]: "u32add a b < 2 ^ 32"
  by (simp add: u32add_def)

lemma u32add_no_wrap [simp]: "a + b < 2 ^ 32 \<Longrightarrow> u32add a b = a + b"
  by (simp add: u32add_def)

text \<open>The test \<^verbatim>\<open>off + n < off\<close> of the sources detects exactly the wrap-around.\<close>

lemma u32add_less_iff:
  assumes "a < 2 ^ 32" "b < 2 ^ 32"
  shows "u32add a b < a \<longleftrightarrow> 2 ^ 32 \<le> a + b"
proof (cases "a + b < 2 ^ 32")
  case True
  then show ?thesis by simp
next
  case False
  then have "(a + b) mod 2 ^ 32 = a + b - 2 ^ 32"
    using assms by (simp add: mod_if)
  with False assms show ?thesis by (simp add: u32add_def)
qed

text \<open>A C string literal as bytes.\<close>

definition bytes_of :: "string \<Rightarrow> bytes" where
  "bytes_of s = map (\<lambda>c. of_nat (of_char c)) s"

lemma length_bytes_of [simp]: "length (bytes_of s) = length s"
  by (simp add: bytes_of_def)

section \<open>Outcomes of kernel calls\<close>

text \<open>
  The address a process sleeps on. Each constructor stands for one object of the kernel whose
  address the sources pass to \<^verbatim>\<open>sleep\<close> and \<^verbatim>\<open>wakeup\<close>: a process-table slot, an inode-cache slot,
  a buffer, a disk's log, the two counters of a pipe, the tick counter, a line's input buffer.
\<close>

datatype chan =
    ChProc nat
  | ChInode nat
  | ChBuf nat
  | ChLog nat
  | ChPipeRead u32
  | ChPipeWrite u32
  | ChTicks
  | ChInput nat

text \<open>
  A call that does not return: \<open>Panic\<close> is \<^verbatim>\<open>panic()\<close> (the machine stops), \<open>Sleep\<close> is \<^verbatim>\<open>sleep()\<close>
  (the process gives up the CPU in the given state and is resumed by a \<^verbatim>\<open>wakeup\<close> on the channel),
  \<open>Fault\<close> is a use of a null or dangling kernel pointer, \<open>Hang\<close> is a loop that never ends,
  \<open>Sched\<close> is a \<^verbatim>\<open>sched()\<close> without a channel (a process that waits for children or messages, yields or exits).
\<close>

datatype 's stop = Panic string | Sleep chan 's | Fault string | Hang string | Sched 's

type_synonym ('s, 'a) outcome = "'s stop + ('a \<times> 's)"

definition bnd :: "'e + 'a \<Rightarrow> ('a \<Rightarrow> 'e + 'b) \<Rightarrow> 'e + 'b" where
  "bnd m f = (case m of Inl e \<Rightarrow> Inl e | Inr x \<Rightarrow> f x)"

named_theorems outcome_simps \<open>sequencing of calls and the two result predicates\<close>

lemma bnd_Inl [simp]: "bnd (Inl e) f = Inl e"
  by (simp add: bnd_def)

lemma bnd_Inr [simp]: "bnd (Inr x) f = f x"
  by (simp add: bnd_def)

lemma bnd_eq_Inr: "bnd m f = Inr y \<longleftrightarrow> (\<exists>x. m = Inr x \<and> f x = Inr y)"
  by (cases m) simp_all

lemma bnd_eq_Inl: "bnd m f = Inl e \<longleftrightarrow> m = Inl e \<or> (\<exists>x. m = Inr x \<and> f x = Inl e)"
  by (cases m) simp_all

lemma bnd_assoc: "bnd (bnd m f) g = bnd m (\<lambda>x. bnd (f x) g)"
  by (cases m) simp_all

lemma bnd_cong [fundef_cong]:
  assumes "m = m'" and "\<And>x. m' = Inr x \<Longrightarrow> f x = g x"
  shows "bnd m f = bnd m' g"
  using assms by (cases m') simp_all

text \<open>
  \<open>rets m P\<close>: the call returns and its result satisfies \<open>P\<close> (total).
  \<open>ifret m P\<close>: if the call returns, its result satisfies \<open>P\<close> (partial).
\<close>

definition rets :: "'e + 'a \<Rightarrow> ('a \<Rightarrow> bool) \<Rightarrow> bool" where
  "rets m P = (case m of Inl e \<Rightarrow> False | Inr x \<Rightarrow> P x)"

definition ifret :: "'e + 'a \<Rightarrow> ('a \<Rightarrow> bool) \<Rightarrow> bool" where
  "ifret m P = (case m of Inl e \<Rightarrow> True | Inr x \<Rightarrow> P x)"

lemma rets_Inr [simp]: "rets (Inr x) P = P x"
  by (simp add: rets_def)

lemma rets_Inl [simp]: "rets (Inl e) P = False"
  by (simp add: rets_def)

lemma ifret_Inr [simp]: "ifret (Inr x) P = P x"
  by (simp add: ifret_def)

lemma ifret_Inl [simp]: "ifret (Inl e) P = True"
  by (simp add: ifret_def)

lemma rets_bnd [simp]: "rets (bnd m f) P = rets m (\<lambda>x. rets (f x) P)"
  by (cases m) simp_all

lemma ifret_bnd [simp]: "ifret (bnd m f) P = ifret m (\<lambda>x. ifret (f x) P)"
  by (cases m) simp_all

lemma retsE:
  assumes "rets m P"
  obtains x where "m = Inr x" "P x"
  using assms by (cases m) auto

lemma retsI: "m = Inr x \<Longrightarrow> P x \<Longrightarrow> rets m P"
  by simp

lemma rets_mono: "rets m P \<Longrightarrow> (\<And>x. P x \<Longrightarrow> Q x) \<Longrightarrow> rets m Q"
  by (cases m) auto

lemma ifret_mono: "ifret m P \<Longrightarrow> (\<And>x. P x \<Longrightarrow> Q x) \<Longrightarrow> ifret m Q"
  by (cases m) auto

lemma ifretD: "ifret m P \<Longrightarrow> m = Inr x \<Longrightarrow> P x"
  by simp

lemma rets_imp_ifret: "rets m P \<Longrightarrow> ifret m P"
  by (cases m) auto

lemma ifretI: "(\<And>x. m = Inr x \<Longrightarrow> P x) \<Longrightarrow> ifret m P"
  by (cases m) auto

lemmas [outcome_simps] = bnd_eq_Inr bnd_eq_Inl

section \<open>Little-endian fields\<close>

definition le16 :: "nat \<Rightarrow> bytes" where
  "le16 n = [of_nat n, of_nat (n div 256)]"

definition le32 :: "nat \<Rightarrow> bytes" where
  "le32 n = [of_nat n, of_nat (n div 256), of_nat (n div 65536), of_nat (n div 16777216)]"

definition unle16 :: "bytes \<Rightarrow> nat" where
  "unle16 bs = unat (bs ! 0) + 256 * unat (bs ! 1)"

definition unle32 :: "bytes \<Rightarrow> nat" where
  "unle32 bs = unat (bs ! 0) + 256 * unat (bs ! 1) + 65536 * unat (bs ! 2)
     + 16777216 * unat (bs ! 3)"

lemma length_le16 [simp]: "length (le16 n) = 2"
  by (simp add: le16_def)

lemma length_le32 [simp]: "length (le32 n) = 4"
  by (simp add: le32_def)

lemma unat_of_nat8: "unat (of_nat n :: u8) = n mod 256"
  by (simp add: unat_of_nat)

lemma unle16_le16 [simp]: "n < 65536 \<Longrightarrow> unle16 (le16 n @ xs) = n"
  by (simp add: unle16_def le16_def unat_of_nat8)

lemma unle16_le16' [simp]: "n < 65536 \<Longrightarrow> unle16 (le16 n) = n"
  using unle16_le16 [of n "[]"] by simp

lemma unle32_le32_aux:
  "n < 4294967296 \<Longrightarrow>
   n mod 256 + 256 * (n div 256 mod 256) + 65536 * (n div 65536 mod 256)
     + 16777216 * (n div 16777216 mod 256) = (n::nat)"
proof -
  assume n: "n < 4294967296"
  have a: "n div 65536 = n div 256 div 256" "n div 16777216 = n div 256 div 256 div 256"
    by (simp_all add: div_mult2_eq [symmetric])
  have "n div 256 div 256 div 256 < 256" using n by simp
  then have b: "n div 256 div 256 div 256 mod 256 = n div 256 div 256 div 256" by simp
  have c: "256 * (m div 256) + m mod 256 = m" for m :: nat by simp
  show ?thesis
    using c [of n] c [of "n div 256"] c [of "n div 256 div 256"]
    unfolding a b by linarith
qed

lemma unle32_le32 [simp]: "n < 4294967296 \<Longrightarrow> unle32 (le32 n @ xs) = n"
  unfolding unle32_def le32_def using unle32_le32_aux by (simp add: unat_of_nat8)

lemma unle32_le32' [simp]: "n < 4294967296 \<Longrightarrow> unle32 (le32 n) = n"
  using unle32_le32 [of n "[]"] by simp

lemma unat_u8_bound: "unat (b :: u8) < 256"
  using unsigned_less [of b] by simp

lemma unle32_bound [simp]: "unle32 bs < 4294967296"
  using unat_u8_bound [of "bs ! 0"] unat_u8_bound [of "bs ! 1"]
    unat_u8_bound [of "bs ! 2"] unat_u8_bound [of "bs ! 3"]
  by (simp add: unle32_def)

lemma unle16_bound [simp]: "unle16 bs < 65536"
  using unat_u8_bound [of "bs ! 0"] unat_u8_bound [of "bs ! 1"]
  by (simp add: unle16_def)

section \<open>Writing a range of an array in place\<close>

text \<open>\<open>patch off xs bs\<close> is \<open>bs\<close> with the bytes from \<open>off\<close> on overwritten by \<open>xs\<close>
  (\<^verbatim>\<open>memmove(bs + off, xs, n)\<close>); \<open>slice off n bs\<close> reads \<open>n\<close> bytes at \<open>off\<close>.\<close>

definition patch :: "nat \<Rightarrow> 'a list \<Rightarrow> 'a list \<Rightarrow> 'a list" where
  "patch off xs bs = take off bs @ xs @ drop (off + length xs) bs"

definition slice :: "nat \<Rightarrow> nat \<Rightarrow> 'a list \<Rightarrow> 'a list" where
  "slice off n bs = take n (drop off bs)"

lemma length_patch [simp]: "off + length xs \<le> length bs \<Longrightarrow> length (patch off xs bs) = length bs"
  by (simp add: patch_def)

lemma length_slice [simp]: "off + n \<le> length bs \<Longrightarrow> length (slice off n bs) = n"
  by (simp add: slice_def)

lemma slice_patch_same [simp]:
  "off + length xs \<le> length bs \<Longrightarrow> n = length xs \<Longrightarrow> slice off n (patch off xs bs) = xs"
  by (simp add: slice_def patch_def)

lemma nth_patch:
  assumes "off + length xs \<le> length bs" "i < length bs"
  shows "patch off xs bs ! i
    = (if off \<le> i \<and> i < off + length xs then xs ! (i - off) else bs ! i)"
  using assms by (auto simp: patch_def nth_append min_def)

lemma nth_slice: "off + n \<le> length bs \<Longrightarrow> i < n \<Longrightarrow> slice off n bs ! i = bs ! (off + i)"
  by (simp add: slice_def)

lemma slice_patch_disjoint:
  assumes "off + length xs \<le> length bs" "o2 + n \<le> length bs"
    and "o2 + n \<le> off \<or> off + length xs \<le> o2"
  shows "slice o2 n (patch off xs bs) = slice o2 n bs"
proof (rule nth_equalityI)
  show "length (slice o2 n (patch off xs bs)) = length (slice o2 n bs)"
    using assms by simp
  fix i assume "i < length (slice o2 n (patch off xs bs))"
  then have i: "i < n" using assms by simp
  show "slice o2 n (patch off xs bs) ! i = slice o2 n bs ! i"
    using assms i by (auto simp: nth_slice nth_patch)
qed

lemma patch_slice_id [simp]: "off + n \<le> length bs \<Longrightarrow> patch off (slice off n bs) bs = bs"
  by (simp add: patch_def slice_def min_def flip: append_assoc take_add)

lemma patch_patch_same [simp]:
  "off + length xs \<le> length bs \<Longrightarrow> length ys = length xs \<Longrightarrow>
   patch off ys (patch off xs bs) = patch off ys bs"
  by (simp add: patch_def)

section \<open>Tables\<close>

text \<open>The scan \<^verbatim>\<open>for(p = tab; p < &tab[N]; p++) if(P(p)) ...\<close>: the first index that satisfies \<open>P\<close>.\<close>

fun find_index :: "('a \<Rightarrow> bool) \<Rightarrow> 'a list \<Rightarrow> nat option" where
  "find_index P [] = None"
| "find_index P (x # xs) = (if P x then Some 0 else map_option Suc (find_index P xs))"

lemma find_index_None: "find_index P xs = None \<longleftrightarrow> (\<forall>x \<in> set xs. \<not> P x)"
  by (induction xs) auto

lemma find_index_Some:
  "find_index P xs = Some i \<longleftrightarrow> i < length xs \<and> P (xs ! i) \<and> (\<forall>j < i. \<not> P (xs ! j))"
proof (induction xs arbitrary: i)
  case Nil
  then show ?case by simp
next
  case (Cons x xs)
  show ?case
  proof (cases i)
    case 0
    then show ?thesis by auto
  next
    case (Suc k)
    then show ?thesis using Cons.IH [of k] by (auto simp: less_Suc_eq_0_disj)
  qed
qed

lemma find_index_SomeD:
  assumes "find_index P xs = Some i"
  shows "i < length xs" "P (xs ! i)" "\<And>j. j < i \<Longrightarrow> \<not> P (xs ! j)"
  using assms by (auto simp: find_index_Some)

lemma find_index_exists: "x \<in> set xs \<Longrightarrow> P x \<Longrightarrow> \<exists>i. find_index P xs = Some i"
  using find_index_None [of P xs] by (cases "find_index P xs") auto

end
