(* ===== verification/Kstring.thy ===== *)
theory Kstring
  imports Prelude
begin

text \<open>
  The kernel's \<^verbatim>\<open>string.c\<close>. The \<^verbatim>\<open>mem*\<close> routines work on a byte-addressed 32-bit memory, so that
  overlapping ranges are visible; the \<^verbatim>\<open>str*\<close> routines work on the byte lists that stand for
  NUL-terminated strings and fixed-size name fields in the rest of the development (a read past
  the end of such a list is the terminator).
\<close>

section \<open>Memory blocks\<close>

type_synonym mem = "u32 \<Rightarrow> u8"

text \<open>\<^verbatim>\<open>rep stosb\<close> and \<^verbatim>\<open>rep stosl\<close>.\<close>

fun stosb :: "mem \<Rightarrow> u32 \<Rightarrow> u8 \<Rightarrow> nat \<Rightarrow> mem" where
  "stosb m a c 0 = m"
| "stosb m a c (Suc n) = stosb (m(a := c)) (a + 1) c n"

definition put32 :: "mem \<Rightarrow> u32 \<Rightarrow> u32 \<Rightarrow> mem" where
  "put32 m a w = m(a := ucast w, a + 1 := ucast (drop_bit 8 w),
                   a + 2 := ucast (drop_bit 16 w), a + 3 := ucast (drop_bit 24 w))"

fun stosl :: "mem \<Rightarrow> u32 \<Rightarrow> u32 \<Rightarrow> nat \<Rightarrow> mem" where
  "stosl m a w 0 = m"
| "stosl m a w (Suc n) = stosl (put32 m a w) (a + 4) w n"

definition memset :: "mem \<Rightarrow> u32 \<Rightarrow> u32 \<Rightarrow> u32 \<Rightarrow> mem" where
  "memset m dst c n =
    (if dst mod 4 = 0 \<and> n mod 4 = 0
     then let c = c AND 0xFF in
       stosl m dst (push_bit 24 c OR push_bit 16 c OR push_bit 8 c OR c) (unat (n div 4))
     else stosb m dst (ucast c) (unat n))"

fun memcmp_loop :: "mem \<Rightarrow> u32 \<Rightarrow> u32 \<Rightarrow> nat \<Rightarrow> int" where
  "memcmp_loop m s1 s2 0 = 0"
| "memcmp_loop m s1 s2 (Suc n) =
    (if m s1 \<noteq> m s2 then uint (m s1) - uint (m s2) else memcmp_loop m (s1 + 1) (s2 + 1) n)"

definition memcmp :: "mem \<Rightarrow> u32 \<Rightarrow> u32 \<Rightarrow> u32 \<Rightarrow> int" where
  "memcmp m v1 v2 n = memcmp_loop m v1 v2 (unat n)"

fun copy_up :: "mem \<Rightarrow> u32 \<Rightarrow> u32 \<Rightarrow> nat \<Rightarrow> mem" where
  "copy_up m d s 0 = m"
| "copy_up m d s (Suc n) = copy_up (m(d := m s)) (d + 1) (s + 1) n"

fun copy_down :: "mem \<Rightarrow> u32 \<Rightarrow> u32 \<Rightarrow> nat \<Rightarrow> mem" where
  "copy_down m d s 0 = m"
| "copy_down m d s (Suc n) = copy_down (m(d - 1 := m (s - 1))) (d - 1) (s - 1) n"

definition memmove :: "mem \<Rightarrow> u32 \<Rightarrow> u32 \<Rightarrow> u32 \<Rightarrow> mem" where
  "memmove m dst src n =
    (if src < dst \<and> src + n > dst
     then copy_down m (dst + n) (src + n) (unat n)
     else copy_up m dst src (unat n))"

definition memcpy :: "mem \<Rightarrow> u32 \<Rightarrow> u32 \<Rightarrow> u32 \<Rightarrow> mem" where
  "memcpy m dst src n = memmove m dst src n"

section \<open>Strings\<close>

text \<open>The byte a string pointer points at.\<close>

fun hd0 :: "bytes \<Rightarrow> u8" where
  "hd0 [] = 0"
| "hd0 (c # cs) = c"

fun strncmp :: "bytes \<Rightarrow> bytes \<Rightarrow> nat \<Rightarrow> int" where
  "strncmp p q 0 = 0"
| "strncmp p q (Suc n) =
    (if hd0 p \<noteq> 0 \<and> hd0 p = hd0 q then strncmp (tl p) (tl q) n
     else uint (hd0 p) - uint (hd0 q))"

text \<open>\<^verbatim>\<open>strncpy(s, t, n)\<close>: the \<open>n\<close> bytes it leaves at \<open>s\<close>.\<close>

fun strncpy :: "bytes \<Rightarrow> nat \<Rightarrow> bytes" where
  "strncpy t 0 = []"
| "strncpy t (Suc n) = (if hd0 t \<noteq> 0 then hd0 t # strncpy (tl t) n else 0 # replicate n 0)"

text \<open>\<^verbatim>\<open>safestrcpy(s, t, n)\<close>: the bytes it writes at \<open>s\<close>; those after the terminator keep
  their old value.\<close>

fun safestrcpy_loop :: "bytes \<Rightarrow> nat \<Rightarrow> bytes" where
  "safestrcpy_loop t 0 = [0]"
| "safestrcpy_loop t (Suc n) = (if hd0 t \<noteq> 0 then hd0 t # safestrcpy_loop (tl t) n else [0, 0])"

definition safestrcpy :: "bytes \<Rightarrow> bytes \<Rightarrow> nat \<Rightarrow> bytes" where
  "safestrcpy s t n = (if n = 0 then s
     else let w = safestrcpy_loop t (n - 1) in patch 0 w s)"

fun strcmp :: "bytes \<Rightarrow> bytes \<Rightarrow> int" where
  "strcmp [] q = - uint (hd0 q)"
| "strcmp (c # p) q = (if c \<noteq> 0 \<and> c = hd0 q then strcmp p (tl q) else uint c - uint (hd0 q))"

fun strlen :: "bytes \<Rightarrow> nat" where
  "strlen [] = 0"
| "strlen (c # cs) = (if c = 0 then 0 else Suc (strlen cs))"

definition strdup :: "bytes \<Rightarrow> bytes" where
  "strdup s = patch 0 (strncpy s (strlen s)) (replicate (strlen s + 1) 0)"

text \<open>The text of a C string: the bytes before the first NUL.\<close>

definition cstr :: "bytes \<Rightarrow> bytes" where
  "cstr s = takeWhile (\<lambda>c. c \<noteq> 0) s"

section \<open>Correctness of the memory routines\<close>

lemma word32_add_of_nat_eq_iff:
  assumes "i < 2 ^ 32" "j < 2 ^ 32"
  shows "(d :: u32) + of_nat i = d + of_nat j \<longleftrightarrow> i = j"
proof -
  have "(of_nat i :: u32) = of_nat j \<longleftrightarrow> i = j"
    using assms by (simp add: of_nat_inverse word_of_nat_eq_iff take_bit_nat_eq_self)
  then show ?thesis by simp
qed

lemma stosb_other:
  assumes "\<forall>i < n. a \<noteq> d + of_nat i"
  shows "stosb m d c n a = m a"
  using assms
proof (induction n arbitrary: m d)
  case (Suc n)
  have "a \<noteq> d" using Suc.prems by auto
  moreover have "a \<noteq> d + 1 + of_nat i" if "i < n" for i
    using Suc.prems [rule_format, of "Suc i"] that by (simp add: algebra_simps)
  ultimately show ?case using Suc.IH by simp
qed simp

lemma stosb_filled:
  assumes "n \<le> 2 ^ 32" "i < n"
  shows "stosb m d c n (d + of_nat i) = c"
  using assms
proof (induction n arbitrary: m d i)
  case (Suc n)
  show ?case
  proof (cases i)
    case 0
    have "d \<noteq> d + 1 + of_nat k" if "k < n" for k
      using word32_add_of_nat_eq_iff [of 0 "Suc k" d] that Suc.prems by (simp add: algebra_simps)
    then show ?thesis using 0 by (simp add: stosb_other)
  next
    case (Suc j)
    then show ?thesis using Suc.IH [of j "m(d := c)" "d + 1"] Suc.prems
      by (simp add: algebra_simps del: fun_upd_apply)
  qed
qed simp

text \<open>A double-word fill with four equal bytes is a byte fill.\<close>

lemma put32_bytes:
  fixes c :: u32
  assumes "c = ucast (b :: u8)"
  shows "put32 m a (push_bit 24 c OR push_bit 16 c OR push_bit 8 c OR c) = stosb m a b 4"
proof -
  let ?w = "push_bit 24 c OR push_bit 16 c OR push_bit 8 c OR c"
  have h: "bit b (8 + n) = False" "bit b (16 + n) = False" "bit b (24 + n) = False" for n
    by (auto dest!: bit_imp_le_length)
  have "ucast ?w = b" "ucast (drop_bit 8 ?w) = b" "ucast (drop_bit 16 ?w) = b"
    "ucast (drop_bit 24 ?w) = b"
    using assms
    by (auto intro!: bit_word_eqI simp: bit_simps h)
  then show ?thesis
    by (simp add: put32_def numeral_eq_Suc add.assoc)
qed

lemma stosb_add: "stosb m d c (k + n) = stosb (stosb m d c k) (d + of_nat k) c n"
  by (induction k arbitrary: m d) (simp_all add: algebra_simps)

lemma stosl_stosb:
  assumes "c = ucast (b :: u8)"
  shows "stosl m a (push_bit 24 c OR push_bit 16 c OR push_bit 8 c OR c) n = stosb m a b (4 * n)"
proof (induction n arbitrary: m a)
  case (Suc n)
  have "stosb m a b (4 * Suc n) = stosb (stosb m a b 4) (a + 4) b (4 * n)"
    using stosb_add [of m a b 4 "4 * n"] by (simp add: algebra_simps)
  then show ?case using Suc put32_bytes [OF assms] by simp
qed simp

lemma memset_stosb: "memset m dst c n = stosb m dst (ucast c) (unat n)"
proof (cases "dst mod 4 = 0 \<and> n mod 4 = 0")
  case True
  have "c AND 0xFF = take_bit 8 c"
    by (simp add: take_bit_eq_mask mask_eq_exp_minus_1)
  also have "\<dots> = ucast (ucast c :: u8)"
    by (auto intro!: bit_word_eqI simp: bit_simps)
  finally have c: "c AND 0xFF = ucast (ucast c :: u8)" .
  have "unat (n mod 4) = 0" using True by simp
  then have "unat n mod 4 = 0" by (simp add: unat_mod_distrib)
  then have "4 * unat (n div 4) = unat n"
    by (simp add: unat_div_distrib mod_0_imp_dvd)
  then show ?thesis
    using True stosl_stosb [OF c, of m dst "unat (n div 4)"] by (simp add: memset_def Let_def)
qed (auto simp: memset_def)

lemma copy_up_other:
  assumes "\<forall>i < n. a \<noteq> d + of_nat i"
  shows "copy_up m d s n a = m a"
  using assms
proof (induction n arbitrary: m d s)
  case (Suc n)
  have "a \<noteq> d" using Suc.prems by auto
  moreover have "a \<noteq> d + 1 + of_nat i" if "i < n" for i
    using Suc.prems [rule_format, of "Suc i"] that by (simp add: algebra_simps)
  ultimately show ?case using Suc.IH by simp
qed simp

lemma copy_up_copied:
  assumes "n \<le> 2 ^ 32" "i < n" and "\<forall>j. 0 < j \<and> j < n \<longrightarrow> s + of_nat j \<noteq> d"
  shows "copy_up m d s n (d + of_nat i) = m (s + of_nat i)"
  using assms
proof (induction n arbitrary: m d s i)
  case (Suc n)
  show ?case
  proof (cases i)
    case 0
    have "d \<noteq> d + 1 + of_nat k" if "k < n" for k
      using word32_add_of_nat_eq_iff [of 0 "Suc k" d] that Suc.prems by (simp add: algebra_simps)
    then show ?thesis using 0 by (simp add: copy_up_other)
  next
    case i: (Suc j)
    have "copy_up (m(d := m s)) (d + 1) (s + 1) n (d + 1 + of_nat j)
        = (m(d := m s)) (s + 1 + of_nat j)"
    proof (rule Suc.IH)
      show "\<forall>k. 0 < k \<and> k < n \<longrightarrow> s + 1 + of_nat k \<noteq> d + 1"
        using Suc.prems(3) by auto
    qed (use Suc.prems i in auto)
    moreover have "s + 1 + of_nat j \<noteq> d"
      using Suc.prems(3) [rule_format, of "Suc j"] Suc.prems(2) i by (simp add: algebra_simps)
    ultimately show ?thesis using i by (simp add: algebra_simps)
  qed
qed simp

lemma copy_down_other:
  assumes "\<forall>i < n. a \<noteq> d - 1 - of_nat i"
  shows "copy_down m d s n a = m a"
  using assms
proof (induction n arbitrary: m d s)
  case (Suc n)
  have "a \<noteq> d - 1" using Suc.prems [rule_format, of 0] by simp
  moreover have "a \<noteq> d - 1 - 1 - of_nat i" if "i < n" for i
    using Suc.prems [rule_format, of "Suc i"] that by (simp add: algebra_simps)
  ultimately show ?case using Suc.IH by simp
qed simp

lemma copy_down_copied:
  assumes "n \<le> 2 ^ 32" "i < n" and "\<forall>j. 0 < j \<and> j < n \<longrightarrow> s - of_nat j \<noteq> d"
  shows "copy_down m d s n (d - 1 - of_nat i) = m (s - 1 - of_nat i)"
  using assms
proof (induction n arbitrary: m d s i)
  case (Suc n)
  show ?case
  proof (cases i)
    case 0
    have "d - 1 \<noteq> d - 1 - 1 - of_nat k" if "k < n" for k
      using word32_add_of_nat_eq_iff [of 0 "Suc k" "d - 1 - of_nat (Suc k)"] that Suc.prems
      by (simp add: algebra_simps)
    then show ?thesis using 0 by (simp add: copy_down_other)
  next
    case i: (Suc j)
    have "copy_down (m(d - 1 := m (s - 1))) (d - 1) (s - 1) n (d - 1 - 1 - of_nat j)
        = (m(d - 1 := m (s - 1))) (s - 1 - 1 - of_nat j)"
    proof (rule Suc.IH)
      show "\<forall>k. 0 < k \<and> k < n \<longrightarrow> s - 1 - of_nat k \<noteq> d - 1"
        using Suc.prems(3) by (auto simp: algebra_simps)
    qed (use Suc.prems i in auto)
    moreover have "s - 1 - 1 - of_nat j \<noteq> d - 1"
      using Suc.prems(3) [rule_format, of "Suc j"] Suc.prems(2) i by (simp add: algebra_simps)
    ultimately show ?thesis using i by (simp add: algebra_simps)
  qed
qed simp

text \<open>Adding an offset that stays inside the address space does not wrap.\<close>

lemma unat_add_of_nat:
  assumes "unat (a :: u32) + i < 2 ^ 32"
  shows "unat (a + of_nat i) = unat a + i"
proof -
  have "unat (of_nat i :: u32) = i" using assms by (simp add: unat_of_nat take_bit_nat_eq_self)
  then show ?thesis using assms by (subst unat_plus_if') simp
qed

lemma memmove_copied:
  assumes src: "unat src + unat n < 2 ^ 32" and dst: "unat dst + unat n \<le> 2 ^ 32"
    and i: "i < unat n"
  shows "memmove m dst src n (dst + of_nat i) = m (src + of_nat i)"
proof (cases "src < dst \<and> src + n > dst")
  case True
  have "src + n - of_nat j \<noteq> dst + n" if j: "0 < j" "j < unat n" for j
  proof
    assume "src + n - of_nat j = dst + n"
    then have "src = dst + of_nat j" by (simp add: algebra_simps)
    moreover have "unat dst + j < 2 ^ 32" using dst j by simp
    ultimately have "unat src = unat dst + j" by (simp add: unat_add_of_nat)
    then show False using True by (simp add: word_less_nat_alt)
  qed
  then have "copy_down m (dst + n) (src + n) (unat n) (dst + n - 1 - of_nat (unat n - 1 - i))
      = m (src + n - 1 - of_nat (unat n - 1 - i))"
    using i dst by (intro copy_down_copied) auto
  moreover have "n - 1 - of_nat (unat n - 1 - i) = of_nat i"
    using i by (simp add: of_nat_diff)
  ultimately show ?thesis
    using True by (simp add: memmove_def add_diff_eq [symmetric] del: diff_diff_left)
next
  case False
  have "src + of_nat j \<noteq> dst" if j: "0 < j" "j < unat n" for j
  proof
    assume e: "src + of_nat j = dst"
    have "unat src + j < 2 ^ 32" using src j by simp
    then have "unat dst = unat src + j" using e unat_add_of_nat by blast
    moreover have "unat (src + n) = unat src + unat n"
      using unat_add_of_nat [of src "unat n"] src by simp
    ultimately show False using False j by (simp add: word_less_nat_alt)
  qed
  then show ?thesis using False i dst by (auto simp: memmove_def intro!: copy_up_copied)
qed

lemma memmove_other:
  assumes "\<forall>i < unat n. a \<noteq> dst + of_nat i"
  shows "memmove m dst src n a = m a"
proof (cases "src < dst \<and> src + n > dst")
  case True
  have "a \<noteq> dst + n - 1 - of_nat i" if "i < unat n" for i
    using assms [rule_format, of "unat n - 1 - i"] that by (simp add: of_nat_diff algebra_simps)
  then show ?thesis using True by (auto simp: memmove_def intro!: copy_down_other)
next
  case False
  then show ?thesis using assms by (auto simp: memmove_def intro!: copy_up_other)
qed

section \<open>Correctness of the string routines\<close>

lemma cstr_simps [simp]:
  "cstr [] = []"
  "cstr (c # cs) = (if c = 0 then [] else c # cstr cs)"
  by (simp_all add: cstr_def)

lemma cstr_hd_tl: "cstr p = (if hd0 p = 0 then [] else hd0 p # cstr (tl p))"
  by (cases p) simp_all

lemma strlen_cstr: "strlen s = length (cstr s)"
  by (induction s) simp_all

lemma uint_u8_eq [simp]:
  "uint (a :: u8) = uint b \<longleftrightarrow> a = b" "uint (a :: u8) = 0 \<longleftrightarrow> a = 0"
  by (auto simp: word_uint_eq_iff)

lemma strncmp_0_iff: "strncmp p q n = 0 \<longleftrightarrow> take n (cstr p) = take n (cstr q)"
proof (induction p q n rule: strncmp.induct)
  case (2 p q n)
  show ?case
  proof (cases "hd0 p \<noteq> 0 \<and> hd0 p = hd0 q")
    case True
    then show ?thesis using 2 by (simp add: cstr_hd_tl [of p] cstr_hd_tl [of q])
  next
    case False
    then show ?thesis by (simp add: cstr_hd_tl [of p] cstr_hd_tl [of q]) auto
  qed
qed simp

lemma strcmp_0_iff: "strcmp p q = 0 \<longleftrightarrow> cstr p = cstr q"
proof (induction p q rule: strcmp.induct)
  case (2 c p q)
  then show ?case by (auto simp: cstr_hd_tl [of q])
next
  case (1 q)
  then show ?case by (cases q) simp_all
qed

lemma length_strncpy [simp]: "length (strncpy t n) = n"
  by (induction t n rule: strncpy.induct) auto

lemma cstr_replicate_0 [simp]: "cstr (replicate n 0) = []"
  by (cases n) simp_all

lemma cstr_append_zeros [simp]: "cstr (xs @ replicate n 0) = cstr xs"
  by (induction xs) simp_all

lemma cstr_take: "cstr (take k xs) = take k (cstr xs)"
proof (induction xs arbitrary: k)
  case (Cons x xs)
  then show ?case by (cases k) simp_all
qed simp

lemma cstr_strncpy [simp]: "cstr (strncpy t n) = take n (cstr t)"
proof (induction t n rule: strncpy.induct)
  case (2 t n)
  then show ?case by (subst (2) cstr_hd_tl) simp
qed simp

lemma safestrcpy_loop_cstr: "cstr (safestrcpy_loop t n @ r) = take n (cstr t)"
proof (induction t n rule: safestrcpy_loop.induct)
  case (2 t n)
  then show ?case by (subst (2) cstr_hd_tl) simp
qed simp

lemma safestrcpy_loop_length: "length (safestrcpy_loop t n) \<le> Suc n"
  by (induction t n rule: safestrcpy_loop.induct) auto

lemma safestrcpy_loop_NUL: "0 \<in> set (safestrcpy_loop t n)"
  by (induction t n rule: safestrcpy_loop.induct) auto

lemma length_safestrcpy [simp]: "n \<le> length s \<Longrightarrow> length (safestrcpy s t n) = length s"
  using safestrcpy_loop_length [of t "n - 1"] by (auto simp: safestrcpy_def Let_def)

text \<open>
  C21. \<^verbatim>\<open>memmove\<close> copies \<open>n\<close> bytes from \<open>src\<close> to \<open>dst\<close> and changes nothing else, for every
  relative position of the two ranges (also when they overlap): the bytes read are those of the
  memory before the call.
\<close>

theorem memmove_correct:
  assumes "unat src + unat n < 2 ^ 32" "unat dst + unat n \<le> 2 ^ 32"
  shows "(\<forall>i < unat n. memmove m dst src n (dst + of_nat i) = m (src + of_nat i)) \<and>
    (\<forall>a. (\<forall>i < unat n. a \<noteq> dst + of_nat i) \<longrightarrow> memmove m dst src n a = m a)"
  using memmove_copied [OF assms] memmove_other by blast

theorem memmove_correct_witness:
  "memmove (\<lambda>a. ucast a) 0x1002 0x1000 8 (0x1002 + of_nat 5) = (5 :: u8)"
proof -
  have "memmove (\<lambda>a. ucast a :: u8) 0x1002 0x1000 8 (0x1002 + of_nat 5) = ucast (0x1000 + of_nat 5 :: u32)"
    using conjunct1 [OF memmove_correct [of "0x1000" 8 "0x1002" "\<lambda>a. ucast a"], rule_format, of 5]
    by simp
  then show ?thesis by simp
qed

text \<open>
  \<^verbatim>\<open>memset\<close>'s fast path (four bytes at a time) and its byte path leave the same memory:
  each of the \<open>n\<close> bytes is the low byte of \<open>c\<close>, every other byte keeps its value.
\<close>

theorem memset_correct:
  "(\<forall>i < unat n. memset m dst c n (dst + of_nat i) = ucast c) \<and>
   (\<forall>a. (\<forall>i < unat n. a \<noteq> dst + of_nat i) \<longrightarrow> memset m dst c n a = m a)"
proof -
  have "unat n \<le> 2 ^ 32" using unsigned_less [of n, where ?'a = nat] by simp
  then show ?thesis by (simp add: memset_stosb stosb_filled stosb_other)
qed

theorem memset_correct_witness:
  "memset (\<lambda>a. 7) 0x1000 0x1FF 8 (0x1000 + of_nat 3) = 0xFF \<and> memset (\<lambda>a. 7) 0x1000 0x1FF 8 0x1008 = 7"
proof -
  let ?m = "memset (\<lambda>a. 7) 0x1000 0x1FF 8"
  have "(0x1008 :: u32) \<noteq> 0x1000 + of_nat i" if "i < 8" for i
    using word32_add_of_nat_eq_iff [of 8 i "0x1000"] that by simp
  then have "?m 0x1008 = 7"
    by (intro conjunct2 [OF memset_correct, rule_format]) simp
  moreover have "?m (0x1000 + of_nat 3) = ucast (0x1FF :: u32)"
    by (intro conjunct1 [OF memset_correct, rule_format]) simp
  moreover have "ucast (0x1FF :: u32) = (0xFF :: u8)" by simp
  ultimately show ?thesis by metis
qed

text \<open>
  \<^verbatim>\<open>safestrcpy\<close> always leaves a NUL-terminated string in an \<open>n\<close>-byte buffer: the buffer keeps
  its length and holds the longest prefix of the source that fits in \<open>n - 1\<close> bytes.
\<close>

theorem safestrcpy_correct:
  assumes "0 < n" "n \<le> length s"
  shows "cstr (safestrcpy s t n) = take (n - 1) (cstr t) \<and> length (safestrcpy s t n) = length s
    \<and> 0 \<in> set (take n (safestrcpy s t n))"
proof -
  have "length (safestrcpy_loop t (n - 1)) \<le> n"
    using safestrcpy_loop_length [of t "n - 1"] assms by simp
  then show ?thesis
    using assms safestrcpy_loop_NUL [of t "n - 1"]
    by (auto simp: safestrcpy_def Let_def patch_def safestrcpy_loop_cstr)
qed

theorem safestrcpy_correct_witness:
  "cstr (safestrcpy [9,9,9,9] [1,2,3,4,5] 4) = [1,2,3]"
  using safestrcpy_correct [of 4 "[9,9,9,9]" "[1,2,3,4,5]"] by simp

end
