(* ===== verification/ProcTable.thy ===== *)
theory ProcTable
  imports Kstring
begin

text \<open>
  The process table of \<^verbatim>\<open>proc.h\<close> and \<^verbatim>\<open>proc.c\<close>: the record of a process, the global scheduler
  variables, \<^verbatim>\<open>sleep\<close>/\<^verbatim>\<open>wakeup\<close>, \<^verbatim>\<open>kill\<close>, \<^verbatim>\<open>findpid\<close> and the per-process error string, with the
  permission check of \<^verbatim>\<open>users.c\<close> that \<^verbatim>\<open>kill\<close> relies on. A pointer into the table is its index.
  The record \<open>pst\<close> is the lowest layer of the kernel state: the other components extend it, so the
  operations here are defined on every extension.
\<close>

section \<open>Data\<close>

definition NPROC :: nat where "NPROC = 64"
definition NOFILE :: nat where "NOFILE = 16"
definition THREADMAX :: nat where "THREADMAX = 32"
definition ERRMAX :: nat where "ERRMAX = 256"
definition WAITROUNDS :: int where "WAITROUNDS = 5"

datatype procstate =
  UNUSED | EMBRYO | SLEEPING | WAIT | MSGWAIT | RUNNABLE | RUNNING | ZOMBIE | CRASHED

datatype proctype = PROCESS | THREAD

record trapframe =
  tf_edi :: u32
  tf_esi :: u32
  tf_ebp :: u32
  tf_ebx :: u32
  tf_edx :: u32
  tf_ecx :: u32
  tf_eax :: u32
  tf_gs :: u16
  tf_fs :: u16
  tf_es :: u16
  tf_ds :: u16
  tf_trapno :: u32
  tf_err :: u32
  tf_eip :: u32
  tf_cs :: u16
  tf_eflags :: u32
  tf_esp :: u32
  tf_ss :: u16

text \<open>A mailbox: the addresses of its lock and of the first and the last message.\<close>

record mailbox =
  mb_lock :: u32
  mb_head :: u32
  mb_tail :: u32

record proc =
  p_sz :: u32
  p_pgdir :: u32
  p_kstack :: u32
  p_state :: procstate
  p_type :: proctype
  p_waitrounds :: int
  p_pid :: int
  p_uid :: int
  p_sid :: int
  p_stackpte :: u32
  p_parent :: "nat option"
  p_tf :: trapframe
  p_chan :: "chan option"
  p_killed :: bool
  p_crashed :: bool
  p_ofile :: "nat option list"
  p_rootdir :: "nat option"
  p_rdirpath :: bytes
  p_injail :: bool
  p_cwd :: "nat option"
  p_errstr :: bytes
  p_errset :: bool
  p_name :: bytes
  p_ssp :: u32
  p_threadi :: nat
  p_threads :: "nat option list"
  p_mbox :: mailbox

text \<open>\<open>curproc\<close> is \<^verbatim>\<open>proc\<close>, the process running on this CPU. System calls and everything they
  call run in the context of a process.\<close>

record pst =
  procs :: "proc list"
  curproc :: "nat option"
  initproc :: "nat option"
  nextpid :: int
  first :: bool
  singleuser :: int
  allowthreads :: bool
  useclone :: bool
  msgnote :: bool
  halted :: bool
  booted :: bool
  ticks :: u32

definition cur :: "'a pst_scheme \<Rightarrow> proc" where
  "cur s = procs s ! the (curproc s)"

definition upd_proc :: "nat \<Rightarrow> (proc \<Rightarrow> proc) \<Rightarrow> 'a pst_scheme \<Rightarrow> 'a pst_scheme" where
  "upd_proc i f s = s\<lparr>procs := (procs s)[i := f (procs s ! i)]\<rparr>"

definition upd_cur :: "(proc \<Rightarrow> proc) \<Rightarrow> 'a pst_scheme \<Rightarrow> 'a pst_scheme" where
  "upd_cur f s = upd_proc (the (curproc s)) f s"

section \<open>Sleeping and waking\<close>

definition wakeup1 :: "chan option \<Rightarrow> 'a pst_scheme \<Rightarrow> 'a pst_scheme" where
  "wakeup1 ch s = s\<lparr>procs := map (\<lambda>p.
     if p_state p = SLEEPING \<and> p_chan p = ch then p\<lparr>p_state := RUNNABLE\<rparr> else p) (procs s)\<rparr>"

definition wakeup :: "chan \<Rightarrow> 'a pst_scheme \<Rightarrow> 'a pst_scheme" where
  "wakeup ch s = wakeup1 (Some ch) s"

text \<open>\<^verbatim>\<open>sleep\<close> up to its \<^verbatim>\<open>sched()\<close>; \<open>sleep_resume\<close> is what it does once it is scheduled again. The
  caller's lock \<^verbatim>\<open>lk\<close> is never null in the sources.\<close>

definition sleep :: "chan \<Rightarrow> 'a pst_scheme \<Rightarrow> ('a pst_scheme, 'b) outcome" where
  "sleep ch s = (case curproc s of
     None \<Rightarrow> Inl (Panic ''sleep'')
   | Some i \<Rightarrow> Inl (Sleep ch (upd_proc i (\<lambda>p. p\<lparr>p_chan := Some ch, p_state := SLEEPING\<rparr>) s)))"

definition sleep_resume :: "'a pst_scheme \<Rightarrow> 'a pst_scheme" where
  "sleep_resume s = upd_cur (\<lambda>p. p\<lparr>p_chan := None\<rparr>) s"

section \<open>Permissions between processes (\<^verbatim>\<open>users.c\<close>)\<close>

definition checksysperms :: "'a pst_scheme \<Rightarrow> proc \<Rightarrow> proc \<Rightarrow> int" where
  "checksysperms s p0 p1 =
    (if singleuser s = 1 then 0
     else if p_sid p1 = -1 \<and> p_sid p0 > p_sid p1 then 0
     else if p_sid p1 = p_sid p0 then
       (if p_uid p1 = -1 then 0 else if p_uid p1 = p_uid p0 then 0 else -1)
     else -1)"

section \<open>Kill and lookup\<close>

definition kill :: "int \<Rightarrow> 'a pst_scheme \<Rightarrow> int \<times> 'a pst_scheme" where
  "kill pid s =
    (case find_index (\<lambda>p. p_pid p = pid \<and> checksysperms s p (cur s) = 0) (procs s) of
       Some i \<Rightarrow> (0, upd_proc i (\<lambda>p. p\<lparr>p_killed := True,
           p_state := (if p_state p = SLEEPING \<or> p_state p = MSGWAIT then RUNNABLE else p_state p)\<rparr>) s)
     | None \<Rightarrow> (-1, s))"

definition findpid :: "int \<Rightarrow> 'a pst_scheme \<Rightarrow> nat option" where
  "findpid pid s = find_index (\<lambda>p. p_pid p = pid \<and> p_state p \<noteq> UNUSED) (procs s)"

section \<open>Error strings\<close>

text \<open>\<open>buf\<close> is the memory at \<^verbatim>\<open>buf\<close>. A negative count reaches \<^verbatim>\<open>memmove\<close> as a huge unsigned one.\<close>

definition errstr_fill :: "bytes \<Rightarrow> nat \<Rightarrow> bytes" where
  "errstr_fill buf n = (patch 0 (take n buf) (replicate ERRMAX 0))[n := 0]"

definition werrstr :: "bytes \<Rightarrow> int \<Rightarrow> 'a pst_scheme \<Rightarrow> ('a pst_scheme, int) outcome" where
  "werrstr buf nbytes s =
    (let nbytes = (if nbytes \<ge> int ERRMAX then int ERRMAX - 1 else nbytes) in
     if nbytes < 0 then Inl (Fault ''werrstr: memmove past errstr'')
     else Inr (nbytes, upd_cur (\<lambda>p. p\<lparr>p_errstr := errstr_fill buf (nat nbytes), p_errset := True\<rparr>) s))"

text \<open>\<^verbatim>\<open>seterr(x)\<close> is \<^verbatim>\<open>werrstr(x, sizeof(x))\<close> on a literal, its terminator included.\<close>

definition seterr :: "string \<Rightarrow> 'a pst_scheme \<Rightarrow> 'a pst_scheme" where
  "seterr x s = upd_cur (\<lambda>p. p\<lparr>p_errstr :=
      errstr_fill (bytes_of x @ [0]) (min (length x + 1) (ERRMAX - 1)), p_errset := True\<rparr>) s"

text \<open>
  \<^verbatim>\<open>rerrstr\<close> returns the bytes it leaves at \<^verbatim>\<open>buf\<close>; \<open>after\<close> is the memory that follows the field
  \<^verbatim>\<open>errstr\<close> in \<^verbatim>\<open>struct proc\<close>, which a count above \<^verbatim>\<open>ERRMAX + 1\<close> reads.
\<close>

definition rerrstr :: "bytes \<Rightarrow> int \<Rightarrow> 'a pst_scheme \<Rightarrow> ('a pst_scheme, int \<times> bytes) outcome" where
  "rerrstr after nbytes s =
    (if nbytes = 0 then Inr ((if p_errset (cur s) then 1 else 0, []), s)
     else if nbytes < 0 then Inl (Fault ''rerrstr: memset past buf'')
     else Inr ((0, take (nat nbytes - 1) (p_errstr (cur s) @ after) @ [0]),
               upd_cur (\<lambda>p. p\<lparr>p_errset := False\<rparr>) s))"

section \<open>Frames\<close>

text \<open>
  \<open>wakes ps qs\<close>: the table \<open>qs\<close> is \<open>ps\<close> with some sleeping processes made runnable and nothing
  else changed. It is the only effect on the process table of the disk, log and inode layers.
\<close>

definition wakes :: "proc list \<Rightarrow> proc list \<Rightarrow> bool" where
  "wakes = list_all2 (\<lambda>p q. q = p \<or> p_state p = SLEEPING \<and> q = p\<lparr>p_state := RUNNABLE\<rparr>)"

lemma wakes_refl [simp]: "wakes ps ps"
  by (simp add: wakes_def list.rel_refl)

lemma wakes_trans [trans]: "wakes ps qs \<Longrightarrow> wakes qs rs \<Longrightarrow> wakes ps rs"
  unfolding wakes_def by (rule list_all2_trans) auto

lemma wakes_length: "wakes ps qs \<Longrightarrow> length qs = length ps"
  by (simp add: wakes_def list_all2_lengthD)

lemma wakes_nth_awake: "wakes ps qs \<Longrightarrow> i < length ps \<Longrightarrow> p_state (ps ! i) \<noteq> SLEEPING \<Longrightarrow> qs ! i = ps ! i"
  by (auto simp: wakes_def dest: list_all2_nthD)

lemma wakeup1_wakes [simp]: "wakes (procs s) (procs (wakeup1 ch s))"
  by (simp add: wakes_def wakeup1_def list_all2_conv_all_nth)

lemma wakeup_wakes [simp]: "wakes (procs s) (procs (wakeup ch s))"
  by (simp add: wakeup_def)

lemma wakeup_frame: "\<exists>ps. wakeup ch s = s\<lparr>procs := ps\<rparr> \<and> wakes (procs s) ps"
  using wakeup_wakes [of s ch] by (auto simp: wakeup_def wakeup1_def)

lemma wakeup_none:
  "\<forall>p \<in> set (procs s). p_chan p \<noteq> Some ch \<Longrightarrow> wakeup ch s = s"
  by (simp add: wakeup_def wakeup1_def map_idI)

lemma nth_wakeup1:
  "i < length (procs s) \<Longrightarrow> procs (wakeup1 ch s) ! i =
    (if p_state (procs s ! i) = SLEEPING \<and> p_chan (procs s ! i) = ch
     then (procs s ! i)\<lparr>p_state := RUNNABLE\<rparr> else procs s ! i)"
  by (simp add: wakeup1_def)

lemma curproc_upd_proc [simp]: "curproc (upd_proc i f s) = curproc s"
  by (simp add: upd_proc_def)

lemma length_procs_upd_proc [simp]: "length (procs (upd_proc i f s)) = length (procs s)"
  by (simp add: upd_proc_def)

lemma nth_upd_proc [simp]:
  "i < length (procs s) \<Longrightarrow> procs (upd_proc i f s) ! j = (if i = j then f (procs s ! j) else procs s ! j)"
  by (simp add: upd_proc_def)

lemma curproc_upd_cur [simp]: "curproc (upd_cur f s) = curproc s"
  by (simp add: upd_cur_def)

lemma length_procs_upd_cur [simp]: "length (procs (upd_cur f s)) = length (procs s)"
  by (simp add: upd_cur_def)

text \<open>The process a system call runs in exists.\<close>

definition incall :: "'a pst_scheme \<Rightarrow> bool" where
  "incall s = (case curproc s of None \<Rightarrow> False
     | Some i \<Rightarrow> i < length (procs s) \<and> p_state (procs s ! i) = RUNNING)"

lemma cur_upd_cur [simp]: "incall s \<Longrightarrow> cur (upd_cur f s) = f (cur s)"
  by (auto simp: incall_def cur_def upd_cur_def upd_proc_def split: option.splits)

lemma singleuser_upd_cur [simp]: "singleuser (upd_cur f s) = singleuser s"
  by (simp add: upd_cur_def upd_proc_def)

lemma incall_upd_cur:
  "incall s \<Longrightarrow> (\<And>p. p_state p = RUNNING \<Longrightarrow> p_state (f p) = RUNNING) \<Longrightarrow> incall (upd_cur f s)"
  by (auto simp: incall_def upd_cur_def upd_proc_def split: option.splits)

lemma cur_wakes:
  assumes "incall s" "s' = s\<lparr>procs := ps\<rparr>" "wakes (procs s) ps"
  shows "cur s' = cur s" "incall s'"
  using assms by (auto simp: incall_def cur_def wakes_nth_awake wakes_length split: option.splits)

section \<open>Properties\<close>

lemma length_errstr_fill [simp]: "n \<le> ERRMAX \<Longrightarrow> length (errstr_fill buf n) = ERRMAX"
  by (simp add: errstr_fill_def)

lemma cstr_errstr_fill:
  assumes "n < ERRMAX" "n \<le> length buf"
  shows "cstr (errstr_fill buf n) = cstr (take n buf)"
proof -
  have "errstr_fill buf n = take n buf @ replicate (ERRMAX - n) 0"
    using assms by (auto simp: errstr_fill_def patch_def list_eq_iff_nth_eq nth_append
        nth_list_update)
  then show ?thesis by simp
qed

lemma werrstr_seterr:
  "werrstr (bytes_of x @ [0]) (int (length x + 1)) s
    = Inr (int (min (length x + 1) (ERRMAX - 1)), seterr x s)"
  by (auto simp: werrstr_def seterr_def ERRMAX_def Let_def min_def nat_add_distrib)

text \<open>
  The error string survives the trip through the kernel: after \<^verbatim>\<open>werrstr\<close> of a text that fits,
  \<^verbatim>\<open>rerrstr\<close> into a buffer of at most \<open>ERRMAX + 1\<close> bytes returns that text cut to the buffer,
  and clears the flag that \<^verbatim>\<open>rerrstr(0, 0)\<close> reports.
\<close>

theorem errstr_roundtrip:
  assumes "incall s" "0 < n" "n \<le> ERRMAX + 1" "length x < ERRMAX"
    and "werrstr x (int (length x)) s = Inr (r, s1)"
  shows "\<exists>out s2. rerrstr after (int n) s1 = Inr ((0, out), s2) \<and> length out = n
    \<and> cstr out = take (n - 1) (cstr x) \<and> r = int (length x)
    \<and> rerrstr after 0 s1 = Inr ((1, []), s1) \<and> rerrstr after 0 s2 = Inr ((0, []), s2)"
proof -
  have s1: "s1 = upd_cur (\<lambda>p. p\<lparr>p_errstr := errstr_fill x (length x), p_errset := True\<rparr>) s"
    and r: "r = int (length x)"
    using assms by (auto simp: werrstr_def Let_def)
  have c1: "incall s1" "p_errstr (cur s1) = errstr_fill x (length x)" "p_errset (cur s1)"
    using assms(1) by (auto simp: s1 intro!: incall_upd_cur)
  have "errstr_fill x (length x) = x @ replicate (ERRMAX - length x) 0"
    using assms by (auto simp: errstr_fill_def patch_def list_eq_iff_nth_eq nth_append
        nth_list_update)
  moreover have "length (errstr_fill x (length x)) = ERRMAX" using assms by simp
  moreover have "cstr (take k x @ replicate j 0 @ [0]) = take k (cstr x)" for k j
    using cstr_append_zeros [of "take k x" "Suc j"]
    by (simp add: replicate_append_same cstr_take)
  ultimately show ?thesis
    using assms c1 r by (auto simp: rerrstr_def nat_diff_distrib)
qed

text \<open>A process made of the given fields, all others null; the processes of the witnesses.\<close>

definition zero_tf :: trapframe where
  "zero_tf = \<lparr>tf_edi = 0, tf_esi = 0, tf_ebp = 0, tf_ebx = 0, tf_edx = 0, tf_ecx = 0, tf_eax = 0,
     tf_gs = 0, tf_fs = 0, tf_es = 0, tf_ds = 0, tf_trapno = 0, tf_err = 0, tf_eip = 0, tf_cs = 0,
     tf_eflags = 0, tf_esp = 0, tf_ss = 0\<rparr>"

definition zero_proc :: proc where
  "zero_proc = \<lparr>p_sz = 0, p_pgdir = 0, p_kstack = 0, p_state = UNUSED, p_type = PROCESS,
     p_waitrounds = 0, p_pid = 0, p_uid = 0, p_sid = 0, p_stackpte = 0, p_parent = None,
     p_tf = zero_tf, p_chan = None, p_killed = False, p_crashed = False,
     p_ofile = replicate NOFILE None, p_rootdir = None, p_rdirpath = replicate 128 0,
     p_injail = False, p_cwd = None, p_errstr = replicate ERRMAX 0, p_errset = False,
     p_name = replicate 128 0, p_ssp = 0, p_threadi = 0, p_threads = replicate THREADMAX None,
     p_mbox = \<lparr>mb_lock = 0, mb_head = 0, mb_tail = 0\<rparr>\<rparr>"

definition pst0 :: pst where
  "pst0 = \<lparr>procs = zero_proc\<lparr>p_state := RUNNING, p_pid := 1, p_uid := -1, p_sid := -1\<rparr>
       # replicate (NPROC - 1) zero_proc,
     curproc = Some 0, initproc = Some 0, nextpid = 2, first = False, singleuser = 0,
     allowthreads = True, useclone = True, msgnote = False, halted = False, booted = True,
     ticks = 0\<rparr>"

lemma incall_pst0 [simp]: "incall pst0"
  by (simp add: incall_def pst0_def)

theorem errstr_roundtrip_witness:
  "\<exists>out s2. rerrstr [] 3 (snd (projr (werrstr [7, 8, 9] 3 pst0))) = Inr ((0, out), s2)
    \<and> cstr out = [7, 8]"
  using errstr_roundtrip [of pst0 3 "[7, 8, 9]" 3 "snd (projr (werrstr [7, 8, 9] 3 pst0))" "[]"]
  by (auto simp: ERRMAX_def werrstr_def)





end
