(* ===== verification/Disk.thy ===== *)
theory Disk
  imports ProcTable
begin

text \<open>
  The disk table (\<^verbatim>\<open>disk.c\<close>) and the IDE driver (\<^verbatim>\<open>ide.c\<close>), with the structures they share with
  the buffer cache, the log and the file system (\<^verbatim>\<open>buf.h\<close>, \<^verbatim>\<open>fs.h\<close>). The record \<open>dst\<close> adds to the
  process table the disks, the buffers and the state of the two IDE drives. \<open>dtrace\<close> is a ghost
  field: the sequence of sector writes the controller has been given.
\<close>

section \<open>Data\<close>

definition BSIZE :: nat where "BSIZE = 512"
definition NBUF :: nat where "NBUF = 30"
definition FSSIZE :: nat where "FSSIZE = 5000"
definition DISKMAX :: nat where "DISKMAX = 32"
definition MAXOPBLOCKS :: nat where "MAXOPBLOCKS = 10"
definition LOGSIZE :: nat where "LOGSIZE = 30"

text \<open>\<^verbatim>\<open>struct buf\<close>; the LRU links \<^verbatim>\<open>prev\<close>/\<^verbatim>\<open>next\<close> are the list \<open>lru\<close> of the state.\<close>

record buf =
  b_busy :: bool
  b_valid :: bool
  b_dirty :: bool
  b_dev :: nat
  b_blockno :: nat
  b_qnext :: "nat option"
  b_data :: bytes

record superblock =
  sb_label :: bytes
  sb_version :: u8
  sb_bootable :: u8
  sb_system :: u8
  sb_size :: nat
  sb_nblocks :: nat
  sb_ninodes :: nat
  sb_nlog :: nat
  sb_logstart :: nat
  sb_inodestart :: nat
  sb_bmapstart :: nat
  sb_bootinode :: nat
  sb_kerninode :: nat

text \<open>\<^verbatim>\<open>struct log\<close>: \<open>lg_n\<close> and \<open>lg_block\<close> are its in-memory header \<^verbatim>\<open>lh\<close>.\<close>

record log =
  lg_start :: nat
  lg_size :: nat
  lg_outstanding :: int
  lg_committing :: bool
  lg_dev :: nat
  lg_n :: nat
  lg_block :: "nat list"

text \<open>The drivers a disk can be registered with; \<^verbatim>\<open>iderw\<close> is the only one of the kernel.\<close>

datatype driver = Iderw

text \<open>\<^verbatim>\<open>struct disk\<close>; \<open>dk_inuse\<close>, \<open>dk_mounted\<close> and \<open>dk_initialized\<close> are the bits of \<^verbatim>\<open>flags\<close>. The log a
  disk points to is reached only through the disk.\<close>

record disk =
  dk_inuse :: bool
  dk_mounted :: bool
  dk_initialized :: bool
  dk_type :: int
  dk_driver_device :: nat
  dk_diskrw :: "driver option"
  dk_mountroot :: "nat option"
  dk_sb :: superblock
  dk_log :: "log option"

text \<open>
  \<open>media d b\<close> is sector \<open>b\<close> of drive \<open>d\<close>. \<open>ide_errs\<close> is the status the controller will report at
  the next reads, \<open>True\<close> for an error; once the list is empty every read succeeds.
\<close>

record dst = pst +
  disks :: "disk list"
  bufs :: "buf list"
  lru :: "nat list"
  idequeue :: "nat option"
  media :: "nat \<Rightarrow> nat \<Rightarrow> bytes"
  ide_errs :: "bool list"
  dtrace :: "(nat \<times> nat \<times> bytes) list"

definition upd_buf :: "nat \<Rightarrow> (buf \<Rightarrow> buf) \<Rightarrow> 'a dst_scheme \<Rightarrow> 'a dst_scheme" where
  "upd_buf i f s = s\<lparr>bufs := (bufs s)[i := f (bufs s ! i)]\<rparr>"

definition upd_disk :: "nat \<Rightarrow> (disk \<Rightarrow> disk) \<Rightarrow> 'a dst_scheme \<Rightarrow> 'a dst_scheme" where
  "upd_disk d f s = s\<lparr>disks := (disks s)[d := f (disks s ! d)]\<rparr>"

section \<open>The disk table\<close>

definition realdisk_exists :: "nat \<Rightarrow> 'a dst_scheme \<Rightarrow> int" where
  "realdisk_exists devid s =
    (if devid \<ge> DISKMAX then -1 else if \<not> dk_inuse (disks s ! devid) then -2 else 0)"

definition realdisk :: "nat \<Rightarrow> 'a dst_scheme \<Rightarrow> nat" where
  "realdisk devid s = dk_driver_device (disks s ! devid)"

definition register_disk :: "int \<Rightarrow> nat \<Rightarrow> driver option \<Rightarrow> 'a dst_scheme \<Rightarrow> nat \<times> 'a dst_scheme" where
  "register_disk ty rdisk realrw s =
    (case find_index (\<lambda>d. \<not> dk_inuse d) (disks s) of
       Some i \<Rightarrow> (i, upd_disk i (\<lambda>d. d\<lparr>dk_inuse := True, dk_driver_device := rdisk,
                    dk_type := ty, dk_diskrw := realrw\<rparr>) s)
     | None \<Rightarrow> (0, s))"

definition disktype :: "nat \<Rightarrow> 'a dst_scheme \<Rightarrow> int" where
  "disktype devid s =
    (if devid \<ge> DISKMAX then -1 else if \<not> dk_inuse (disks s ! devid) then -2
     else dk_type (disks s ! devid))"

definition diskmounted :: "nat \<Rightarrow> 'a dst_scheme \<Rightarrow> bool" where
  "diskmounted d s = dk_mounted (disks s ! d)"

definition zero_log :: log where
  "zero_log = \<lparr>lg_start = 0, lg_size = 0, lg_outstanding = 0, lg_committing = False, lg_dev = 0,
     lg_n = 0, lg_block = replicate LOGSIZE 0\<rparr>"

text \<open>\<open>mem_ok\<close> is whether \<^verbatim>\<open>kmallocz\<close> returned memory for the log.\<close>

definition diskmount0 :: "bool \<Rightarrow> nat \<Rightarrow> superblock \<Rightarrow> 'a dst_scheme \<Rightarrow> int \<times> 'a dst_scheme" where
  "diskmount0 mem_ok d sb s =
    (if diskmounted d s then (-1, s)
     else (0, upd_disk d (\<lambda>k. k\<lparr>dk_mounted := True, dk_sb := sb,
                dk_log := (if mem_ok then Some zero_log else None)\<rparr>) s))"

definition diskmount1 :: "nat \<Rightarrow> nat option \<Rightarrow> 'a dst_scheme \<Rightarrow> int \<times> 'a dst_scheme" where
  "diskmount1 d mountroot s =
    (if \<not> diskmounted d s then (-1, s)
     else (0, upd_disk d (\<lambda>k. k\<lparr>dk_mountroot := mountroot, dk_initialized := True\<rparr>) s))"

definition diskmount :: "nat \<Rightarrow> nat option \<Rightarrow> superblock \<Rightarrow> 'a dst_scheme \<Rightarrow> int \<times> 'a dst_scheme" where
  "diskmount d mountroot sb s =
    (if diskmounted d s then (-1, s)
     else (0, upd_disk d (\<lambda>k. k\<lparr>dk_mountroot := mountroot, dk_mounted := True, dk_sb := sb\<rparr>) s))"

definition diskunmount :: "nat \<Rightarrow> 'a dst_scheme \<Rightarrow> 'a dst_scheme" where
  "diskunmount d s =
    (if diskmounted d s
     then upd_disk d (\<lambda>k. k\<lparr>dk_mountroot := None, dk_mounted := False, dk_initialized := False\<rparr>) s
     else s)"

definition diskroot :: "nat \<Rightarrow> 'a dst_scheme \<Rightarrow> nat option" where
  "diskroot d s = (if diskmounted d s then dk_mountroot (disks s ! d) else None)"

definition getsuperblock :: "nat \<Rightarrow> 'a dst_scheme \<Rightarrow> superblock option" where
  "getsuperblock d s = (if diskmounted d s then Some (dk_sb (disks s ! d)) else None)"

definition setsuperblock :: "nat \<Rightarrow> superblock \<Rightarrow> 'a dst_scheme \<Rightarrow> 'a dst_scheme" where
  "setsuperblock d sb s =
    (if diskmounted d s then upd_disk d (\<lambda>k. k\<lparr>dk_sb := sb\<rparr>) s else s)"

definition getlog :: "nat \<Rightarrow> 'a dst_scheme \<Rightarrow> log option" where
  "getlog d s = (if diskmounted d s then dk_log (disks s ! d) else None)"

text \<open>An assignment through the pointer \<^verbatim>\<open>getlog\<close> returned.\<close>

definition upd_log :: "nat \<Rightarrow> (log \<Rightarrow> log) \<Rightarrow> 'a dst_scheme \<Rightarrow> 'a dst_scheme" where
  "upd_log d f s = upd_disk d (\<lambda>k. k\<lparr>dk_log := map_option f (dk_log k)\<rparr>) s"

section \<open>The IDE driver\<close>

text \<open>The drive a disk's requests go to: \<^verbatim>\<open>(realdev&1)<<4\<close> of the command block.\<close>

definition drive :: "nat \<Rightarrow> 'a dst_scheme \<Rightarrow> nat" where
  "drive dev s = realdisk dev s mod 2"

text \<open>\<^verbatim>\<open>idestart\<close>: a write hands the data to the drive at once, a read is answered at the interrupt.\<close>

definition idestart :: "nat \<Rightarrow> 'a dst_scheme \<Rightarrow> ('a dst_scheme, unit) outcome" where
  "idestart i s =
    (let b = bufs s ! i in
     if b_blockno b \<ge> FSSIZE then Inl (Panic ''incorrect blockno'')
     else if b_dirty b
       then let d = drive (b_dev b) s in
         Inr ((), s\<lparr>media := (media s)(d := (media s d)(b_blockno b := b_data b)),
                    dtrace := dtrace s @ [(d, b_blockno b, b_data b)]\<rparr>)
     else Inr ((), s))"

text \<open>\<^verbatim>\<open>ideintr\<close>: the request at the head of the queue is complete.\<close>

definition ideintr :: "'a dst_scheme \<Rightarrow> ('a dst_scheme, unit) outcome" where
  "ideintr s =
    (case idequeue s of
       None \<Rightarrow> Inr ((), s)
     | Some i \<Rightarrow>
       let b = bufs s ! i;
           s1 = s\<lparr>idequeue := b_qnext b\<rparr>;
           s2 = (if \<not> b_dirty b
                 then let err = (case ide_errs s1 of [] \<Rightarrow> False | e # es \<Rightarrow> e);
                          s1' = s1\<lparr>ide_errs := tl (ide_errs s1)\<rparr> in
                      if \<not> err
                      then upd_buf i (\<lambda>b. b\<lparr>b_data := media s1' (drive (b_dev b) s1') (b_blockno b)\<rparr>) s1'
                      else s1'
                 else s1);
           s3 = upd_buf i (\<lambda>b. b\<lparr>b_valid := True, b_dirty := False\<rparr>) s2;
           s4 = wakeup (ChBuf i) s3
       in (case idequeue s4 of
             Some j \<Rightarrow> idestart j s4
           | None \<Rightarrow> Inr ((), s4)))"

text \<open>
  The walk \<^verbatim>\<open>for(pp=&idequeue; *pp; pp=&(*pp)->qnext)\<close> to the last queued buffer. The fuel bounds
  it by the number of buffers; a queue without a cycle ends before.
\<close>

fun ide_tail :: "nat \<Rightarrow> nat \<Rightarrow> 'a dst_scheme \<Rightarrow> nat" where
  "ide_tail 0 i s = i"
| "ide_tail (Suc k) i s = (case b_qnext (bufs s ! i) of None \<Rightarrow> i | Some j \<Rightarrow> ide_tail k j s)"

definition ide_enqueue :: "nat \<Rightarrow> 'a dst_scheme \<Rightarrow> 'a dst_scheme" where
  "ide_enqueue i s =
    (let s1 = upd_buf i (\<lambda>b. b\<lparr>b_qnext := None\<rparr>) s in
     case idequeue s1 of
       None \<Rightarrow> s1\<lparr>idequeue := Some i\<rparr>
     | Some h \<Rightarrow> upd_buf (ide_tail NBUF h s1) (\<lambda>b. b\<lparr>b_qnext := Some i\<rparr>) s1)"

text \<open>
  \<^verbatim>\<open>while((b->flags & (B_VALID|B_DIRTY)) != B_VALID) sleep(b, &idelock)\<close>: the caller sleeps, the
  controller raises one interrupt for each queued request, and the wait is over when the request
  for the buffer has been served. The fuel is one interrupt per buffer the queue can hold.
\<close>

fun ide_wait :: "nat \<Rightarrow> nat \<Rightarrow> 'a dst_scheme \<Rightarrow> ('a dst_scheme, unit) outcome" where
  "ide_wait 0 i s = (if b_valid (bufs s ! i) \<and> \<not> b_dirty (bufs s ! i) then Inr ((), s)
     else sleep (ChBuf i) s)"
| "ide_wait (Suc k) i s = (if b_valid (bufs s ! i) \<and> \<not> b_dirty (bufs s ! i) then Inr ((), s)
     else bnd (ideintr s) (\<lambda>(_, s). ide_wait k i s))"

definition iderw :: "nat \<Rightarrow> 'a dst_scheme \<Rightarrow> ('a dst_scheme, unit) outcome" where
  "iderw i s =
    (if \<not> b_busy (bufs s ! i) then Inl (Panic ''iderw: buf not busy'')
     else if b_valid (bufs s ! i) \<and> \<not> b_dirty (bufs s ! i) then Inl (Panic ''iderw: nothing to do'')
     else let s1 = ide_enqueue i s in
       bnd (if idequeue s1 = Some i then idestart i s1 else Inr ((), s1))
         (\<lambda>(_, s2). ide_wait NBUF i s2))"

definition diskrw :: "nat \<Rightarrow> 'a dst_scheme \<Rightarrow> ('a dst_scheme, unit) outcome" where
  "diskrw i s =
    (let dev = b_dev (bufs s ! i) in
     if dev \<ge> DISKMAX then Inl (Fault ''diskrw: no such disk'')
     else case dk_diskrw (disks s ! dev) of
       None \<Rightarrow> Inl (Fault ''diskrw: no driver'')
     | Some Iderw \<Rightarrow> iderw i s)"

text \<open>\<^verbatim>\<open>ide_write\<close> and \<^verbatim>\<open>ide_read\<close>: raw access through device 6 is disabled.\<close>

definition ide_write :: "bytes \<Rightarrow> int \<Rightarrow> int \<Rightarrow> int" where
  "ide_write bf nbytes off = 0"

definition ide_read :: "int \<Rightarrow> int \<Rightarrow> int" where
  "ide_read nbytes off = 0"

text \<open>\<^verbatim>\<open>ideinit\<close>'s registrations: drive 0, and drive 1 when the controller answers for it.\<close>

definition ideinit_disks :: "bool \<Rightarrow> 'a dst_scheme \<Rightarrow> 'a dst_scheme" where
  "ideinit_disks havedisk1 s =
    (let s1 = snd (register_disk 0 0 (Some Iderw) s) in
     if havedisk1 then snd (register_disk 0 1 (Some Iderw) s1) else s1)"

section \<open>A single request\<close>

lemma wakeup_dst [simp]:
  "disks (wakeup ch s) = disks s" "bufs (wakeup ch s) = bufs s" "lru (wakeup ch s) = lru s"
  "idequeue (wakeup ch s) = idequeue s" "media (wakeup ch s) = media s"
  "ide_errs (wakeup ch s) = ide_errs s" "dtrace (wakeup ch s) = dtrace s"
  "curproc (wakeup ch s) = curproc s" "dst.more (wakeup ch s) = dst.more s"
  by (simp_all add: wakeup_def wakeup1_def)

lemma realdisk_simps [simp]:
  "realdisk d (wakeup ch s) = realdisk d s"
  "realdisk d (s\<lparr>idequeue := q\<rparr>) = realdisk d s"
  "realdisk d (s\<lparr>bufs := bs\<rparr>) = realdisk d s"
  "realdisk d (s\<lparr>ide_errs := es\<rparr>) = realdisk d s"
  by (simp_all add: realdisk_def)

lemma drive_simps [simp]:
  "drive d (wakeup ch s) = drive d s"
  "drive d (s\<lparr>idequeue := q\<rparr>) = drive d s"
  "drive d (s\<lparr>bufs := bs\<rparr>) = drive d s"
  "drive d (s\<lparr>ide_errs := es\<rparr>) = drive d s"
  by (simp_all add: drive_def)

lemma ide_wait_done: "b_valid (bufs s ! i) \<Longrightarrow> \<not> b_dirty (bufs s ! i) \<Longrightarrow> ide_wait k i s = Inr ((), s)"
  by (cases k) simp_all

text \<open>With an empty queue a request is served by the next interrupt: a read fills the buffer
  from its sector, a write stores the buffer in its sector; both leave it valid and clean.\<close>

lemma iderw_read:
  assumes "idequeue s = None" "i < length (bufs s)" "b = bufs s ! i" "b_busy b" "\<not> b_valid b"
    "\<not> b_dirty b" "b_blockno b < FSSIZE" "ide_errs s = []"
  shows "iderw i s = Inr ((), wakeup (ChBuf i) (s\<lparr>bufs := (bufs s)[i :=
     b\<lparr>b_qnext := None, b_data := media s (drive (b_dev b) s) (b_blockno b), b_valid := True\<rparr>]\<rparr>))"
proof -
  obtain k where N: "NBUF = Suc k" by (auto simp: NBUF_def numeral_eq_Suc)
  let ?s2 = "s\<lparr>bufs := (bufs s)[i := b\<lparr>b_qnext := None\<rparr>], idequeue := Some i\<rparr>"
  have "ide_enqueue i s = ?s2"
    using assms by (simp add: ide_enqueue_def upd_buf_def)
  moreover have "idestart i ?s2 = Inr ((), ?s2)"
    using assms by (simp add: idestart_def)
  moreover have "ide_wait NBUF i ?s2 = Inr ((), wakeup (ChBuf i) (s\<lparr>bufs := (bufs s)[i :=
     b\<lparr>b_qnext := None, b_data := media s (drive (b_dev b) s) (b_blockno b), b_valid := True\<rparr>]\<rparr>))"
    using assms unfolding N
    by (simp add: ideintr_def upd_buf_def ide_wait_done)
      (auto intro!: arg_cong [where f = "wakeup (ChBuf i)"] dst.equality
        arg_cong [where f = "list_update (bufs s) i"] buf.equality)
  ultimately show ?thesis using assms by (simp add: iderw_def)
qed

lemma iderw_write:
  assumes "idequeue s = None" "i < length (bufs s)" "b = bufs s ! i" "b_busy b" "b_dirty b"
    "b_blockno b < FSSIZE" "d = drive (b_dev b) s"
  shows "iderw i s = Inr ((), wakeup (ChBuf i) (s\<lparr>bufs := (bufs s)[i :=
       b\<lparr>b_qnext := None, b_valid := True, b_dirty := False\<rparr>],
     media := (media s)(d := (media s d)(b_blockno b := b_data b)),
     dtrace := dtrace s @ [(d, b_blockno b, b_data b)]\<rparr>))"
proof -
  obtain k where N: "NBUF = Suc k" by (auto simp: NBUF_def numeral_eq_Suc)
  let ?s2 = "s\<lparr>bufs := (bufs s)[i := b\<lparr>b_qnext := None\<rparr>], idequeue := Some i\<rparr>"
  let ?s3 = "?s2\<lparr>media := (media s)(d := (media s d)(b_blockno b := b_data b)),
     dtrace := dtrace s @ [(d, b_blockno b, b_data b)]\<rparr>"
  have "ide_enqueue i s = ?s2"
    using assms by (simp add: ide_enqueue_def upd_buf_def)
  moreover have "idestart i ?s2 = Inr ((), ?s3)"
    using assms by (simp add: idestart_def Let_def)
  moreover have "ide_wait NBUF i ?s3 = Inr ((), wakeup (ChBuf i) (s\<lparr>bufs := (bufs s)[i :=
       b\<lparr>b_qnext := None, b_valid := True, b_dirty := False\<rparr>],
     media := (media s)(d := (media s d)(b_blockno b := b_data b)),
     dtrace := dtrace s @ [(d, b_blockno b, b_data b)]\<rparr>))"
    using assms unfolding N
    by (simp add: ideintr_def upd_buf_def ide_wait_done)
      (auto intro!: arg_cong [where f = "wakeup (ChBuf i)"] dst.equality
        arg_cong [where f = "list_update (bufs s) i"] buf.equality)
  ultimately show ?thesis using assms by (simp add: iderw_def)
qed

end
