(* ===== verification/Bio.thy ===== *)
theory Bio
  imports Disk "HOL-Library.Signed_Division"
begin

text \<open>
  The buffer cache, \<^verbatim>\<open>bio.c\<close>. The circular list through \<^verbatim>\<open>bcache.head\<close> is the list \<open>lru\<close> of buffer
  indices, most recently used first. The invariant \<open>binv\<close> says that the cache holds at most one
  copy of a block and that clean copies agree with the disk; \<open>blk\<close> is the content of a block as a
  client of the cache sees it. The lemmas give, for each operation, its result, its effect on
  \<open>blk\<close>, on the buffers in use and on the invariant.
\<close>

section \<open>Operations\<close>

definition NODEV :: nat where "NODEV = 2 ^ 32 - 1"

definition zero_buf :: buf where
  "zero_buf = \<lparr>b_busy = False, b_valid = False, b_dirty = False, b_dev = NODEV, b_blockno = 0,
     b_qnext = None, b_data = replicate BSIZE 0\<rparr>"

text \<open>\<^verbatim>\<open>binit\<close> on the zeroed static cache: each buffer is put at the head of the list in turn.\<close>

definition binit :: "'a dst_scheme \<Rightarrow> 'a dst_scheme" where
  "binit s = s\<lparr>bufs := replicate NBUF zero_buf, lru := rev [0..<NBUF]\<rparr>"

definition bget :: "nat \<Rightarrow> nat \<Rightarrow> 'a dst_scheme \<Rightarrow> ('a dst_scheme, nat) outcome" where
  "bget dev blockno s =
    (case find (\<lambda>i. b_dev (bufs s ! i) = dev \<and> b_blockno (bufs s ! i) = blockno) (lru s) of
       Some i \<Rightarrow>
         if \<not> b_busy (bufs s ! i) then Inr (i, upd_buf i (\<lambda>b. b\<lparr>b_busy := True\<rparr>) s)
         else sleep (ChBuf i) s
     | None \<Rightarrow>
       (case find (\<lambda>i. \<not> b_busy (bufs s ! i) \<and> \<not> b_dirty (bufs s ! i)) (rev (lru s)) of
          Some i \<Rightarrow> Inr (i, upd_buf i (\<lambda>b. b\<lparr>b_dev := dev, b_blockno := blockno,
                      b_busy := True, b_valid := False, b_dirty := False\<rparr>) s)
        | None \<Rightarrow> Inl (Panic ''bget: no buffers'')))"

definition bread :: "nat \<Rightarrow> nat \<Rightarrow> 'a dst_scheme \<Rightarrow> ('a dst_scheme, nat) outcome" where
  "bread dev blockno s =
    bnd (bget dev blockno s) (\<lambda>(i, s).
      if \<not> b_valid (bufs s ! i) then bnd (diskrw i s) (\<lambda>(_, s). Inr (i, s)) else Inr (i, s))"

definition bwrite :: "nat \<Rightarrow> 'a dst_scheme \<Rightarrow> ('a dst_scheme, unit) outcome" where
  "bwrite i s =
    (if \<not> b_busy (bufs s ! i) then Inl (Panic ''bwrite'')
     else diskrw i (upd_buf i (\<lambda>b. b\<lparr>b_dirty := True\<rparr>) s))"

definition brelse :: "nat \<Rightarrow> 'a dst_scheme \<Rightarrow> ('a dst_scheme, unit) outcome" where
  "brelse i s =
    (if \<not> b_busy (bufs s ! i) then Inl (Panic ''brelse'')
     else let s1 = s\<lparr>lru := i # remove1 i (lru s)\<rparr>;
              s2 = upd_buf i (\<lambda>b. b\<lparr>b_busy := False\<rparr>) s1
          in Inr ((), wakeup (ChBuf i) s2))"

text \<open>A store to the data of a buffer the caller holds.\<close>

definition set_data :: "nat \<Rightarrow> bytes \<Rightarrow> 'a dst_scheme \<Rightarrow> 'a dst_scheme" where
  "set_data i d s = upd_buf i (\<lambda>b. b\<lparr>b_data := d\<rparr>) s"

text \<open>
  \<^verbatim>\<open>bdisk_read\<close> and \<^verbatim>\<open>bdisk_write\<close>, the block device files: the offset is divided as a signed
  number and the results become unsigned; a count that passes the test as an unsigned number
  reaches \<^verbatim>\<open>memmove\<close> unsigned.
\<close>

definition bdisk_read :: "nat \<Rightarrow> int \<Rightarrow> int \<Rightarrow> 'a dst_scheme \<Rightarrow> ('a dst_scheme, int \<times> bytes) outcome" where
  "bdisk_read minor nbytes off s =
    (let bnum = nat ((off sdiv 512) mod 2 ^ 32);
         boff = nat ((off smod 512) mod 2 ^ 32);
         n = nat (nbytes mod 2 ^ 32) in
     if u32add boff n > BSIZE then Inr ((-1, []), seterr ''nbytes+boff > BSIZE'' s)
     else bnd (bread minor bnum s) (\<lambda>(i, s).
       if \<not> b_valid (bufs s ! i)
       then Inr ((-1, []), seterr ''the requested device does not exist'' s)
       else if boff + n > BSIZE then Inl (Fault ''bdisk_read: memmove past the buffer'')
       else let d = slice boff n (b_data (bufs s ! i)) in
         bnd (brelse i s) (\<lambda>(_, s). Inr ((nbytes, d), s))))"

definition bdisk_write :: "nat \<Rightarrow> bytes \<Rightarrow> int \<Rightarrow> int \<Rightarrow> 'a dst_scheme \<Rightarrow> ('a dst_scheme, int) outcome" where
  "bdisk_write minor bf nbytes off s =
    (let bnum = nat ((off sdiv 512) mod 2 ^ 32);
         boff = nat ((off smod 512) mod 2 ^ 32);
         n = nat (nbytes mod 2 ^ 32) in
     if u32add boff n > BSIZE then Inr (-1, seterr ''nbytes+boff > BSIZE'' s)
     else bnd (bread minor bnum s) (\<lambda>(i, s).
       if \<not> b_valid (bufs s ! i)
       then Inr (-1, seterr ''the requested device does not exist'' s)
       else if boff + n > BSIZE then Inl (Fault ''bdisk_write: memmove past the buffer'')
       else bnd (bwrite i (set_data i (patch boff (take n bf) (b_data (bufs s ! i))) s)) (\<lambda>(_, s).
            bnd (brelse i s) (\<lambda>(_, s). Inr (nbytes, s)))))"

section \<open>The invariant and the client's view\<close>

text \<open>A disk served by the IDE driver; the content of its sectors.\<close>

definition ide_dev :: "'a dst_scheme \<Rightarrow> nat \<Rightarrow> bool" where
  "ide_dev s d = (d < DISKMAX \<and> dk_diskrw (disks s ! d) = Some Iderw)"

definition dsk :: "'a dst_scheme \<Rightarrow> nat \<Rightarrow> nat \<Rightarrow> bytes" where
  "dsk s d b = (if ide_dev s d then media s (drive d s) b else replicate BSIZE 0)"

definition caches :: "'a dst_scheme \<Rightarrow> nat \<Rightarrow> nat \<Rightarrow> nat \<Rightarrow> bool" where
  "caches s d b i = (b_valid (bufs s ! i) \<and> b_dev (bufs s ! i) = d \<and> b_blockno (bufs s ! i) = b)"

definition blk :: "'a dst_scheme \<Rightarrow> nat \<Rightarrow> nat \<Rightarrow> bytes" where
  "blk s d b = (case find (caches s d b) [0..<NBUF] of
     Some i \<Rightarrow> b_data (bufs s ! i) | None \<Rightarrow> dsk s d b)"

definition bufok :: "'a dst_scheme \<Rightarrow> buf \<Rightarrow> bool" where
  "bufok s b = (length (b_data b) = BSIZE
     \<and> (b_valid b \<longrightarrow> ide_dev s (b_dev b) \<and> b_blockno b < FSSIZE)
     \<and> (b_valid b \<and> \<not> b_dirty b \<longrightarrow> b_data b = dsk s (b_dev b) (b_blockno b))
     \<and> (\<not> b_valid b \<longrightarrow> b_dev b \<ge> DISKMAX \<and> \<not> b_busy b \<and> \<not> b_dirty b))"

definition binv :: "'a dst_scheme \<Rightarrow> bool" where
  "binv s = (length (bufs s) = NBUF \<and> length (disks s) = DISKMAX
     \<and> distinct (lru s) \<and> set (lru s) = {..<NBUF}
     \<and> idequeue s = None \<and> ide_errs s = []
     \<and> (\<forall>d e. ide_dev s d \<and> ide_dev s e \<and> drive d s = drive e s \<longrightarrow> d = e)
     \<and> (\<forall>d b. length (media s d b) = BSIZE)
     \<and> (\<forall>i < NBUF. bufok s (bufs s ! i))
     \<and> (\<forall>i < NBUF. \<forall>j < NBUF. \<forall>d b. caches s d b i \<and> caches s d b j \<longrightarrow> i = j))"

text \<open>The blocks whose buffer is locked, and the buffers that cannot be recycled.\<close>

definition held :: "'a dst_scheme \<Rightarrow> (nat \<times> nat) set" where
  "held s = {(b_dev (bufs s ! i), b_blockno (bufs s ! i)) | i. i < NBUF \<and> b_busy (bufs s ! i)}"

definition pinned :: "'a dst_scheme \<Rightarrow> nat set" where
  "pinned s = {i. i < NBUF \<and> (b_busy (bufs s ! i) \<or> b_dirty (bufs s ! i))}"

section \<open>Lemmas\<close>

lemma find_SomeD: "find P xs = Some x \<Longrightarrow> x \<in> set xs \<and> P x"
  by (induction xs) (auto split: if_splits)

lemma find_NoneD: "find P xs = None \<Longrightarrow> x \<in> set xs \<Longrightarrow> \<not> P x"
  by (auto simp: find_None_iff)

lemma blk_cached:
  assumes "binv s" "i < NBUF" "caches s d b i"
  shows "blk s d b = b_data (bufs s ! i)"
proof (cases "find (caches s d b) [0..<NBUF]")
  case None
  then show ?thesis using assms by (auto dest: find_NoneD)
next
  case (Some j)
  then have "j < NBUF" "caches s d b j" by (auto dest: find_SomeD)
  then have "j = i" using assms unfolding binv_def by blast
  then show ?thesis using Some by (simp add: blk_def)
qed

lemma blk_uncached: "\<forall>i < NBUF. \<not> caches s d b i \<Longrightarrow> blk s d b = dsk s d b"
  by (auto simp: blk_def find_None_iff split: option.split dest: find_SomeD)

lemma binvD:
  assumes "binv s"
  shows "length (bufs s) = NBUF" "length (disks s) = DISKMAX" "distinct (lru s)"
    "set (lru s) = {..<NBUF}" "idequeue s = None" "ide_errs s = []"
    "\<And>i. i < NBUF \<Longrightarrow> bufok s (bufs s ! i)" "\<And>d b. length (media s d b) = BSIZE"
    "\<And>d e. ide_dev s d \<Longrightarrow> ide_dev s e \<Longrightarrow> drive d s = drive e s \<Longrightarrow> d = e"
  using assms by (auto simp: binv_def)

lemma binv_unique:
  "binv s \<Longrightarrow> i < NBUF \<Longrightarrow> j < NBUF \<Longrightarrow> caches s d b i \<Longrightarrow> caches s d b j \<Longrightarrow> i = j"
  unfolding binv_def by blast

lemma binv_busy_valid: "binv s \<Longrightarrow> i < NBUF \<Longrightarrow> b_busy (bufs s ! i) \<Longrightarrow> b_valid (bufs s ! i)"
  using binvD(7) [of s i] by (auto simp: bufok_def)

lemma binv_dirty_valid: "binv s \<Longrightarrow> i < NBUF \<Longrightarrow> b_dirty (bufs s ! i) \<Longrightarrow> b_valid (bufs s ! i)"
  using binvD(7) [of s i] by (auto simp: bufok_def)

lemma length_blk:
  assumes "binv s"
  shows "length (blk s d b) = BSIZE"
  using binvD(7,8) [OF assms]
  by (auto simp: blk_def dsk_def bufok_def split: option.split dest!: find_SomeD)

lemma finite_pinned [simp]: "finite (pinned s)"
  by (simp add: pinned_def)

text \<open>
  Replacing one buffer. The three conditions cover all uses: a cache hit or a release keeps what
  the buffer caches; a miss gives a clean buffer a new block; a store pins the buffer as dirty.
\<close>

lemma ide_dev_frame [simp]:
  "ide_dev (s\<lparr>bufs := x\<rparr>) d = ide_dev s d" "ide_dev (s\<lparr>procs := ps\<rparr>) d = ide_dev s d"
  "ide_dev (s\<lparr>lru := l\<rparr>) d = ide_dev s d"
  by (simp_all add: ide_dev_def)

lemma dsk_frame [simp]:
  "dsk (s\<lparr>bufs := x\<rparr>) d b = dsk s d b" "dsk (s\<lparr>procs := ps\<rparr>) d b = dsk s d b"
  "dsk (s\<lparr>lru := l\<rparr>) d b = dsk s d b"
  by (simp_all add: dsk_def drive_def realdisk_def ide_dev_def)

lemma drive_frame [simp]:
  "drive d (s\<lparr>procs := ps\<rparr>) = drive d s" "drive d (s\<lparr>lru := l\<rparr>) = drive d s"
  by (simp_all add: drive_def realdisk_def)

lemma caches_frame [simp]:
  "caches (s\<lparr>procs := ps\<rparr>) d b i = caches s d b i" "caches (s\<lparr>lru := l\<rparr>) d b i = caches s d b i"
  by (simp_all add: caches_def)

lemma blk_frame [simp]:
  "blk (s\<lparr>procs := ps\<rparr>) = blk s" "blk (s\<lparr>lru := l\<rparr>) = blk s"
proof -
  have "caches (s\<lparr>procs := ps\<rparr>) = caches s" "caches (s\<lparr>lru := l\<rparr>) = caches s"
    by (simp_all add: fun_eq_iff)
  then show "blk (s\<lparr>procs := ps\<rparr>) = blk s" "blk (s\<lparr>lru := l\<rparr>) = blk s"
    by (intro ext, simp add: blk_def split: option.split)+
qed

lemma bufok_frame [simp]:
  "bufok (s\<lparr>procs := ps\<rparr>) b = bufok s b" "bufok (s\<lparr>lru := l\<rparr>) b = bufok s b"
  "bufok (s\<lparr>bufs := x\<rparr>) b = bufok s b"
  by (simp_all add: bufok_def)

lemma binv_procs [simp]: "binv (s\<lparr>procs := ps\<rparr>) = binv s"
  by (simp add: binv_def)

lemma binv_lru: "binv s \<Longrightarrow> distinct l \<Longrightarrow> set l = {..<NBUF} \<Longrightarrow> binv (s\<lparr>lru := l\<rparr>)"
  by (simp add: binv_def)

lemma held_pinned_frame [simp]:
  "held (s\<lparr>procs := ps\<rparr>) = held s" "held (s\<lparr>lru := l\<rparr>) = held s"
  "pinned (s\<lparr>procs := ps\<rparr>) = pinned s" "pinned (s\<lparr>lru := l\<rparr>) = pinned s"
  by (simp_all add: held_def pinned_def)

lemma caches_upd:
  "length (bufs s) = NBUF \<Longrightarrow> i < NBUF \<Longrightarrow> caches (s\<lparr>bufs := (bufs s)[i := b']\<rparr>) d b j =
    (if j = i then b_valid b' \<and> b_dev b' = d \<and> b_blockno b' = b else caches s d b j)"
  by (auto simp: caches_def)

lemma binv_upd:
  assumes inv: "binv s" and i: "i < NBUF" and ok: "bufok s b'"
    and new: "b_valid b' \<Longrightarrow> \<forall>j < NBUF. j \<noteq> i \<longrightarrow> \<not> caches s (b_dev b') (b_blockno b') j"
  shows "binv (s\<lparr>bufs := (bufs s)[i := b']\<rparr>)"
proof -
  let ?s = "s\<lparr>bufs := (bufs s)[i := b']\<rparr>"
  have "j = k" if "j < NBUF" "k < NBUF" "caches ?s d b j" "caches ?s d b k" for j k d b
    using that new binv_unique [OF inv, of j k d b] i binvD(1) [OF inv]
    by (auto simp: caches_upd split: if_splits)
  moreover have "bufok ?s (bufs ?s ! j)" if "j < NBUF" for j
    using that ok i binvD(1,7) [OF inv] by (simp add: nth_list_update)
  ultimately show ?thesis
    using inv by (auto simp: binv_def)
qed

lemma blk_upd:
  assumes inv: "binv s" and i: "i < NBUF" and inv': "binv (s\<lparr>bufs := (bufs s)[i := b']\<rparr>)"
    and val: "b_valid b'"
    and old: "b_valid (bufs s ! i) \<Longrightarrow> \<not> (b_dev (bufs s ! i) = b_dev b' \<and> b_blockno (bufs s ! i) = b_blockno b')
        \<Longrightarrow> \<not> b_dirty (bufs s ! i)"
  shows "blk (s\<lparr>bufs := (bufs s)[i := b']\<rparr>) d b
    = (if d = b_dev b' \<and> b = b_blockno b' then b_data b' else blk s d b)"
proof -
  let ?s = "s\<lparr>bufs := (bufs s)[i := b']\<rparr>"
  note c = caches_upd [OF binvD(1) [OF inv] i, of b']
  show ?thesis
  proof (cases "d = b_dev b' \<and> b = b_blockno b'")
    case True
    then have "caches ?s d b i" using val by (simp add: c)
    from blk_cached [OF inv' i this] show ?thesis
      using True i binvD(1) [OF inv] by simp
  next
    case False
    show ?thesis
    proof (cases "\<exists>j < NBUF. j \<noteq> i \<and> caches s d b j")
      case True
      then obtain j where j: "j < NBUF" "j \<noteq> i" "caches s d b j" by blast
      then have "caches ?s d b j" by (simp add: c)
      from blk_cached [OF inv' j(1) this] blk_cached [OF inv j(1,3)] show ?thesis
        using False j by auto
    next
      case F2: False
      have "blk ?s d b = dsk s d b"
        using F2 False by (subst blk_uncached) (auto simp: c)
      moreover have "blk s d b = dsk s d b"
      proof (cases "caches s d b i")
        case True
        then have "\<not> b_dirty (bufs s ! i)" using old False by (auto simp: caches_def)
        then show ?thesis
          using blk_cached [OF inv i True] True binvD(7) [OF inv i] by (auto simp: caches_def bufok_def)
      next
        case F3: False
        then show ?thesis using F2 by (intro blk_uncached) auto
      qed
      ultimately show ?thesis using False by auto
    qed
  qed
qed

section \<open>The operations on a consistent cache\<close>

lemma held_iff:
  "(d, b) \<in> held s \<longleftrightarrow>
     (\<exists>i < NBUF. b_busy (bufs s ! i) \<and> b_dev (bufs s ! i) = d \<and> b_blockno (bufs s ! i) = b)"
  by (auto simp: held_def)

lemma held_upd:
  assumes "binv s" "i < NBUF" "\<not> b_busy (bufs s ! i)" "b_busy b'"
  shows "held (s\<lparr>bufs := (bufs s)[i := b']\<rparr>) = insert (b_dev b', b_blockno b') (held s)"
proof (intro set_eqI)
  fix x :: "nat \<times> nat"
  show "x \<in> held (s\<lparr>bufs := (bufs s)[i := b']\<rparr>) \<longleftrightarrow> x \<in> insert (b_dev b', b_blockno b') (held s)"
    using assms binvD(1) [OF assms(1)]
    by (cases x) (auto simp: held_iff nth_list_update split: if_splits)
qed

lemma pinned_upd:
  assumes "binv s" "i < NBUF" "b_busy b'"
  shows "pinned (s\<lparr>bufs := (bufs s)[i := b']\<rparr>) = insert i (pinned s)"
  using assms binvD(1) [OF assms(1)] by (auto simp: pinned_def nth_list_update split: if_splits)

text \<open>A free buffer exists as long as fewer than all buffers are pinned.\<close>

lemma free_buffer:
  assumes "binv s" "card (pinned s) < NBUF"
  obtains v where "find (\<lambda>i. \<not> b_busy (bufs s ! i) \<and> \<not> b_dirty (bufs s ! i)) (rev (lru s)) = Some v"
    "v < NBUF" "\<not> b_busy (bufs s ! v)" "\<not> b_dirty (bufs s ! v)"
proof -
  have "pinned s \<noteq> {..<NBUF}" using assms(2) by force
  then obtain j where j: "j < NBUF" "j \<notin> pinned s" by (auto simp: pinned_def)
  let ?P = "\<lambda>i. \<not> b_busy (bufs s ! i) \<and> \<not> b_dirty (bufs s ! i)"
  have "j \<in> set (rev (lru s))" "?P j" using j binvD(4) [OF assms(1)] by (auto simp: pinned_def)
  then obtain v where v: "find ?P (rev (lru s)) = Some v"
    by (cases "find ?P (rev (lru s))") (auto dest: find_NoneD)
  with find_SomeD [OF v] binvD(4) [OF assms(1)] that show thesis by auto
qed

text \<open>
  \<open>bread\<close> of a block nobody holds, with a buffer to spare: it returns a locked buffer with the
  block's content, and changes nothing else a client can see.
\<close>

lemma bread_ok:
  assumes inv: "binv s" and dev: "ide_dev s d" and b: "b < FSSIZE"
    and nh: "(d, b) \<notin> held s"
    and room: "(\<exists>j < NBUF. caches s d b j) \<or> card (pinned s) < NBUF"
  obtains i b' ps s' where "bread d b s = Inr (i, s')"
    "s' = s\<lparr>bufs := (bufs s)[i := b'], procs := ps\<rparr>" "wakes (procs s) ps" "i < NBUF"
    "\<not> b_busy (bufs s ! i)" "b_busy b'" "b_valid b'" "b_dev b' = d" "b_blockno b' = b"
    "b_data b' = blk s d b" "b_dirty b' = b_dirty (bufs s ! i)"
    "b_dirty b' \<longrightarrow> b_dev (bufs s ! i) = d \<and> b_blockno (bufs s ! i) = b"
    "binv s'" "blk s' = blk s" "held s' = insert (d, b) (held s)" "pinned s' = insert i (pinned s)"
proof -
  let ?P = "\<lambda>i. b_dev (bufs s ! i) = d \<and> b_blockno (bufs s ! i) = b"
  note L = binvD(1) [OF inv]
  show thesis
  proof (cases "find ?P (lru s)")
    case (Some i)
    then have i: "i < NBUF" and P: "?P i" using binvD(4) [OF inv] by (auto dest: find_SomeD)
    have nb: "\<not> b_busy (bufs s ! i)" using nh i P by (auto simp: held_iff)
    have ok: "bufok s (bufs s ! i)" using binvD(7) [OF inv i] .
    have val: "b_valid (bufs s ! i)"
      using ok P dev by (auto simp: bufok_def ide_dev_def)
    let ?b = "(bufs s ! i)\<lparr>b_busy := True\<rparr>"
    let ?s = "s\<lparr>bufs := (bufs s)[i := ?b]\<rparr>"
    have c: "caches s d b i" using P val by (simp add: caches_def)
    have "bufok s ?b" using ok val by (auto simp: bufok_def)
    then have inv': "binv ?s"
      using binv_unique [OF inv i] c P by (intro binv_upd [OF inv i]) auto
    have "blk ?s = blk s"
      using blk_upd [OF inv i inv'] val P blk_cached [OF inv i c] by (intro ext) auto
    moreover have "bread d b s = Inr (i, ?s)"
      using Some nb val i L by (simp add: bread_def bget_def upd_buf_def)
    ultimately show thesis
      using that [of i ?s "procs s" ?b] i nb val P inv' blk_cached [OF inv i c]
        held_upd [OF inv i nb] pinned_upd [OF inv i] by simp
  next
    case None
    then have unc: "\<not> ?P j" if "j < NBUF" for j
      using that binvD(4) [OF inv] by (auto dest!: find_NoneD)
    then have unc': "\<forall>j < NBUF. \<not> caches s d b j" by (auto simp: caches_def)
    have "card (pinned s) < NBUF" using room unc' by blast
    then obtain v where fv: "find (\<lambda>i. \<not> b_busy (bufs s ! i) \<and> \<not> b_dirty (bufs s ! i)) (rev (lru s)) = Some v"
      and v: "v < NBUF" "\<not> b_busy (bufs s ! v)" "\<not> b_dirty (bufs s ! v)"
      using free_buffer [OF inv] by blast
    let ?bA = "(bufs s ! v)\<lparr>b_dev := d, b_blockno := b, b_busy := True, b_valid := False, b_dirty := False\<rparr>"
    let ?b = "?bA\<lparr>b_qnext := None, b_data := dsk s d b, b_valid := True\<rparr>"
    let ?sA = "s\<lparr>bufs := (bufs s)[v := ?bA]\<rparr>"
    let ?sB = "s\<lparr>bufs := (bufs s)[v := ?b]\<rparr>"
    let ?s = "wakeup (ChBuf v) ?sB"
    obtain ps where ps: "?s = ?sB\<lparr>procs := ps\<rparr>" "wakes (procs s) ps"
      using wakeup_frame [of "ChBuf v" ?sB] by auto
    have "bufok s ?b" using dev b binvD(8) [OF inv] by (simp add: bufok_def dsk_def)
    then have inv': "binv ?sB" using unc' by (intro binv_upd [OF inv v(1)]) auto
    have "blk s d b = dsk s d b" using unc' by (rule blk_uncached)
    then have blk': "blk ?sB = blk s"
      using blk_upd [OF inv v(1) inv'] v by (intro ext) auto
    have "iderw v ?sA = Inr ((), ?s)"
      using iderw_read [of ?sA v ?bA] v b L dev binvD(5,6) [OF inv]
      by (simp add: dsk_def)
    then have "bread d b s = Inr (v, ?s)"
      using None fv v L dev by (simp add: bread_def bget_def upd_buf_def diskrw_def ide_dev_def Let_def)
    then show thesis
      using that [of v "?sB\<lparr>procs := ps\<rparr>" ps ?b] ps v \<open>blk s d b = dsk s d b\<close> inv' blk'
        held_upd [OF inv v(1,2), of ?b] pinned_upd [OF inv v(1), of ?b] by simp
  qed
qed

text \<open>\<open>brelse\<close> unlocks the buffer and makes it the most recently used; contents are unchanged.\<close>

lemma brelse_ok:
  assumes inv: "binv s" and i: "i < NBUF" and busy: "b_busy (bufs s ! i)"
  obtains ps s' where "brelse i s = Inr ((), s')"
    "s' = s\<lparr>bufs := (bufs s)[i := (bufs s ! i)\<lparr>b_busy := False\<rparr>], lru := i # remove1 i (lru s),
         procs := ps\<rparr>"
    "wakes (procs s) ps" "binv s'" "blk s' = blk s"
    "held s' = held s - {(b_dev (bufs s ! i), b_blockno (bufs s ! i))}"
    "pinned s' = (if b_dirty (bufs s ! i) then pinned s else pinned s - {i})"
proof -
  let ?b = "(bufs s ! i)\<lparr>b_busy := False\<rparr>"
  let ?l = "i # remove1 i (lru s)"
  let ?sA = "s\<lparr>bufs := (bufs s)[i := ?b]\<rparr>"
  let ?sB = "?sA\<lparr>lru := ?l\<rparr>"
  note L = binvD(1) [OF inv]
  have val: "b_valid (bufs s ! i)" using binv_busy_valid [OF inv i busy] .
  obtain ps where ps: "wakeup (ChBuf i) ?sB = ?sB\<lparr>procs := ps\<rparr>" "wakes (procs s) ps"
    using wakeup_frame [of "ChBuf i" ?sB] by auto
  have c: "caches s (b_dev (bufs s ! i)) (b_blockno (bufs s ! i)) i"
    using val by (simp add: caches_def)
  have "bufok s ?b" using binvD(7) [OF inv i] val by (simp add: bufok_def)
  then have invA: "binv ?sA"
    using binv_unique [OF inv i _ c] by (intro binv_upd [OF inv i]) auto
  have invB: "binv ?sB"
    using binvD(3,4) [OF inv] i by (intro binv_lru [OF invA]) (auto simp: set_remove1_eq)
  have blkA: "blk ?sA = blk s"
    using blk_upd [OF inv i invA] val blk_cached [OF inv i c] by (intro ext) auto
  have only: "j = i" if "j < NBUF" "b_busy (bufs s ! j)" "b_dev (bufs s ! j) = b_dev (bufs s ! i)"
    "b_blockno (bufs s ! j) = b_blockno (bufs s ! i)" for j
    using binv_unique [OF inv that(1) i _ c] that binv_busy_valid [OF inv that(1,2)]
    by (auto simp: caches_def)
  have "held ?sA = held s - {(b_dev (bufs s ! i), b_blockno (bufs s ! i))}"
  proof (intro set_eqI iffI)
    fix x :: "nat \<times> nat"
    assume "x \<in> held ?sA"
    then show "x \<in> held s - {(b_dev (bufs s ! i), b_blockno (bufs s ! i))}"
      using only i L by (cases x) (auto simp: held_iff nth_list_update split: if_splits)
  next
    fix x :: "nat \<times> nat"
    assume "x \<in> held s - {(b_dev (bufs s ! i), b_blockno (bufs s ! i))}"
    then obtain j where "j < NBUF" "b_busy (bufs s ! j)" "j \<noteq> i"
      "x = (b_dev (bufs s ! j), b_blockno (bufs s ! j))"
      by (auto simp: held_def)
    then show "x \<in> held ?sA" by (auto simp: held_def intro!: exI [of _ j])
  qed
  moreover have "pinned ?sA = (if b_dirty (bufs s ! i) then pinned s else pinned s - {i})"
    using i L busy by (auto simp: pinned_def nth_list_update split: if_splits)
  moreover have "brelse i s = Inr ((), ?sB\<lparr>procs := ps\<rparr>)"
  proof -
    have e: "s\<lparr>lru := ?l, bufs := (bufs s)[i := ?b]\<rparr> = ?sB" by simp
    have "brelse i s = Inr ((), wakeup (ChBuf i) (s\<lparr>lru := ?l, bufs := (bufs s)[i := ?b]\<rparr>))"
      using busy by (simp add: brelse_def upd_buf_def)
    then show ?thesis unfolding e ps .
  qed
  ultimately show thesis
    using that [of "?sB\<lparr>procs := ps\<rparr>" ps] ps invB blkA by simp
qed

text \<open>A store to a locked buffer that is then marked dirty, as the log does.\<close>

lemma mark_dirty_ok:
  assumes inv: "binv s" and i: "i < NBUF" and busy: "b_busy (bufs s ! i)"
    and x: "length x = BSIZE" and d: "d = b_dev (bufs s ! i)" and b: "b = b_blockno (bufs s ! i)"
    and s': "s' = s\<lparr>bufs := (bufs s)[i := (bufs s ! i)\<lparr>b_data := x, b_dirty := True\<rparr>]\<rparr>"
  shows "binv s'" "blk s' = (blk s)(d := (blk s d)(b := x))" "held s' = held s"
    "pinned s' = pinned s"
proof -
  let ?b = "(bufs s ! i)\<lparr>b_data := x, b_dirty := True\<rparr>"
  note L = binvD(1) [OF inv]
  have val: "b_valid (bufs s ! i)" using binv_busy_valid [OF inv i busy] .
  have c: "caches s (b_dev (bufs s ! i)) (b_blockno (bufs s ! i)) i"
    using val by (simp add: caches_def)
  have "bufok s ?b" using binvD(7) [OF inv i] val x by (simp add: bufok_def)
  then show inv': "binv s'" unfolding s'
    using binv_unique [OF inv i _ c] by (intro binv_upd [OF inv i]) auto
  show "blk s' = (blk s)(d := (blk s d)(b := x))"
    using blk_upd [OF inv i, of ?b] inv' val d b unfolding s' by (intro ext) auto
  show "held s' = held s"
  proof (intro set_eqI)
    fix y :: "nat \<times> nat"
    show "y \<in> held s' \<longleftrightarrow> y \<in> held s"
      using i L busy unfolding s'
      by (cases y) (auto simp: held_iff nth_list_update split: if_splits)
  qed
  show "pinned s' = pinned s"
    using i L busy unfolding s' by (auto simp: pinned_def nth_list_update split: if_splits)
qed

lemma ide_dev_media [simp]:
  "ide_dev (s\<lparr>media := m\<rparr>) d = ide_dev s d" "ide_dev (s\<lparr>dtrace := t\<rparr>) d = ide_dev s d"
  "drive d (s\<lparr>media := m\<rparr>) = drive d s" "drive d (s\<lparr>dtrace := t\<rparr>) = drive d s"
  "dsk (s\<lparr>dtrace := t\<rparr>) d b = dsk s d b" "dsk (s\<lparr>media := m\<rparr>) d b = (if ide_dev s d then m (drive d s) b else replicate BSIZE 0)"
  by (simp_all add: ide_dev_def drive_def realdisk_def dsk_def)

lemma caches_media [simp]:
  "caches (s\<lparr>media := m\<rparr>) d b i = caches s d b i" "caches (s\<lparr>dtrace := t\<rparr>) d b i = caches s d b i"
  by (simp_all add: caches_def)

text \<open>\<open>bwrite\<close> of a locked buffer with new data: the sector and the cached copy both change.\<close>

lemma bwrite_ok:
  assumes inv: "binv s" and i: "i < NBUF" and busy: "b_busy (bufs s ! i)"
    and x: "length x = BSIZE" and d: "d = b_dev (bufs s ! i)" and b: "b = b_blockno (bufs s ! i)"
  obtains b' ps s' where "bwrite i (set_data i x s) = Inr ((), s')"
    "s' = s\<lparr>bufs := (bufs s)[i := b'], procs := ps,
       media := (media s)(drive d s := (media s (drive d s))(b := x)),
       dtrace := dtrace s @ [(drive d s, b, x)]\<rparr>"
    "b' = (bufs s ! i)\<lparr>b_data := x, b_dirty := False, b_qnext := None\<rparr>"
    "wakes (procs s) ps" "binv s'" "blk s' = (blk s)(d := (blk s d)(b := x))"
    "held s' = held s" "pinned s' = pinned s"
proof -
  note L = binvD(1) [OF inv]
  have val: "b_valid (bufs s ! i)" using binv_busy_valid [OF inv i busy] .
  have ok: "bufok s (bufs s ! i)" using binvD(7) [OF inv i] .
  have dev: "ide_dev s d" and bF: "b < FSSIZE" using ok val d b by (auto simp: bufok_def)
  let ?b = "(bufs s ! i)\<lparr>b_data := x, b_dirty := False, b_qnext := None\<rparr>"
  let ?m = "(media s)(drive d s := (media s (drive d s))(b := x))"
  let ?t = "dtrace s @ [(drive d s, b, x)]"
  let ?sA = "s\<lparr>bufs := (bufs s)[i := ?b], media := ?m, dtrace := ?t\<rparr>"
  obtain ps where ps: "wakeup (ChBuf i) ?sA = ?sA\<lparr>procs := ps\<rparr>" "wakes (procs s) ps"
    using wakeup_frame [of "ChBuf i" ?sA] by auto
  have c: "caches s d b i" using val d b by (simp add: caches_def)
  have ch: "caches ?sA d' b' j = (if j = i then d' = d \<and> b' = b else caches s d' b' j)"
    if "j < NBUF" for d' b' j
    using that i L val d b by (auto simp: caches_def nth_list_update)
  have ok': "bufok ?sA (bufs ?sA ! j)" if j: "j < NBUF" for j
  proof (cases "j = i")
    case True
    then show ?thesis using ok val x i L d b by (auto simp: bufok_def)
  next
    case False
    have "\<not> (drive (b_dev (bufs s ! j)) s = drive d s \<and> b_blockno (bufs s ! j) = b)"
      if v: "b_valid (bufs s ! j)"
    proof
      assume a: "drive (b_dev (bufs s ! j)) s = drive d s \<and> b_blockno (bufs s ! j) = b"
      have "ide_dev s (b_dev (bufs s ! j))" using binvD(7) [OF inv j] v by (simp add: bufok_def)
      then have "b_dev (bufs s ! j) = d" using binvD(9) [OF inv _ dev] a by blast
      then have "caches s d b j" using v a by (simp add: caches_def)
      then show False using binv_unique [OF inv j i _ c] False by simp
    qed
    then show ?thesis using False binvD(7) [OF inv j] by (auto simp: bufok_def dsk_def)
  qed
  have inv': "binv ?sA"
    unfolding binv_def
  proof (intro conjI allI impI)
    fix j k d' b'
    assume jk: "j < NBUF" "k < NBUF" and a: "caches ?sA d' b' j \<and> caches ?sA d' b' k"
    show "j = k"
    proof (cases "j = i \<or> k = i")
      case True
      then show ?thesis
        using a binv_unique [OF inv _ i _ c] jk unfolding ch [OF jk(1)] ch [OF jk(2)] by metis
    next
      case False
      then show ?thesis
        using a binv_unique [OF inv jk] unfolding ch [OF jk(1)] ch [OF jk(2)] by auto
    qed
  next
    fix j assume "j < NBUF" then show "bufok ?sA (bufs ?sA ! j)" by (rule ok')
  qed (use binvD(1-6,8,9) [OF inv] x in auto)
  have "blk ?sA = (blk s)(d := (blk s d)(b := x))"
  proof (intro ext)
    fix d' b'
    show "blk ?sA d' b' = ((blk s)(d := (blk s d)(b := x))) d' b'"
    proof (cases "d' = d \<and> b' = b")
      case True
      then show ?thesis using blk_cached [OF inv' i, of d b] i L ch by simp
    next
      case False
      show ?thesis
      proof (cases "\<exists>j < NBUF. caches s d' b' j")
        case True
        then obtain j where j: "j < NBUF" "caches s d' b' j" by blast
        then have "j \<noteq> i" using False d b by (auto simp: caches_def)
        then show ?thesis
          using blk_cached [OF inv' j(1), of d' b'] blk_cached [OF inv j] j ch False by auto
      next
        case F2: False
        then have "blk ?sA d' b' = dsk ?sA d' b'" using False ch by (intro blk_uncached) auto
        moreover have "dsk ?sA d' b' = dsk s d' b'"
          using binvD(9) [OF inv _ dev, of d'] False by (auto simp: dsk_def)
        ultimately show ?thesis using F2 False by (auto simp: blk_uncached)
      qed
    qed
  qed
  moreover have "held ?sA = held s"
  proof (intro set_eqI)
    fix y :: "nat \<times> nat"
    show "y \<in> held ?sA \<longleftrightarrow> y \<in> held s"
      using i L busy by (cases y) (auto simp: held_iff nth_list_update split: if_splits)
  qed
  moreover have "pinned ?sA = pinned s"
    using i L busy by (auto simp: pinned_def nth_list_update split: if_splits)
  moreover have "bwrite i (set_data i x s) = Inr ((), wakeup (ChBuf i) ?sA)"
  proof -
    let ?bB = "(bufs s ! i)\<lparr>b_data := x, b_dirty := True\<rparr>"
    let ?sB = "s\<lparr>bufs := (bufs s)[i := ?bB]\<rparr>"
    have "?bB\<lparr>b_qnext := None, b_valid := True, b_dirty := False\<rparr> = ?b"
      using val by (auto intro!: buf.equality)
    then have "iderw i ?sB = Inr ((), wakeup (ChBuf i) ?sA)"
      using iderw_write [of ?sB i ?bB "drive d s"] i L busy bF d b binvD(5) [OF inv] by simp
    then show ?thesis
      using busy dev i L d by (simp add: bwrite_def set_data_def upd_buf_def diskrw_def ide_dev_def Let_def)
  qed
  ultimately show thesis
    using that [of "?sA\<lparr>procs := ps\<rparr>" ps ?b] ps inv' by simp
qed

section \<open>The cache as its clients see it\<close>

text \<open>The blocks that are modified and not yet written to the disk.\<close>

definition dirtyb :: "'a dst_scheme \<Rightarrow> (nat \<times> nat) set" where
  "dirtyb s = {(b_dev (bufs s ! i), b_blockno (bufs s ! i)) | i. i < NBUF \<and> b_dirty (bufs s ! i)}"

lemma dirtyb_iff:
  "(d, b) \<in> dirtyb s \<longleftrightarrow>
     (\<exists>i < NBUF. b_dirty (bufs s ! i) \<and> b_dev (bufs s ! i) = d \<and> b_blockno (bufs s ! i) = b)"
  by (auto simp: dirtyb_def)

lemma dirtyb_cong:
  assumes "\<And>j. j < NBUF \<Longrightarrow> b_dirty (bufs s' ! j) = b_dirty (bufs s ! j)
     \<and> (b_dirty (bufs s ! j) \<longrightarrow> b_dev (bufs s' ! j) = b_dev (bufs s ! j)
          \<and> b_blockno (bufs s' ! j) = b_blockno (bufs s ! j))"
  shows "dirtyb s' = dirtyb s"
proof (intro set_eqI)
  fix x :: "nat \<times> nat"
  show "x \<in> dirtyb s' \<longleftrightarrow> x \<in> dirtyb s"
    by (cases x) (use assms in \<open>simp add: dirtyb_iff, metis\<close>)
qed

lemma dirtyb_cached: "binv s \<Longrightarrow> (d, b) \<in> dirtyb s \<Longrightarrow> \<exists>j < NBUF. caches s d b j"
  using binv_dirty_valid by (auto simp: dirtyb_iff caches_def)

lemma finite_held_dirtyb [simp]: "finite (held s)" "finite (dirtyb s)"
  by (auto simp: held_def dirtyb_def)

lemma card_pinned:
  assumes "binv s"
  shows "card (pinned s) = card (held s \<union> dirtyb s)"
proof -
  let ?k = "\<lambda>i. (b_dev (bufs s ! i), b_blockno (bufs s ! i))"
  have "b_valid (bufs s ! i)" if "i \<in> pinned s" for i
    using that binv_busy_valid [OF assms] binv_dirty_valid [OF assms] by (auto simp: pinned_def)
  then have "inj_on ?k (pinned s)"
    by (intro inj_onI binv_unique [OF assms]) (auto simp: pinned_def caches_def)
  moreover have "?k ` pinned s = held s \<union> dirtyb s"
    by (auto simp: pinned_def held_def dirtyb_def)
  ultimately show ?thesis using card_image [of ?k "pinned s"] by simp
qed

text \<open>
  The frame of the block layer: buffers, their order, the drives and the logs change, sleepers
  may be woken, everything else is as before.
\<close>

definition bframe :: "'a dst_scheme \<Rightarrow> 'a dst_scheme \<Rightarrow> bool" where
  "bframe s s' \<longleftrightarrow> (\<exists>bs l ps m t ds.
     s' = s\<lparr>procs := ps, disks := ds, bufs := bs, lru := l, media := m, dtrace := t\<rparr>
     \<and> wakes (procs s) ps \<and> list_all2 (\<lambda>k k'. \<exists>g. k' = k\<lparr>dk_log := g\<rparr>) (disks s) ds)"

lemma bframe_refl [simp]: "bframe s s"
proof -
  have "list_all2 (\<lambda>k k'. \<exists>g. k' = k\<lparr>dk_log := g\<rparr>) (disks s) (disks s)"
    by (rule list.rel_refl) (metis disk.surjective disk.update_convs(9))
  then show ?thesis
    unfolding bframe_def by (intro exI [of _ "bufs s"] exI [of _ "lru s"] exI [of _ "procs s"]
      exI [of _ "media s"] exI [of _ "dtrace s"] exI [of _ "disks s"]) simp
qed

lemma bframe_trans [trans]:
  assumes "bframe s s'" "bframe s' s''"
  shows "bframe s s''"
proof -
  obtain bs l ps m t ds where 1: "s' = s\<lparr>procs := ps, disks := ds, bufs := bs, lru := l, media := m, dtrace := t\<rparr>"
    "wakes (procs s) ps" "list_all2 (\<lambda>k k'. \<exists>g. k' = k\<lparr>dk_log := g\<rparr>) (disks s) ds"
    using assms(1) unfolding bframe_def by blast
  obtain bs' l' ps' m' t' ds' where 2: "s'' = s'\<lparr>procs := ps', disks := ds', bufs := bs', lru := l', media := m', dtrace := t'\<rparr>"
    "wakes (procs s') ps'" "list_all2 (\<lambda>k k'. \<exists>g. k' = k\<lparr>dk_log := g\<rparr>) (disks s') ds'"
    using assms(2) unfolding bframe_def by blast
  have "list_all2 (\<lambda>k k'. \<exists>g. k' = k\<lparr>dk_log := g\<rparr>) (disks s) ds'"
    by (rule list_all2_trans [OF _ 1(3), of _ _ ds']) (use 1(1) 2(3) in auto)
  moreover have "wakes (procs s) ps'" using 1 2(2) by (auto intro: wakes_trans)
  ultimately show ?thesis unfolding bframe_def 2(1) 1(1) by force
qed

lemma bframe_cache:
  assumes "s' = s\<lparr>procs := ps, bufs := bs, lru := l, media := m, dtrace := t\<rparr>" "wakes (procs s) ps"
  shows "bframe s s'"
proof -
  have "list_all2 (\<lambda>k k'. \<exists>g. k' = k\<lparr>dk_log := g\<rparr>) (disks s) (disks s)"
    by (rule list.rel_refl) (metis disk.surjective disk.update_convs(9))
  then show ?thesis
    using assms unfolding bframe_def by (intro exI [of _ bs] exI [of _ l] exI [of _ ps]
      exI [of _ m] exI [of _ t] exI [of _ "disks s"]) simp
qed

lemma bframe_disk:
  assumes "bframe s s'"
  shows "length (disks s') = length (disks s)"
    "d < length (disks s) \<Longrightarrow> \<exists>g. disks s' ! d = (disks s ! d)\<lparr>dk_log := g\<rparr>"
  using assms by (auto simp: bframe_def dest: list_all2_lengthD list_all2_nthD)

lemma bframe_fields:
  assumes "bframe s s'"
  shows "curproc s' = curproc s" "initproc s' = initproc s" "nextpid s' = nextpid s"
    "first s' = first s" "singleuser s' = singleuser s" "idequeue s' = idequeue s"
    "ide_errs s' = ide_errs s" "dst.more s' = dst.more s" "wakes (procs s) (procs s')"
    "ticks s' = ticks s" "halted s' = halted s" "booted s' = booted s" "msgnote s' = msgnote s"
    "allowthreads s' = allowthreads s" "useclone s' = useclone s"
  using assms by (auto simp: bframe_def)

lemma bframe_getsuperblock:
  assumes "bframe s s'" "d < length (disks s)"
  shows "getsuperblock d s' = getsuperblock d s" "diskmounted d s' = diskmounted d s"
    "dk_diskrw (disks s' ! d) = dk_diskrw (disks s ! d)" "realdisk d s' = realdisk d s"
    "drive d s' = drive d s"
  using bframe_disk(2) [OF assms]
  by (auto simp: getsuperblock_def diskmounted_def realdisk_def drive_def)

lemma bframe_ide_dev:
  assumes "bframe s s'" "length (disks s) = DISKMAX"
  shows "ide_dev s' d = ide_dev s d"
  using bframe_getsuperblock(3) [OF assms(1)] assms(2) by (auto simp: ide_dev_def)

lemma bframe_incall: "bframe s s' \<Longrightarrow> incall s \<Longrightarrow> incall s'"
  using bframe_fields(1,9) [of s s']
  by (auto simp: incall_def wakes_nth_awake wakes_length split: option.splits)

lemma bframe_cur: "bframe s s' \<Longrightarrow> incall s \<Longrightarrow> cur s' = cur s"
  using bframe_fields(1,9) [of s s']
  by (auto simp: incall_def cur_def wakes_nth_awake wakes_length split: option.splits)

text \<open>The state a client of the cache relies on, and how the four operations change it. \<open>owns s i d b\<close>:
  buffer \<open>i\<close> is locked and holds block \<open>b\<close> of disk \<open>d\<close>.\<close>

definition owns :: "'a dst_scheme \<Rightarrow> nat \<Rightarrow> nat \<Rightarrow> nat \<Rightarrow> bool" where
  "owns s i d b \<longleftrightarrow> i < NBUF \<and> b_busy (bufs s ! i) \<and> b_dev (bufs s ! i) = d \<and> b_blockno (bufs s ! i) = b"

definition bdata :: "'a dst_scheme \<Rightarrow> nat \<Rightarrow> bytes" where
  "bdata s i = b_data (bufs s ! i)"

lemma owns_held: "owns s i d b \<Longrightarrow> (d, b) \<in> held s"
  by (auto simp: owns_def held_iff)

lemma owns_bdata: "binv s \<Longrightarrow> owns s i d b \<Longrightarrow> bdata s i = blk s d b"
  using blk_cached [of s i d b] binv_busy_valid [of s i]
  by (auto simp: owns_def bdata_def caches_def)

lemma dsk_media:
  assumes "media s' = media s" "disks s' = disks s"
  shows "dsk s' = dsk s"
  using assms by (auto simp: fun_eq_iff dsk_def drive_def realdisk_def ide_dev_def)

text \<open>What \<^verbatim>\<open>bread\<close>, \<^verbatim>\<open>brelse\<close> and \<^verbatim>\<open>bwrite\<close> guarantee to the caller of a consistent cache.\<close>

definition bread_post :: "'a dst_scheme \<Rightarrow> nat \<Rightarrow> nat \<Rightarrow> nat \<Rightarrow> 'a dst_scheme \<Rightarrow> bool" where
  "bread_post s d b i s' \<longleftrightarrow> binv s' \<and> bframe s s' \<and> disks s' = disks s
    \<and> media s' = media s \<and> dtrace s' = dtrace s \<and> blk s' = blk s \<and> owns s' i d b
    \<and> held s' = insert (d, b) (held s) \<and> dirtyb s' = dirtyb s
    \<and> (\<forall>j e c. owns s j e c \<longrightarrow> owns s' j e c)"

definition brelse_post :: "'a dst_scheme \<Rightarrow> nat \<Rightarrow> nat \<Rightarrow> 'a dst_scheme \<Rightarrow> bool" where
  "brelse_post s d b s' \<longleftrightarrow> binv s' \<and> bframe s s' \<and> disks s' = disks s
    \<and> media s' = media s \<and> dtrace s' = dtrace s \<and> blk s' = blk s
    \<and> held s' = held s - {(d, b)} \<and> dirtyb s' = dirtyb s
    \<and> (\<forall>j e c. owns s j e c \<longrightarrow> (e, c) \<noteq> (d, b) \<longrightarrow> owns s' j e c)"

definition bwrite_post :: "'a dst_scheme \<Rightarrow> nat \<Rightarrow> nat \<Rightarrow> bytes \<Rightarrow> 'a dst_scheme \<Rightarrow> bool" where
  "bwrite_post s d b x s' \<longleftrightarrow> binv s' \<and> bframe s s' \<and> disks s' = disks s
    \<and> media s' = (media s)(drive d s := (media s (drive d s))(b := x))
    \<and> dtrace s' = dtrace s @ [(drive d s, b, x)] \<and> blk s' = (blk s)(d := (blk s d)(b := x))
    \<and> held s' = held s \<and> dirtyb s' = dirtyb s - {(d, b)}
    \<and> (\<forall>j e c. owns s j e c \<longrightarrow> owns s' j e c)"

lemma bread_postD:
  assumes "bread_post s d b i s'"
  shows "binv s'" "bframe s s'" "disks s' = disks s" "media s' = media s" "dtrace s' = dtrace s"
    "blk s' = blk s" "owns s' i d b" "held s' = insert (d, b) (held s)" "dirtyb s' = dirtyb s"
    "\<And>j e c. owns s j e c \<Longrightarrow> owns s' j e c"
  using assms unfolding bread_post_def by blast+

lemma brelse_postD:
  assumes "brelse_post s d b s'"
  shows "binv s'" "bframe s s'" "disks s' = disks s" "media s' = media s" "dtrace s' = dtrace s"
    "blk s' = blk s" "held s' = held s - {(d, b)}" "dirtyb s' = dirtyb s"
    "\<And>j e c. owns s j e c \<Longrightarrow> (e, c) \<noteq> (d, b) \<Longrightarrow> owns s' j e c"
  using assms unfolding brelse_post_def by blast+

lemma bwrite_postD:
  assumes "bwrite_post s d b x s'"
  shows "binv s'" "bframe s s'" "disks s' = disks s"
    "media s' = (media s)(drive d s := (media s (drive d s))(b := x))"
    "dtrace s' = dtrace s @ [(drive d s, b, x)]" "blk s' = (blk s)(d := (blk s d)(b := x))"
    "held s' = held s" "dirtyb s' = dirtyb s - {(d, b)}"
    "\<And>j e c. owns s j e c \<Longrightarrow> owns s' j e c"
  using assms unfolding bwrite_post_def by blast+

lemma bread_spec:
  assumes inv: "binv s" and dev: "ide_dev s d" and b: "b < FSSIZE"
    and nh: "(d, b) \<notin> held s"
    and room: "(d, b) \<in> dirtyb s \<or> card (held s \<union> dirtyb s) < NBUF"
  shows "\<exists>i s'. bread d b s = Inr (i, s') \<and> bread_post s d b i s'"
proof -
  have "(\<exists>j < NBUF. caches s d b j) \<or> card (pinned s) < NBUF"
    using room dirtyb_cached [OF inv] by (auto simp: card_pinned [OF inv])
  from bread_ok [OF inv dev b nh this] obtain i b' ps s' where
    r: "bread d b s = Inr (i, s')" and s': "s' = s\<lparr>bufs := (bufs s)[i := b'], procs := ps\<rparr>"
    and ps: "wakes (procs s) ps" and i: "i < NBUF"
    and nb: "\<not> b_busy (bufs s ! i)" and b': "b_busy b'" "b_valid b'" "b_dev b' = d" "b_blockno b' = b"
    "b_data b' = blk s d b" and dirty: "b_dirty b' = b_dirty (bufs s ! i)"
    "b_dirty b' \<longrightarrow> b_dev (bufs s ! i) = d \<and> b_blockno (bufs s ! i) = b"
    and rest: "binv s'" "blk s' = blk s" "held s' = insert (d, b) (held s)" by metis
  note L = binvD(1) [OF inv]
  have f: "bframe s s'"
    by (rule bframe_cache [where ps = ps and bs = "(bufs s)[i := b']" and l = "lru s"
          and m = "media s" and t = "dtrace s"])
      (use s' ps in simp_all)
  have "dirtyb s' = dirtyb s"
    using i L dirty b' unfolding s' by (intro dirtyb_cong) (auto simp: nth_list_update)
  moreover have "owns s' j e c" if "owns s j e c" for j e c
    using that nb i L unfolding s' by (auto simp: owns_def nth_list_update)
  moreover have "owns s' i d b" using i L b' unfolding s' by (simp add: owns_def)
  moreover have "disks s' = disks s" "media s' = media s" "dtrace s' = dtrace s"
    unfolding s' by simp_all
  ultimately show ?thesis using r rest f unfolding bread_post_def by blast
qed

lemma brelse_spec:
  assumes inv: "binv s" and o: "owns s i d b"
  shows "\<exists>s'. brelse i s = Inr ((), s') \<and> brelse_post s d b s'"
proof -
  from o have i: "i < NBUF" and busy: "b_busy (bufs s ! i)" by (auto simp: owns_def)
  from brelse_ok [OF inv i busy] obtain ps s' where r: "brelse i s = Inr ((), s')" and
    s': "s' = s\<lparr>bufs := (bufs s)[i := (bufs s ! i)\<lparr>b_busy := False\<rparr>], lru := i # remove1 i (lru s),
         procs := ps\<rparr>" and ps: "wakes (procs s) ps"
    and rest: "binv s'" "blk s' = blk s"
      "held s' = held s - {(b_dev (bufs s ! i), b_blockno (bufs s ! i))}" by metis
  note L = binvD(1) [OF inv]
  have f: "bframe s s'"
    by (rule bframe_cache [where ps = ps and bs = "(bufs s)[i := (bufs s ! i)\<lparr>b_busy := False\<rparr>]"
          and l = "i # remove1 i (lru s)" and m = "media s" and t = "dtrace s"]) (use s' ps in simp_all)
  have "dirtyb s' = dirtyb s"
    using i L unfolding s' by (intro dirtyb_cong) (auto simp: nth_list_update)
  moreover have "owns s' j e c" if "owns s j e c" "(e, c) \<noteq> (d, b)" for j e c
    using that i L o unfolding s' by (auto simp: owns_def nth_list_update)
  moreover have "disks s' = disks s" "media s' = media s" "dtrace s' = dtrace s"
    unfolding s' by simp_all
  moreover have "held s' = held s - {(d, b)}" using rest(3) o by (simp add: owns_def)
  ultimately show ?thesis using r rest(1,2) f unfolding brelse_post_def by blast
qed

lemma bwrite_spec:
  assumes inv: "binv s" and o: "owns s i d b" and x: "length x = BSIZE"
  shows "\<exists>s'. bwrite i (set_data i x s) = Inr ((), s') \<and> bwrite_post s d b x s'"
proof -
  from o have i: "i < NBUF" and busy: "b_busy (bufs s ! i)"
    and db: "d = b_dev (bufs s ! i)" "b = b_blockno (bufs s ! i)" by (auto simp: owns_def)
  let ?m = "(media s)(drive d s := (media s (drive d s))(b := x))"
  let ?t = "dtrace s @ [(drive d s, b, x)]"
  let ?b = "(bufs s ! i)\<lparr>b_data := x, b_dirty := False, b_qnext := None\<rparr>"
  from bwrite_ok [OF inv i busy x db] obtain ps s' where
    r: "bwrite i (set_data i x s) = Inr ((), s')" and
    s': "s' = s\<lparr>bufs := (bufs s)[i := ?b], procs := ps, media := ?m, dtrace := ?t\<rparr>"
    and ps: "wakes (procs s) ps"
    and rest: "binv s'" "blk s' = (blk s)(d := (blk s d)(b := x))" "held s' = held s" by metis
  note L = binvD(1) [OF inv]
  have f: "bframe s s'"
    by (rule bframe_cache [where ps = ps and bs = "(bufs s)[i := ?b]" and l = "lru s"
          and m = ?m and t = ?t]) (use s' ps in simp_all)
  have only: "j = i" if "j < NBUF" "b_dirty (bufs s ! j)" "b_dev (bufs s ! j) = d"
    "b_blockno (bufs s ! j) = b" for j
    using binv_unique [OF inv that(1) i, of d b] that binv_dirty_valid [OF inv that(1,2)]
      binv_busy_valid [OF inv i busy] db by (auto simp: caches_def)
  have "dirtyb s' = dirtyb s - {(d, b)}"
  proof (intro set_eqI iffI)
    fix y :: "nat \<times> nat"
    assume "y \<in> dirtyb s'"
    then show "y \<in> dirtyb s - {(d, b)}"
      using only i L unfolding s' by (cases y) (auto simp: dirtyb_iff nth_list_update split: if_splits)
  next
    fix y :: "nat \<times> nat"
    assume "y \<in> dirtyb s - {(d, b)}"
    then obtain j where "j < NBUF" "b_dirty (bufs s ! j)" "j \<noteq> i"
      "y = (b_dev (bufs s ! j), b_blockno (bufs s ! j))"
      using db by (auto simp: dirtyb_def)
    then show "y \<in> dirtyb s'" unfolding s' by (auto simp: dirtyb_def intro!: exI [of _ j])
  qed
  moreover have "owns s' j e c" if "owns s j e c" for j e c
    using that i L unfolding s' by (auto simp: owns_def nth_list_update)
  moreover have "disks s' = disks s" "media s' = ?m" "dtrace s' = ?t"
    unfolding s' by simp_all
  ultimately show ?thesis using r rest f unfolding bwrite_post_def by blast
qed

text \<open>The store-and-mark step of the log; \<open>ds\<close> are the disks with the log updated.\<close>

lemma mark_dirty_spec:
  assumes inv: "binv s" and o: "owns s i d b" and x: "length x = BSIZE"
    and s': "s' = upd_buf i (\<lambda>k. k\<lparr>b_dirty := True\<rparr>) (set_data i x s)"
  shows "binv s'" "bframe s s'" "disks s' = disks s" "media s' = media s" "dtrace s' = dtrace s"
    "blk s' = (blk s)(d := (blk s d)(b := x))" "held s' = held s"
    "dirtyb s' = insert (d, b) (dirtyb s)" "\<And>j e c. owns s j e c \<Longrightarrow> owns s' j e c"
proof -
  from o have i: "i < NBUF" and busy: "b_busy (bufs s ! i)"
    and db: "d = b_dev (bufs s ! i)" "b = b_blockno (bufs s ! i)" by (auto simp: owns_def)
  note L = binvD(1) [OF inv]
  let ?b = "(bufs s ! i)\<lparr>b_data := x, b_dirty := True\<rparr>"
  have s2: "s' = s\<lparr>bufs := (bufs s)[i := ?b]\<rparr>"
    unfolding s' using i L by (simp add: upd_buf_def set_data_def)
  note m = mark_dirty_ok [OF inv i busy x db s2]
  show "binv s'" "blk s' = (blk s)(d := (blk s d)(b := x))" "held s' = held s"
    using m by auto
  show "bframe s s'"
    by (rule bframe_cache [where ps = "procs s" and bs = "(bufs s)[i := ?b]" and l = "lru s"
          and m = "media s" and t = "dtrace s"]) (use s2 in simp_all)
  show "disks s' = disks s" "media s' = media s" "dtrace s' = dtrace s" unfolding s2 by simp_all
  show "owns s' j e c" if "owns s j e c" for j e c
    using that i L unfolding s2 by (auto simp: owns_def nth_list_update)
  show "dirtyb s' = insert (d, b) (dirtyb s)"
  proof (intro set_eqI)
    fix y :: "nat \<times> nat"
    show "y \<in> dirtyb s' \<longleftrightarrow> y \<in> insert (d, b) (dirtyb s)"
      using i L db unfolding s2
      by (cases y) (auto simp: dirtyb_iff nth_list_update split: if_splits)
  qed
qed

section \<open>Block stores\<close>

text \<open>
  The contract of a component that stores blocks: reads and writes succeed, a read returns the
  last value written, and nothing else changes. The reference is a function from keys to blocks.
\<close>

datatype 'k store_op = Rd 'k | Wr 'k bytes

fun run_store :: "('k \<Rightarrow> 's \<Rightarrow> ('s, bytes) outcome) \<Rightarrow> ('k \<Rightarrow> bytes \<Rightarrow> 's \<Rightarrow> ('s, unit) outcome)
    \<Rightarrow> 'k store_op list \<Rightarrow> 's \<Rightarrow> ('s, bytes list) outcome" where
  "run_store rd wr [] s = Inr ([], s)"
| "run_store rd wr (Rd k # ops) s = bnd (rd k s) (\<lambda>(x, s).
     bnd (run_store rd wr ops s) (\<lambda>(xs, s). Inr (x # xs, s)))"
| "run_store rd wr (Wr k x # ops) s = bnd (wr k x s) (\<lambda>(_, s). run_store rd wr ops s)"

fun ref_store :: "'k store_op list \<Rightarrow> ('k \<Rightarrow> bytes) \<Rightarrow> bytes list \<times> ('k \<Rightarrow> bytes)" where
  "ref_store [] m = ([], m)"
| "ref_store (Rd k # ops) m = (case ref_store ops m of (xs, m') \<Rightarrow> (m k # xs, m'))"
| "ref_store (Wr k x # ops) m = ref_store ops (m(k := x))"

fun store_op_ok :: "('k \<Rightarrow> bool) \<Rightarrow> 'k store_op \<Rightarrow> bool" where
  "store_op_ok ok (Rd k) = ok k"
| "store_op_ok ok (Wr k x) = (ok k \<and> length x = BSIZE)"

locale block_store =
  fixes sinv :: "'s \<Rightarrow> bool"
    and sok :: "'s \<Rightarrow> 'k \<Rightarrow> bool"
    and sview :: "'s \<Rightarrow> 'k \<Rightarrow> bytes"
    and rd :: "'k \<Rightarrow> 's \<Rightarrow> ('s, bytes) outcome"
    and wr :: "'k \<Rightarrow> bytes \<Rightarrow> 's \<Rightarrow> ('s, unit) outcome"
  assumes read_law: "sinv s \<Longrightarrow> sok s k \<Longrightarrow>
      \<exists>s'. rd k s = Inr (sview s k, s') \<and> sinv s' \<and> sview s' = sview s \<and> sok s' = sok s"
    and write_law: "sinv s \<Longrightarrow> sok s k \<Longrightarrow> length x = BSIZE \<Longrightarrow>
      \<exists>s'. wr k x s = Inr ((), s') \<and> sinv s' \<and> sview s' = (sview s)(k := x) \<and> sok s' = sok s"
begin

lemma run_refines:
  assumes "sinv s" "list_all (store_op_ok (sok s)) ops"
  shows "\<exists>s'. run_store rd wr ops s = Inr (fst (ref_store ops (sview s)), s')
    \<and> sinv s' \<and> sview s' = snd (ref_store ops (sview s))"
  using assms
proof (induction ops arbitrary: s)
  case (Cons op ops)
  show ?case
  proof (cases op)
    case (Rd k)
    then obtain s1 where s1: "rd k s = Inr (sview s k, s1)" "sinv s1" "sview s1 = sview s" "sok s1 = sok s"
      using read_law Cons.prems by fastforce
    moreover have "list_all (store_op_ok (sok s1)) ops" using Cons.prems s1 by simp
    ultimately show ?thesis
      using Cons.IH [of s1] Rd by (auto split: prod.splits)
  next
    case (Wr k x)
    then obtain s1 where s1: "wr k x s = Inr ((), s1)" "sinv s1" "sview s1 = (sview s)(k := x)"
      "sok s1 = sok s"
      using write_law Cons.prems by fastforce
    moreover have "list_all (store_op_ok (sok s1)) ops" using Cons.prems s1 by simp
    ultimately show ?thesis using Cons.IH [of s1] Wr by (auto simp del: fun_upd_apply)
  qed
qed simp

end

text \<open>The cache's client idioms: read a block and release it; lock, overwrite, write through, release.\<close>

definition cache_rd :: "nat \<times> nat \<Rightarrow> 'a dst_scheme \<Rightarrow> ('a dst_scheme, bytes) outcome" where
  "cache_rd k s = bnd (bread (fst k) (snd k) s) (\<lambda>(i, s).
     let x = b_data (bufs s ! i) in bnd (brelse i s) (\<lambda>(_, s). Inr (x, s)))"

definition cache_wr :: "nat \<times> nat \<Rightarrow> bytes \<Rightarrow> 'a dst_scheme \<Rightarrow> ('a dst_scheme, unit) outcome" where
  "cache_wr k x s = bnd (bread (fst k) (snd k) s) (\<lambda>(i, s).
     bnd (bwrite i (set_data i x s)) (\<lambda>(_, s). brelse i s))"

definition cache_ok :: "'a dst_scheme \<Rightarrow> nat \<times> nat \<Rightarrow> bool" where
  "cache_ok s k = (ide_dev s (fst k) \<and> snd k < FSSIZE)"

definition cache_idle :: "'a dst_scheme \<Rightarrow> bool" where
  "cache_idle s = (binv s \<and> held s = {} \<and> dirtyb s = {})"

lemma NBUF_pos [simp]: "0 < NBUF"
  by (simp add: NBUF_def)

lemma cache_ok_bframe: "bframe s s' \<Longrightarrow> binv s \<Longrightarrow> cache_ok s' = cache_ok s"
  using bframe_ide_dev [of s s'] binvD(2) [of s] by (auto simp: cache_ok_def fun_eq_iff)

lemma cache_rd_ok:
  assumes "cache_idle s" "cache_ok s k"
  shows "\<exists>s'. cache_rd k s = Inr (case_prod (blk s) k, s') \<and> cache_idle s' \<and> blk s' = blk s
    \<and> cache_ok s' = cache_ok s \<and> media s' = media s \<and> dtrace s' = dtrace s \<and> bframe s s'"
proof -
  from assms have inv: "binv s" and ok: "ide_dev s (fst k)" "snd k < FSSIZE"
    and h: "held s = {}" "dirtyb s = {}"
    by (auto simp: cache_idle_def cache_ok_def)
  from bread_spec [OF inv ok] h obtain i s1 where
    r1: "bread (fst k) (snd k) s = Inr (i, s1)" "bread_post s (fst k) (snd k) i s1" by auto
  note 1 = bread_postD [OF r1(2)]
  from brelse_spec [OF 1(1,7)] obtain s2 where
    r2: "brelse i s1 = Inr ((), s2)" "brelse_post s1 (fst k) (snd k) s2" by blast
  note 2 = brelse_postD [OF r2(2)]
  have "b_data (bufs s1 ! i) = case_prod (blk s) k"
    using owns_bdata [OF 1(1,7)] 1(6) by (simp add: bdata_def case_prod_unfold)
  moreover have f: "bframe s s2" using 1(2) 2(2) by (rule bframe_trans)
  moreover have "cache_idle s2" using 2(1,7,8) 1(8,9) h by (simp add: cache_idle_def)
  ultimately show ?thesis
    using r1(1) r2(1) 1(4-6) 2(4-6) cache_ok_bframe [OF f inv] by (simp add: cache_rd_def)
qed

lemma cache_wr_ok:
  assumes "cache_idle s" "cache_ok s k" "length x = BSIZE"
  shows "\<exists>s'. cache_wr k x s = Inr ((), s') \<and> cache_idle s'
    \<and> blk s' = (blk s)(fst k := (blk s (fst k))(snd k := x)) \<and> cache_ok s' = cache_ok s
    \<and> dtrace s' = dtrace s @ [(drive (fst k) s, snd k, x)] \<and> bframe s s'"
proof -
  from assms have inv: "binv s" and ok: "ide_dev s (fst k)" "snd k < FSSIZE"
    and h: "held s = {}" "dirtyb s = {}"
    by (auto simp: cache_idle_def cache_ok_def)
  from bread_spec [OF inv ok] h obtain i s1 where
    r1: "bread (fst k) (snd k) s = Inr (i, s1)" "bread_post s (fst k) (snd k) i s1" by auto
  note 1 = bread_postD [OF r1(2)]
  from bwrite_spec [OF 1(1,7) assms(3)] obtain s2 where
    r2: "bwrite i (set_data i x s1) = Inr ((), s2)" "bwrite_post s1 (fst k) (snd k) x s2" by blast
  note 2 = bwrite_postD [OF r2(2)]
  from brelse_spec [OF 2(1) 2(9) [OF 1(7)]] obtain s3 where
    r3: "brelse i s2 = Inr ((), s3)" "brelse_post s2 (fst k) (snd k) s3" by blast
  note 3 = brelse_postD [OF r3(2)]
  have f: "bframe s s3" using 1(2) 2(2) 3(2) by (meson bframe_trans)
  moreover have "drive (fst k) s1 = drive (fst k) s" using 1(3) by (simp add: drive_def realdisk_def)
  moreover have "cache_idle s3" using 3(1,7,8) 2(7,8) 1(8,9) h by (simp add: cache_idle_def)
  ultimately show ?thesis
    using r1(1) r2(1) r3(1) 1(5,6) 2(5,6) 3(5,6) cache_ok_bframe [OF f inv]
    by (simp add: cache_wr_def)
qed

interpretation bc: block_store cache_idle cache_ok "\<lambda>s. case_prod (blk s)" cache_rd cache_wr
proof
  fix s :: "'a dst_scheme" and k
  assume "cache_idle s" "cache_ok s k"
  from cache_rd_ok [OF this] show "\<exists>s'. cache_rd k s = Inr (case_prod (blk s) k, s') \<and> cache_idle s'
     \<and> case_prod (blk s') = case_prod (blk s) \<and> cache_ok s' = cache_ok s" by auto
next
  fix s :: "'a dst_scheme" and k and x :: bytes
  assume "cache_idle s" "cache_ok s k" "length x = BSIZE"
  from cache_wr_ok [OF this] show "\<exists>s'. cache_wr k x s = Inr ((), s') \<and> cache_idle s'
     \<and> case_prod (blk s') = (case_prod (blk s))(k := x) \<and> cache_ok s' = cache_ok s"
    by (cases k) (auto simp: fun_eq_iff)
qed

section \<open>Properties\<close>

text \<open>What the cache needs of the machine: no pending request or error, and no drive registered
  as two disks.\<close>

definition hw_ok :: "'a dst_scheme \<Rightarrow> bool" where
  "hw_ok s = (length (disks s) = DISKMAX \<and> idequeue s = None \<and> ide_errs s = []
     \<and> (\<forall>d e. ide_dev s d \<and> ide_dev s e \<and> drive d s = drive e s \<longrightarrow> d = e)
     \<and> (\<forall>d b. length (media s d b) = BSIZE))"

lemma binit_idle:
  assumes "hw_ok s"
  shows "cache_idle (binit s)" "blk (binit s) = dsk s" "cache_ok (binit s) = cache_ok s"
proof -
  have c: "\<not> caches (binit s) d b i" if "i < NBUF" for d b i
    using that by (simp add: caches_def binit_def zero_buf_def)
  have e: "ide_dev (binit s) = ide_dev s" "drive d (binit s) = drive d s" for d
    by (auto simp: binit_def ide_dev_def fun_eq_iff drive_def realdisk_def)
  have z: "bufs (binit s) ! i = zero_buf" if "i < NBUF" for i
    using that by (simp add: binit_def)
  have "bufok (binit s) zero_buf"
    by (simp add: bufok_def zero_buf_def NODEV_def DISKMAX_def)
  then have "binv (binit s)"
    using assms c e z unfolding binv_def hw_ok_def by (simp add: binit_def atLeast0LessThan)
  moreover have "held (binit s) = {}" "dirtyb (binit s) = {}"
    using z by (auto simp: held_def dirtyb_def zero_buf_def)
  ultimately show "cache_idle (binit s)" by (simp add: cache_idle_def)
  show "blk (binit s) = dsk s"
    using c by (intro ext) (subst blk_uncached, auto simp: dsk_def e binit_def drive_def realdisk_def)
  show "cache_ok (binit s) = cache_ok s" by (simp add: cache_ok_def fun_eq_iff e)
qed

lemma idle_blk_dsk:
  assumes "cache_idle s"
  shows "blk s d b = dsk s d b"
proof (cases "\<exists>i < NBUF. caches s d b i")
  case True
  then obtain i where i: "i < NBUF" "caches s d b i" by blast
  have inv: "binv s" and "(d, b) \<notin> dirtyb s" using assms by (auto simp: cache_idle_def)
  then have "\<not> b_dirty (bufs s ! i)" using i by (auto simp: dirtyb_iff caches_def)
  then show ?thesis
    using blk_cached [OF inv i] binvD(7) [OF inv i(1)] i(2) by (simp add: bufok_def caches_def)
qed (simp add: blk_uncached)

text \<open>
  C2. The buffer cache is transparent: started by \<^verbatim>\<open>binit\<close>, every sequence of block reads and
  writes through \<^verbatim>\<open>bread\<close>, \<^verbatim>\<open>bwrite\<close> and \<^verbatim>\<open>brelse\<close> on existing disks runs without panic or sleep, returns
  what an array of sectors with the initial contents would return, and leaves that array's final
  contents on the drives.
\<close>

theorem cache_refines_disk:
  assumes "hw_ok s" "list_all (store_op_ok (cache_ok s)) ops"
  shows "\<exists>s'. run_store cache_rd cache_wr ops (binit s)
      = Inr (fst (ref_store ops (case_prod (dsk s))), s')
    \<and> case_prod (dsk s') = snd (ref_store ops (case_prod (dsk s)))"
proof -
  note i = binit_idle [OF assms(1)]
  obtain s' where "run_store cache_rd cache_wr ops (binit s)
      = Inr (fst (ref_store ops (case_prod (dsk s))), s')" "cache_idle s'"
    "case_prod (blk s') = snd (ref_store ops (case_prod (dsk s)))"
    using bc.run_refines [OF i(1), of ops] assms(2) i(2,3) by auto
  moreover have "dsk s' = blk s'" using idle_blk_dsk [OF \<open>cache_idle s'\<close>] by (intro ext) simp
  ultimately show ?thesis by auto
qed

text \<open>A machine with two IDE drives of zeroed sectors.\<close>

definition zero_sb :: superblock where
  "zero_sb = \<lparr>sb_label = replicate 11 0, sb_version = 0, sb_bootable = 0, sb_system = 0,
     sb_size = 0, sb_nblocks = 0, sb_ninodes = 0, sb_nlog = 0, sb_logstart = 0,
     sb_inodestart = 0, sb_bmapstart = 0, sb_bootinode = 0, sb_kerninode = 0\<rparr>"

definition zero_disk :: disk where
  "zero_disk = \<lparr>dk_inuse = False, dk_mounted = False, dk_initialized = False, dk_type = 0,
     dk_driver_device = 0, dk_diskrw = None, dk_mountroot = None, dk_sb = zero_sb, dk_log = None\<rparr>"

definition dst0 :: dst where
  "dst0 = pst.extend pst0 \<lparr>disks = replicate DISKMAX zero_disk, bufs = [], lru = [],
     idequeue = None, media = (\<lambda>_ _. replicate BSIZE 0), ide_errs = [], dtrace = [], \<dots> = ()\<rparr>"

lemma ideinit_disks_dst0:
  "disks (ideinit_disks True dst0) =
    zero_disk\<lparr>dk_inuse := True, dk_diskrw := Some Iderw\<rparr>
    # zero_disk\<lparr>dk_inuse := True, dk_diskrw := Some Iderw, dk_driver_device := 1\<rparr>
    # replicate 30 zero_disk"
proof -
  have r: "replicate DISKMAX zero_disk = zero_disk # zero_disk # replicate 30 zero_disk"
    by (simp add: DISKMAX_def numeral_eq_Suc)
  show ?thesis
    by (simp add: ideinit_disks_def register_disk_def dst0_def upd_disk_def Let_def r pst.defs dst.defs)
      (simp add: zero_disk_def)
qed

definition boot0 :: dst where
  "boot0 = ideinit_disks True dst0"

lemma boot0_fields:
  "idequeue boot0 = None" "ide_errs boot0 = []" "media boot0 = (\<lambda>_ _. replicate BSIZE 0)"
  "length (disks boot0) = DISKMAX"
  by (simp_all add: boot0_def ideinit_disks_def register_disk_def dst0_def upd_disk_def Let_def
      pst.defs dst.defs DISKMAX_def split: option.split)

lemma boot0_ide_dev: "ide_dev boot0 d \<longleftrightarrow> d = 0 \<or> d = 1"
proof -
  have "dk_diskrw (disks boot0 ! d) = (if d < 2 then Some Iderw else None)" if "d < 32"
    using that unfolding boot0_def ideinit_disks_dst0
    by (auto simp: nth_Cons' zero_disk_def)
  then show ?thesis by (auto simp: ide_dev_def DISKMAX_def split: if_splits)
qed

lemma boot0_drive: "drive 0 boot0 = 0" "drive 1 boot0 = 1"
  unfolding drive_def realdisk_def boot0_def ideinit_disks_dst0 by (simp_all add: zero_disk_def)

lemma hw_ok_boot0: "hw_ok boot0"
  unfolding hw_ok_def using boot0_fields boot0_drive by (auto simp: boot0_ide_dev)

theorem cache_refines_disk_witness:
  "\<exists>s'. run_store cache_rd cache_wr
     [Wr (0, 7) (replicate BSIZE 1), Rd (0, 7), Wr (1, 7) (replicate BSIZE 2), Rd (0, 7), Rd (1, 8)] (binit boot0)
   = Inr ([replicate BSIZE 1, replicate BSIZE 1, replicate BSIZE 0], s')"
  using cache_refines_disk [OF hw_ok_boot0, of "[Wr (0, 7) (replicate BSIZE 1), Rd (0, 7),
      Wr (1, 7) (replicate BSIZE 2), Rd (0, 7), Rd (1, 8)]"]
  by (auto simp: cache_ok_def boot0_ide_dev FSSIZE_def dsk_def boot0_fields)

text \<open>
  C24. A write to a block device file is read back: \<^verbatim>\<open>bdisk_write\<close> of bytes that stay inside one block
  of an existing disk returns the count, and \<^verbatim>\<open>bdisk_read\<close> at the same place then returns them; a
  range that crosses the end of the block is refused with \<open>-1\<close> and an error string.
\<close>

theorem bdisk_roundtrip:
  assumes "cache_idle s" "ide_dev s d" "off div BSIZE < FSSIZE" "0 < length x"
  shows "if off mod BSIZE + length x \<le> BSIZE
    then \<exists>s1 s2. bdisk_write d x (int (length x)) (int off) s = Inr (int (length x), s1)
       \<and> bdisk_read d (int (length x)) (int off) s1 = Inr ((int (length x), x), s2)
    else length x < 2 ^ 31 \<longrightarrow>
      bdisk_write d x (int (length x)) (int off) s = Inr (-1, seterr ''nbytes+boff > BSIZE'' s)
      \<and> bdisk_read d (int (length x)) (int off) s = Inr ((-1, []), seterr ''nbytes+boff > BSIZE'' s)"
proof -
  have o: "off < FSSIZE * 512" using assms(3) by (simp add: BSIZE_def FSSIZE_def)
  have "int off sdiv 512 = int (off div 512)" "int off smod 512 = int (off mod 512)"
    by (cases "off = 0"; simp add: signed_divide_int_def signed_modulo_int_def zdiv_int zmod_int)+
  moreover have "off div 512 < 2 ^ 32" "off mod 512 < 2 ^ 32"
    using o by (simp_all add: FSSIZE_def)
  ultimately have n: "nat (int off sdiv 512 mod 2 ^ 32) = off div BSIZE"
    "nat (int off smod 512 mod 2 ^ 32) = off mod BSIZE"
    by (simp_all add: BSIZE_def nat_mod_distrib)
  let ?b = "off div BSIZE" and ?o = "off mod BSIZE" and ?n = "int (length x)"
  show ?thesis
  proof (cases "?o + length x \<le> BSIZE")
    case True
    then have u: "nat (?n mod 2 ^ 32) = length x" "u32add ?o (length x) = ?o + length x"
      by (simp_all add: BSIZE_def nat_mod_distrib)
    have ok: "cache_ok s (d, ?b)" using assms by (simp add: cache_ok_def)
    let ?y = "patch ?o x (blk s d ?b)"
    have ly: "length ?y = BSIZE"
      using True length_blk [of s d ?b] assms(1) by (simp add: cache_idle_def)
    obtain s1 where 1: "cache_wr (d, ?b) ?y s = Inr ((), s1)" "cache_idle s1"
      "blk s1 = (blk s)(d := (blk s d)(?b := ?y))" "cache_ok s1 = cache_ok s"
      using cache_wr_ok [OF assms(1) ok ly] by auto
    obtain s2 where 2: "cache_rd (d, ?b) s1 = Inr (?y, s2)"
      using cache_rd_ok [OF 1(2), of "(d, ?b)"] ok 1(3,4) by auto
    have "bdisk_write d x ?n (int off) s = Inr (?n, s1)"
    proof -
      obtain i t where t: "bread d ?b s = Inr (i, t)" "owns t i d ?b" "binv t" "blk t = blk s"
        using bread_spec [of s d ?b] assms by (auto simp: cache_idle_def bread_post_def)
      then have "b_data (bufs t ! i) = blk s d ?b" "b_valid (bufs t ! i)"
        using owns_bdata [OF t(3,2)] binv_busy_valid [OF t(3)] by (auto simp: bdata_def owns_def)
      moreover obtain t2 where "bwrite i (set_data i ?y t) = Inr ((), t2)" "brelse i t2 = Inr ((), s1)"
        using 1(1) t(1) by (auto simp: cache_wr_def bnd_eq_Inr)
      ultimately show ?thesis
        unfolding bdisk_write_def Let_def n u using t(1) True by simp
    qed
    moreover have "bdisk_read d ?n (int off) s1 = Inr ((?n, x), s2)"
    proof -
      have "cache_ok s1 (d, ?b)" using ok 1(4) by simp
      then obtain i t where t: "bread d ?b s1 = Inr (i, t)" "owns t i d ?b" "binv t" "blk t = blk s1"
        using bread_spec [of s1 d ?b] 1(2) by (auto simp: cache_idle_def cache_ok_def bread_post_def)
      then have "b_valid (bufs t ! i)"
        using binv_busy_valid [OF t(3)] by (auto simp: owns_def)
      moreover have "b_data (bufs t ! i) = ?y" "brelse i t = Inr ((), s2)"
        using 2 t(1) by (auto simp: cache_rd_def bnd_eq_Inr Let_def)
      moreover have "length (blk s d ?b) = BSIZE" using length_blk assms(1) by (auto simp: cache_idle_def)
      ultimately show ?thesis
        unfolding bdisk_read_def Let_def n u using t(1) True by simp
    qed
    ultimately show ?thesis using True by auto
  next
    case False
    have "BSIZE < u32add ?o (nat (?n mod 2 ^ 32))" if "length x < 2 ^ 31"
    proof -
      have "nat (?n mod 2 ^ 32) = length x" using that by (simp add: nat_mod_distrib)
      moreover have "?o + length x < 2 ^ 32" using that by (simp add: BSIZE_def)
      ultimately show ?thesis using False by simp
    qed
    then show ?thesis using False unfolding bdisk_write_def bdisk_read_def Let_def n by simp
  qed
qed

theorem bdisk_roundtrip_witness:
  "\<exists>s1 s2. bdisk_write 1 [5, 6, 7] 3 1030 (binit boot0) = Inr (3, s1)
     \<and> bdisk_read 1 3 1030 s1 = Inr ((3, [5, 6, 7]), s2)"
proof -
  have "cache_idle (binit boot0)" "ide_dev (binit boot0) 1"
    using binit_idle [OF hw_ok_boot0] boot0_ide_dev [of 1] by (auto simp: binit_def)
  then show ?thesis
    using bdisk_roundtrip [of "binit boot0" 1 1030 "[5, 6, 7]"] by (simp add: BSIZE_def FSSIZE_def)
qed

end
