(* ===== verification/Log.thy ===== *)
theory Log
  imports Bio
begin

text \<open>
  The write-ahead log, \<^verbatim>\<open>log.c\<close>: transactions of the file-system calls, the commit protocol and
  recovery. The lemmas compute the exact sequence of sector writes of a commit and of a recovery;
  the main theorem cuts a commit at any of its writes and shows that recovery leaves the disk with
  either none or all of the transaction's blocks.
\<close>

section \<open>Operations\<close>

definition no_log :: "'s stop" where
  "no_log = Fault ''getlog: no log''"

text \<open>The log header as it lies in its block: \<^verbatim>\<open>int n; int block[LOGSIZE]\<close>.\<close>

definition hdr_n :: "bytes \<Rightarrow> nat" where
  "hdr_n x = unle32 (slice 0 4 x)"

definition hdr_block :: "bytes \<Rightarrow> nat \<Rightarrow> nat" where
  "hdr_block x i = unle32 (slice (4 + 4 * i) 4 x)"

definition hdr_put :: "nat \<Rightarrow> nat list \<Rightarrow> bytes \<Rightarrow> bytes" where
  "hdr_put n bs x = patch 0 (le32 n @ concat (map le32 (take n bs))) x"

fun install_loop :: "log \<Rightarrow> nat list \<Rightarrow> 'a dst_scheme \<Rightarrow> ('a dst_scheme, unit) outcome" where
  "install_loop lg [] s = Inr ((), s)"
| "install_loop lg (tail # ts) s =
    bnd (bread (lg_dev lg) (lg_start lg + tail + 1) s) (\<lambda>(lbuf, s).
    bnd (bread (lg_dev lg) (lg_block lg ! tail) s) (\<lambda>(dbuf, s).
    bnd (bwrite dbuf (set_data dbuf (b_data (bufs s ! lbuf)) s)) (\<lambda>(_, s).
    bnd (brelse lbuf s) (\<lambda>(_, s).
    bnd (brelse dbuf s) (\<lambda>(_, s). install_loop lg ts s)))))"

definition install_trans :: "nat \<Rightarrow> 'a dst_scheme \<Rightarrow> ('a dst_scheme, unit) outcome" where
  "install_trans dev s = (case getlog dev s of None \<Rightarrow> Inl no_log
     | Some lg \<Rightarrow> install_loop lg [0..<lg_n lg] s)"

text \<open>
  \<^verbatim>\<open>read_head\<close>. A negative count makes every loop over the header empty, as a count of zero does; a
  count above \<^verbatim>\<open>LOGSIZE\<close> stores past the in-memory header.
\<close>

definition read_head :: "nat \<Rightarrow> 'a dst_scheme \<Rightarrow> ('a dst_scheme, unit) outcome" where
  "read_head dev s = (case getlog dev s of None \<Rightarrow> Inl no_log
     | Some lg \<Rightarrow>
       bnd (bread (lg_dev lg) (lg_start lg) s) (\<lambda>(b, s).
         let x = b_data (bufs s ! b); n = (if hdr_n x \<ge> 2 ^ 31 then 0 else hdr_n x) in
         if n > LOGSIZE then Inl (Fault ''read_head: header overflow'')
         else brelse b (upd_log dev (\<lambda>lg. lg\<lparr>lg_n := n,
                lg_block := map (hdr_block x) [0..<n] @ drop n (lg_block lg)\<rparr>) s)))"

definition write_head :: "nat \<Rightarrow> 'a dst_scheme \<Rightarrow> ('a dst_scheme, unit) outcome" where
  "write_head dev s = (case getlog dev s of None \<Rightarrow> Inl no_log
     | Some lg \<Rightarrow>
       bnd (bread (lg_dev lg) (lg_start lg) s) (\<lambda>(b, s).
       bnd (bwrite b (set_data b (hdr_put (lg_n lg) (lg_block lg) (b_data (bufs s ! b))) s)) (\<lambda>(_, s).
       brelse b s)))"

definition recover_from_log :: "nat \<Rightarrow> 'a dst_scheme \<Rightarrow> ('a dst_scheme, unit) outcome" where
  "recover_from_log dev s =
    bnd (read_head dev s) (\<lambda>(_, s).
    bnd (install_trans dev s) (\<lambda>(_, s).
    write_head dev (upd_log dev (\<lambda>lg. lg\<lparr>lg_n := 0\<rparr>) s)))"

definition initlog :: "nat \<Rightarrow> 'a dst_scheme \<Rightarrow> ('a dst_scheme, unit) outcome" where
  "initlog dev s = (case (getsuperblock dev s, getlog dev s) of
       (Some sb, Some lg) \<Rightarrow>
         if sb_nlog sb = 0 then Inr ((), s)
         else recover_from_log dev (upd_log dev (\<lambda>lg. lg\<lparr>lg_start := sb_logstart sb,
                lg_size := sb_nlog sb, lg_dev := dev\<rparr>) s)
     | _ \<Rightarrow> Inl no_log)"

text \<open>\<^verbatim>\<open>begin_op\<close>: one turn of its loop; a sleeper tests again when it is woken.\<close>

definition begin_op :: "nat \<Rightarrow> 'a dst_scheme \<Rightarrow> ('a dst_scheme, unit) outcome" where
  "begin_op dev s = (case getlog dev s of None \<Rightarrow> Inl no_log
     | Some lg \<Rightarrow>
       if lg_size lg = 0 then Inr ((), s)
       else if lg_committing lg then sleep (ChLog dev) s
       else if int (lg_n lg) + (lg_outstanding lg + 1) * int MAXOPBLOCKS > int LOGSIZE
         then sleep (ChLog dev) s
       else Inr ((), upd_log dev (\<lambda>lg. lg\<lparr>lg_outstanding := lg_outstanding lg + 1\<rparr>) s))"

fun write_log_loop :: "log \<Rightarrow> nat list \<Rightarrow> 'a dst_scheme \<Rightarrow> ('a dst_scheme, unit) outcome" where
  "write_log_loop lg [] s = Inr ((), s)"
| "write_log_loop lg (tail # ts) s =
    bnd (bread (lg_dev lg) (lg_start lg + tail + 1) s) (\<lambda>(to, s).
    bnd (bread (lg_dev lg) (lg_block lg ! tail) s) (\<lambda>(from, s).
    bnd (bwrite to (set_data to (b_data (bufs s ! from)) s)) (\<lambda>(_, s).
    bnd (brelse from s) (\<lambda>(_, s).
    bnd (brelse to s) (\<lambda>(_, s). write_log_loop lg ts s)))))"

definition write_log :: "nat \<Rightarrow> 'a dst_scheme \<Rightarrow> ('a dst_scheme, unit) outcome" where
  "write_log dev s = (case getlog dev s of None \<Rightarrow> Inl no_log
     | Some lg \<Rightarrow> write_log_loop lg [0..<lg_n lg] s)"

definition commit :: "nat \<Rightarrow> 'a dst_scheme \<Rightarrow> ('a dst_scheme, unit) outcome" where
  "commit dev s = (case getlog dev s of None \<Rightarrow> Inl no_log
     | Some lg \<Rightarrow>
       if lg_n lg > 0 then
         bnd (write_log dev s) (\<lambda>(_, s).
         bnd (write_head dev s) (\<lambda>(_, s).
         bnd (install_trans dev s) (\<lambda>(_, s).
         write_head dev (upd_log dev (\<lambda>lg. lg\<lparr>lg_n := 0\<rparr>) s))))
       else Inr ((), s))"

definition end_op :: "nat \<Rightarrow> 'a dst_scheme \<Rightarrow> ('a dst_scheme, unit) outcome" where
  "end_op dev s = (case getlog dev s of None \<Rightarrow> Inl no_log
     | Some lg \<Rightarrow>
       if lg_size lg = 0 then Inr ((), s)
       else if lg_committing lg then Inl (Panic ''log->committing'')
       else let s1 = upd_log dev (\<lambda>lg. lg\<lparr>lg_outstanding := lg_outstanding lg - 1\<rparr>) s in
         if lg_outstanding lg - 1 = 0
         then bnd (commit dev (upd_log dev (\<lambda>lg. lg\<lparr>lg_committing := True\<rparr>) s1)) (\<lambda>(_, s).
              Inr ((), wakeup (ChLog dev) (upd_log dev (\<lambda>lg. lg\<lparr>lg_committing := False\<rparr>) s)))
         else Inr ((), wakeup (ChLog dev) s1))"

text \<open>The index \<^verbatim>\<open>log_write\<close>'s search ends at: an earlier entry for the block, or \<^verbatim>\<open>lh.n\<close>.\<close>

definition log_slot :: "log \<Rightarrow> nat \<Rightarrow> nat" where
  "log_slot lg b = (case find_index (\<lambda>x. x = b) (take (lg_n lg) (lg_block lg)) of
     Some i \<Rightarrow> i | None \<Rightarrow> lg_n lg)"

definition log_add :: "nat \<Rightarrow> log \<Rightarrow> log" where
  "log_add b lg = (let i = log_slot lg b in
     lg\<lparr>lg_block := (lg_block lg)[i := b], lg_n := (if i = lg_n lg then lg_n lg + 1 else lg_n lg)\<rparr>)"

definition log_write :: "nat \<Rightarrow> 'a dst_scheme \<Rightarrow> ('a dst_scheme, unit) outcome" where
  "log_write i s =
    (let dev = b_dev (bufs s ! i) in
     case getlog dev s of None \<Rightarrow> Inl no_log
     | Some lg \<Rightarrow>
       if lg_size lg = 0 then bwrite i s
       else if lg_n lg \<ge> LOGSIZE \<or> int (lg_n lg) \<ge> int (lg_size lg) - 1
         then Inl (Panic ''too big a transaction'')
       else if lg_outstanding lg < 1 then Inl (Panic ''log_write outside of trans'')
       else Inr ((), upd_buf i (\<lambda>b. b\<lparr>b_dirty := True\<rparr>)
              (upd_log dev (log_add (b_blockno (bufs s ! i))) s)))"

section \<open>Sequences of sector writes\<close>

text \<open>\<open>puts ws m\<close>: the blocks \<open>m\<close> after the writes \<open>ws\<close>, in order.\<close>

definition puts :: "(nat \<times> bytes) list \<Rightarrow> (nat \<Rightarrow> bytes) \<Rightarrow> nat \<Rightarrow> bytes" where
  "puts ws m = fold (\<lambda>(b, x) m. m(b := x)) ws m"

lemma puts_simps [simp]:
  "puts [] m = m" "puts (w # ws) m = puts ws (m(fst w := snd w))"
  "puts (ws @ vs) m = puts vs (puts ws m)"
  by (simp_all add: puts_def case_prod_unfold)

lemma puts_other: "b \<notin> fst ` set ws \<Longrightarrow> puts ws m b = m b"
  by (induction ws arbitrary: m) auto

lemma puts_cong: "m b = m' b \<Longrightarrow> puts ws m b = puts ws m' b"
proof (induction ws arbitrary: m m')
  case (Cons w ws)
  show ?case
    unfolding puts_simps by (rule Cons.IH) (use Cons.prems in simp)
qed simp

lemma puts_same: "(\<And>b x. (b, x) \<in> set ws \<Longrightarrow> m b = x) \<Longrightarrow> puts ws m = m"
proof (induction ws arbitrary: m)
  case (Cons w ws)
  have "m(fst w := snd w) = m" using Cons.prems [of "fst w" "snd w"] by (simp add: fun_upd_idem)
  then show ?case using Cons by simp
qed simp

lemma puts_in:
  assumes "(b, x) \<in> set ws" "\<And>y. (b, y) \<in> set ws \<Longrightarrow> y = x"
  shows "puts ws m b = x"
  using assms
proof (induction ws arbitrary: m)
  case (Cons w ws)
  show ?case
  proof (cases "b \<in> fst ` set ws")
    case True
    then obtain y where "(b, y) \<in> set ws" by force
    then have "(b, x) \<in> set ws" using Cons.prems(2) [of y] by simp
    from Cons.IH [OF this] Cons.prems(2) show ?thesis by simp
  next
    case False
    then have "w = (b, x)" using Cons.prems(1) by force
    then show ?thesis using False by (simp add: puts_other)
  qed
qed simp

text \<open>\<open>wrote d ws s s'\<close>: the call took \<open>s\<close> to \<open>s'\<close>, writing through to disk \<open>d\<close> the blocks \<open>ws\<close>.\<close>

definition wrote :: "nat \<Rightarrow> (nat \<times> bytes) list \<Rightarrow> 'a dst_scheme \<Rightarrow> 'a dst_scheme \<Rightarrow> bool" where
  "wrote d ws s s' \<longleftrightarrow> binv s' \<and> bframe s s' \<and> held s' = held s
     \<and> dirtyb s' = dirtyb s - Pair d ` fst ` set ws
     \<and> blk s' = (blk s)(d := puts ws (blk s d))
     \<and> media s' = (media s)(drive d s := puts ws (media s (drive d s)))
     \<and> dtrace s' = dtrace s @ map (\<lambda>(b, x). (drive d s, b, x)) ws"

lemma wrote_refl: "binv s \<Longrightarrow> wrote d [] s s"
  by (simp add: wrote_def)

lemma wrote_trans:
  assumes "wrote d ws s s'" "wrote d vs s' s''" "d < length (disks s)"
  shows "wrote d (ws @ vs) s s''"
proof -
  have "drive d s' = drive d s" using bframe_getsuperblock(5) [of s s' d] assms(1,3) by (auto simp: wrote_def)
  moreover have "bframe s s''" using assms(1,2) by (auto simp: wrote_def intro: bframe_trans)
  ultimately show ?thesis
    using assms(1,2) unfolding wrote_def by (simp add: image_Un Diff_Un Diff_eq Int_assoc)
qed

lemma copy_to_first:
  assumes inv: "binv s" and dev: "ide_dev s d" and ab: "a < FSSIZE" "b < FSSIZE" "a \<noteq> b"
    and nh: "(d, a) \<notin> held s" "(d, b) \<notin> held s"
    and ra: "card (held s \<union> dirtyb s) < NBUF"
    and rb: "(d, b) \<in> dirtyb s \<or> card (held s \<union> dirtyb s) + 1 < NBUF"
  shows "\<exists>s'. (\<forall>K. bnd (bread d a s) (\<lambda>(to, s). bnd (bread d b s) (\<lambda>(from, s).
      bnd (bwrite to (set_data to (b_data (bufs s ! from)) s)) (\<lambda>(_, s).
      bnd (brelse from s) (\<lambda>(_, s). bnd (brelse to s) (\<lambda>(_, s). K s))))) = K s')
    \<and> wrote d [(a, blk s d b)] s s' \<and> disks s' = disks s"
proof -
  from bread_spec [OF inv dev ab(1) nh(1)] ra obtain i s1 where
    r1: "bread d a s = Inr (i, s1)" "bread_post s d a i s1" by blast
  note 1 = bread_postD [OF r1(2)]
  have dev1: "ide_dev s1 d" using dev 1(3) by (simp add: ide_dev_def)
  have "card (held s1 \<union> dirtyb s1) \<le> card (held s \<union> dirtyb s) + 1"
    unfolding 1(8,9) by (simp add: card_insert_if)
  then have rb1: "(d, b) \<in> dirtyb s1 \<or> card (held s1 \<union> dirtyb s1) < NBUF"
    using rb unfolding 1(9) by linarith
  have nh1: "(d, b) \<notin> held s1" using nh ab 1(8) by simp
  from bread_spec [OF 1(1) dev1 ab(2) nh1 rb1] obtain j s2 where
    r2: "bread d b s1 = Inr (j, s2)" "bread_post s1 d b j s2" by blast
  note 2 = bread_postD [OF r2(2)]
  have x: "b_data (bufs s2 ! j) = blk s d b" "length (blk s d b) = BSIZE"
    using owns_bdata [OF 2(1,7)] 2(6) 1(6) length_blk [OF inv] by (simp_all add: bdata_def)
  from bwrite_spec [OF 2(1) 2(10) [OF 1(7)] x(2)] obtain s3 where
    r3: "bwrite i (set_data i (blk s d b) s2) = Inr ((), s3)" "bwrite_post s2 d a (blk s d b) s3"
    by blast
  note 3 = bwrite_postD [OF r3(2)]
  from brelse_spec [OF 3(1) 3(9) [OF 2(7)]] obtain s4 where
    r4: "brelse j s3 = Inr ((), s4)" "brelse_post s3 d b s4" by blast
  note 4 = brelse_postD [OF r4(2)]
  have "owns s4 i d a" using 4(9) [OF 3(9) [OF 2(10) [OF 1(7)]]] ab(3) by simp
  from brelse_spec [OF 4(1) this] obtain s5 where
    r5: "brelse i s4 = Inr ((), s5)" "brelse_post s4 d a s5" by blast
  note 5 = brelse_postD [OF r5(2)]
  have dr: "drive d s2 = drive d s" using 1(3) 2(3) by (simp add: drive_def realdisk_def)
  have f: "bframe s s5" using 1(2) 2(2) 3(2) 4(2) 5(2) by (meson bframe_trans)
  have "held s5 = held s" unfolding 5(7) 4(7) 3(7) 2(8) 1(8) using nh by blast
  then have "wrote d [(a, blk s d b)] s s5"
    unfolding wrote_def 5(4,5,6,8) 4(4,5,6,8) 3(4,5,6,8) 2(4,5,6,9) 1(4,5,6,9) dr
    using f 5(1) by simp
  then show ?thesis
    using r1(1) r2(1) r3(1) r4(1) r5(1) x(1) 1(3) 2(3) 3(3) 4(3) 5(3) by (intro exI [of _ s5]) simp
qed

lemma copy_to_second:
  assumes inv: "binv s" and dev: "ide_dev s d" and ab: "a < FSSIZE" "b < FSSIZE" "a \<noteq> b"
    and nh: "(d, a) \<notin> held s" "(d, b) \<notin> held s"
    and ra: "card (held s \<union> dirtyb s) < NBUF"
    and rb: "(d, b) \<in> dirtyb s \<or> card (held s \<union> dirtyb s) + 1 < NBUF"
  shows "\<exists>s'. (\<forall>K. bnd (bread d a s) (\<lambda>(lbuf, s). bnd (bread d b s) (\<lambda>(dbuf, s).
      bnd (bwrite dbuf (set_data dbuf (b_data (bufs s ! lbuf)) s)) (\<lambda>(_, s).
      bnd (brelse lbuf s) (\<lambda>(_, s). bnd (brelse dbuf s) (\<lambda>(_, s). K s))))) = K s')
    \<and> wrote d [(b, blk s d a)] s s' \<and> disks s' = disks s"
proof -
  from bread_spec [OF inv dev ab(1) nh(1)] ra obtain i s1 where
    r1: "bread d a s = Inr (i, s1)" "bread_post s d a i s1" by blast
  note 1 = bread_postD [OF r1(2)]
  have dev1: "ide_dev s1 d" using dev 1(3) by (simp add: ide_dev_def)
  have "card (held s1 \<union> dirtyb s1) \<le> card (held s \<union> dirtyb s) + 1"
    unfolding 1(8,9) by (simp add: card_insert_if)
  then have rb1: "(d, b) \<in> dirtyb s1 \<or> card (held s1 \<union> dirtyb s1) < NBUF"
    using rb unfolding 1(9) by linarith
  have nh1: "(d, b) \<notin> held s1" using nh ab 1(8) by simp
  from bread_spec [OF 1(1) dev1 ab(2) nh1 rb1] obtain j s2 where
    r2: "bread d b s1 = Inr (j, s2)" "bread_post s1 d b j s2" by blast
  note 2 = bread_postD [OF r2(2)]
  have x: "b_data (bufs s2 ! i) = blk s d a" "length (blk s d a) = BSIZE"
    using owns_bdata [OF 2(1) 2(10) [OF 1(7)]] 2(6) 1(6) length_blk [OF inv]
    by (simp_all add: bdata_def)
  from bwrite_spec [OF 2(1,7) x(2)] obtain s3 where
    r3: "bwrite j (set_data j (blk s d a) s2) = Inr ((), s3)" "bwrite_post s2 d b (blk s d a) s3"
    by blast
  note 3 = bwrite_postD [OF r3(2)]
  from brelse_spec [OF 3(1) 3(9) [OF 2(10) [OF 1(7)]]] obtain s4 where
    r4: "brelse i s3 = Inr ((), s4)" "brelse_post s3 d a s4" by blast
  note 4 = brelse_postD [OF r4(2)]
  have "owns s4 j d b" using 4(9) [OF 3(9) [OF 2(7)]] ab(3) by simp
  from brelse_spec [OF 4(1) this] obtain s5 where
    r5: "brelse j s4 = Inr ((), s5)" "brelse_post s4 d b s5" by blast
  note 5 = brelse_postD [OF r5(2)]
  have dr: "drive d s2 = drive d s" using 1(3) 2(3) by (simp add: drive_def realdisk_def)
  have f: "bframe s s5" using 1(2) 2(2) 3(2) 4(2) 5(2) by (meson bframe_trans)
  have "held s5 = held s" unfolding 5(7) 4(7) 3(7) 2(8) 1(8) using nh by blast
  then have "wrote d [(b, blk s d a)] s s5"
    unfolding wrote_def 5(4,5,6,8) 4(4,5,6,8) 3(4,5,6,8) 2(4,5,6,9) 1(4,5,6,9) dr
    using f 5(1) by simp
  then show ?thesis
    using r1(1) r2(1) r3(1) r4(1) r5(1) x(1) 1(3) 2(3) 3(3) 4(3) 5(3) by (intro exI [of _ s5]) simp
qed

lemma wroteD:
  assumes "wrote d ws s s'"
  shows "binv s'" "bframe s s'" "held s' = held s" "dirtyb s' = dirtyb s - Pair d ` fst ` set ws"
    "blk s' = (blk s)(d := puts ws (blk s d))"
    "media s' = (media s)(drive d s := puts ws (media s (drive d s)))"
    "dtrace s' = dtrace s @ map (\<lambda>(b, x). (drive d s, b, x)) ws"
  using assms by (simp_all add: wrote_def)

lemma card_dirtyb_mono:
  assumes "wrote d ws s s'"
  shows "card (held s' \<union> dirtyb s') \<le> card (held s \<union> dirtyb s)"
  using wroteD(3,4) [OF assms] by (intro card_mono) auto

text \<open>The log region of disk \<open>d\<close>, and the geometry the log code relies on: the region fits the
  disk and the blocks of the transaction lie outside it.\<close>

definition in_log :: "log \<Rightarrow> nat \<Rightarrow> bool" where
  "in_log lg b \<longleftrightarrow> lg_start lg \<le> b \<and> b < lg_start lg + lg_size lg"

definition log_geom :: "nat \<Rightarrow> log \<Rightarrow> bool" where
  "log_geom d lg \<longleftrightarrow> lg_dev lg = d \<and> 0 < lg_size lg \<and> lg_start lg + lg_size lg \<le> FSSIZE
     \<and> length (lg_block lg) = LOGSIZE \<and> lg_n lg < lg_size lg \<and> lg_n lg \<le> LOGSIZE
     \<and> distinct (take (lg_n lg) (lg_block lg))
     \<and> (\<forall>t < lg_n lg. lg_block lg ! t < FSSIZE \<and> \<not> in_log lg (lg_block lg ! t))"

text \<open>The writes of the two loops over the entries \<open>ts\<close>, on a disk with contents \<open>m\<close>.\<close>

definition log_writes :: "log \<Rightarrow> nat list \<Rightarrow> (nat \<Rightarrow> bytes) \<Rightarrow> (nat \<times> bytes) list" where
  "log_writes lg ts m = map (\<lambda>t. (lg_start lg + t + 1, m (lg_block lg ! t))) ts"

definition home_writes :: "log \<Rightarrow> nat list \<Rightarrow> (nat \<Rightarrow> bytes) \<Rightarrow> (nat \<times> bytes) list" where
  "home_writes lg ts m = map (\<lambda>t. (lg_block lg ! t, m (lg_start lg + t + 1))) ts"

lemma log_geom_entry:
  assumes "log_geom d lg" "t < lg_n lg"
  shows "lg_start lg + t + 1 < FSSIZE" "lg_block lg ! t < FSSIZE"
    "t' < lg_n lg \<Longrightarrow> lg_start lg + t + 1 \<noteq> lg_block lg ! t'"
  using assms by (force simp: log_geom_def in_log_def)+

lemma write_log_loop_ok:
  assumes "binv s" "ide_dev s d" "log_geom d lg" "held s = {}" "card (dirtyb s) < NBUF"
    and "set ts \<subseteq> {..<lg_n lg}" "\<forall>t < lg_n lg. (d, lg_block lg ! t) \<in> dirtyb s"
    and "\<forall>t < lg_n lg. (d, lg_start lg + t + 1) \<notin> dirtyb s"
  shows "\<exists>s'. write_log_loop lg ts s = Inr ((), s') \<and> wrote d (log_writes lg ts (blk s d)) s s'
    \<and> disks s' = disks s"
  using assms
proof (induction ts arbitrary: s)
  case Nil
  then show ?case by (simp add: wrote_refl log_writes_def)
next
  case (Cons t ts)
  have t: "t < lg_n lg" using Cons.prems by simp
  note e = log_geom_entry [OF Cons.prems(3) t]
  obtain s1 where s1: "write_log_loop lg (t # ts) s = write_log_loop lg ts s1"
    "wrote d [(lg_start lg + t + 1, blk s d (lg_block lg ! t))] s s1" "disks s1 = disks s"
    using copy_to_first [OF Cons.prems(1,2) e(1,2) e(3)] t Cons.prems(3-5,7)
    by (auto simp: log_geom_def)
  note w = wroteD [OF s1(2)]
  have d1: "dirtyb s1 = dirtyb s" using w(4) Cons.prems(8) t by auto
  have "blk s1 d (lg_block lg ! t') = blk s d (lg_block lg ! t')" if "t' < lg_n lg" for t'
    using log_geom_entry(3) [OF Cons.prems(3) t that] w(5) by simp
  then have lw: "log_writes lg ts (blk s1 d) = log_writes lg ts (blk s d)"
    using Cons.prems(6) by (auto simp: log_writes_def)
  obtain s' where s': "write_log_loop lg ts s1 = Inr ((), s')"
    "wrote d (log_writes lg ts (blk s1 d)) s1 s'" "disks s' = disks s1"
    using Cons.IH [of s1] w(1,3) d1 Cons.prems s1(3) by (auto simp: ide_dev_def)
  have "d < length (disks s)"
    using Cons.prems(2) binvD(2) [OF Cons.prems(1)] by (auto simp: ide_dev_def)
  then have "wrote d (log_writes lg (t # ts) (blk s d)) s s'"
    using wrote_trans [OF s1(2) s'(2)] unfolding lw by (simp add: log_writes_def)
  then show ?case using s1 s' by simp
qed

lemma log_geom_distinct:
  assumes "log_geom d lg" "t < lg_n lg" "t' < lg_n lg"
  shows "lg_block lg ! t = lg_block lg ! t' \<longleftrightarrow> t = t'"
proof -
  have "lg_n lg \<le> length (lg_block lg)" using assms(1) by (auto simp: log_geom_def)
  then show ?thesis
    using assms nth_eq_iff_index_eq [of "take (lg_n lg) (lg_block lg)" t t'] by (simp add: log_geom_def)
qed

lemma install_loop_ok:
  assumes "binv s" "ide_dev s d" "log_geom d lg" "held s = {}" "card (dirtyb s) < NBUF"
    and "set ts \<subseteq> {..<lg_n lg}" "distinct ts"
    and "(\<forall>t \<in> set ts. (d, lg_block lg ! t) \<in> dirtyb s) \<or> card (dirtyb s) + 1 < NBUF"
  shows "\<exists>s'. install_loop lg ts s = Inr ((), s') \<and> wrote d (home_writes lg ts (blk s d)) s s'
    \<and> disks s' = disks s"
  using assms
proof (induction ts arbitrary: s)
  case Nil
  then show ?case by (simp add: wrote_refl home_writes_def)
next
  case (Cons t ts)
  have t: "t < lg_n lg" using Cons.prems by simp
  note e = log_geom_entry [OF Cons.prems(3) t]
  obtain s1 where s1: "install_loop lg (t # ts) s = install_loop lg ts s1"
    "wrote d [(lg_block lg ! t, blk s d (lg_start lg + t + 1))] s s1" "disks s1 = disks s"
    using copy_to_second [OF Cons.prems(1,2) e(1,2) e(3)] t Cons.prems(3-5,8)
    by (auto simp: log_geom_def)
  note w = wroteD [OF s1(2)]
  have "blk s1 d (lg_start lg + t' + 1) = blk s d (lg_start lg + t' + 1)" if "t' < lg_n lg" for t'
    using log_geom_entry(3) [OF Cons.prems(3) that t] w(5) by simp
  then have hw: "home_writes lg ts (blk s1 d) = home_writes lg ts (blk s d)"
    using Cons.prems(6) by (auto simp: home_writes_def)
  have le: "card (dirtyb s1) \<le> card (dirtyb s)"
    using card_dirtyb_mono [OF s1(2)] w(3) Cons.prems(4) by simp
  have "(\<forall>t \<in> set ts. (d, lg_block lg ! t) \<in> dirtyb s1) \<or> card (dirtyb s1) + 1 < NBUF"
  proof (cases "card (dirtyb s) + 1 < NBUF")
    case False
    then have "\<forall>u \<in> set ts. (d, lg_block lg ! u) \<in> dirtyb s" using Cons.prems(8) by simp
    moreover have "lg_block lg ! u \<noteq> lg_block lg ! t" if "u \<in> set ts" for u
      using log_geom_distinct [OF Cons.prems(3) _ t, of u] that Cons.prems(6,7) by auto
    ultimately show ?thesis using w(4) by auto
  qed (use le in simp)
  then obtain s' where s': "install_loop lg ts s1 = Inr ((), s')"
    "wrote d (home_writes lg ts (blk s1 d)) s1 s'" "disks s' = disks s1"
    using Cons.IH [of s1] w(1,3) le Cons.prems(2-7) s1(3) by (auto simp: ide_dev_def)
  have "d < length (disks s)"
    using Cons.prems(2) binvD(2) [OF Cons.prems(1)] by (auto simp: ide_dev_def)
  then have "wrote d (home_writes lg (t # ts) (blk s d)) s s'"
    using wrote_trans [OF s1(2) s'(2)] unfolding hw by (simp add: home_writes_def)
  then show ?case using s1 s' by simp
qed

lemma length_concat_le32 [simp]: "length (concat (map le32 bs)) = 4 * length bs"
  by (induction bs) simp_all

lemma length_hdr_put:
  "n \<le> LOGSIZE \<Longrightarrow> length x = BSIZE \<Longrightarrow> length (hdr_put n bs x) = BSIZE"
  unfolding hdr_put_def by (subst length_patch) (auto simp: LOGSIZE_def BSIZE_def min_def)

lemma write_head_ok:
  assumes inv: "binv s" and dev: "ide_dev s d" and lg: "getlog d s = Some lg"
    and g: "lg_dev lg = d" "lg_start lg < FSSIZE" "lg_n lg \<le> LOGSIZE"
    and h: "held s = {}" "card (dirtyb s) < NBUF"
  shows "\<exists>s'. write_head d s = Inr ((), s')
    \<and> wrote d [(lg_start lg, hdr_put (lg_n lg) (lg_block lg) (blk s d (lg_start lg)))] s s'
    \<and> disks s' = disks s"
proof -
  let ?a = "lg_start lg" and ?x = "hdr_put (lg_n lg) (lg_block lg) (blk s d (lg_start lg))"
  from bread_spec [OF inv dev g(2)] h obtain i s1 where
    r1: "bread d ?a s = Inr (i, s1)" "bread_post s d ?a i s1" by auto
  note 1 = bread_postD [OF r1(2)]
  have x: "b_data (bufs s1 ! i) = blk s d ?a" "length ?x = BSIZE"
    using owns_bdata [OF 1(1,7)] 1(6) length_blk [OF inv] g(3)
    by (simp_all add: bdata_def length_hdr_put)
  from bwrite_spec [OF 1(1,7) x(2)] obtain s2 where
    r2: "bwrite i (set_data i ?x s1) = Inr ((), s2)" "bwrite_post s1 d ?a ?x s2" by blast
  note 2 = bwrite_postD [OF r2(2)]
  from brelse_spec [OF 2(1) 2(9) [OF 1(7)]] obtain s3 where
    r3: "brelse i s2 = Inr ((), s3)" "brelse_post s2 d ?a s3" by blast
  note 3 = brelse_postD [OF r3(2)]
  have dr: "drive d s1 = drive d s" using 1(3) by (simp add: drive_def realdisk_def)
  have f: "bframe s s3" using 1(2) 2(2) 3(2) by (meson bframe_trans)
  have "held s3 = held s" unfolding 3(7) 2(7) 1(8) using h by blast
  then have "wrote d [(?a, ?x)] s s3"
    unfolding wrote_def 3(4,5,6,8) 2(4,5,6,8) 1(4,5,6,9) dr using f 3(1) by simp
  moreover have "write_head d s = Inr ((), s3)"
    using r1(1) r2(1) r3(1) x(1) lg g(1) by (simp add: write_head_def)
  ultimately show ?thesis using 1(3) 2(3) 3(3) by simp
qed

text \<open>Changing the log through its pointer touches neither the cache nor the disks' contents.\<close>

lemma upd_log_cache:
  assumes "d < length (disks s)"
  shows "bframe s (upd_log d f s)" "binv (upd_log d f s) = binv s" "blk (upd_log d f s) = blk s"
    "held (upd_log d f s) = held s" "dirtyb (upd_log d f s) = dirtyb s"
    "media (upd_log d f s) = media s" "dtrace (upd_log d f s) = dtrace s"
    "owns (upd_log d f s) = owns s" "ide_dev (upd_log d f s) = ide_dev s"
    "drive e (upd_log d f s) = drive e s" "dsk (upd_log d f s) = dsk s"
    "bufs (upd_log d f s) = bufs s"
proof -
  let ?k = "(disks s ! d)\<lparr>dk_log := map_option f (dk_log (disks s ! d))\<rparr>"
  let ?ds = "(disks s)[d := ?k]"
  have u: "upd_log d f s = s\<lparr>disks := ?ds\<rparr>" by (simp add: upd_log_def upd_disk_def)
  have la: "list_all2 (\<lambda>k k'. \<exists>g. k' = k\<lparr>dk_log := g\<rparr>) (disks s) ?ds"
    unfolding list_all2_conv_all_nth
  proof (intro conjI allI impI)
    fix i assume "i < length (disks s)"
    then show "\<exists>g. ?ds ! i = (disks s ! i)\<lparr>dk_log := g\<rparr>"
      by (cases "i = d") (auto intro: exI [of _ "dk_log (disks s ! i)"])
  qed simp
  show "bframe s (upd_log d f s)" unfolding u bframe_def
    by (intro exI [of _ "bufs s"] exI [of _ "lru s"] exI [of _ "procs s"] exI [of _ "media s"]
        exI [of _ "dtrace s"] exI [of _ ?ds]) (use la in simp)
  have e: "ide_dev (s\<lparr>disks := ?ds\<rparr>) = ide_dev s" "drive x (s\<lparr>disks := ?ds\<rparr>) = drive x s" for x
    using assms by (auto simp: ide_dev_def fun_eq_iff drive_def realdisk_def nth_list_update)
  have k: "dsk (s\<lparr>disks := ?ds\<rparr>) = dsk s" by (simp add: dsk_def fun_eq_iff e)
  have c: "caches (s\<lparr>disks := ?ds\<rparr>) = caches s" by (simp add: caches_def fun_eq_iff)
  have b: "bufok (s\<lparr>disks := ?ds\<rparr>) = bufok s" by (simp add: bufok_def fun_eq_iff e k)
  show "binv (upd_log d f s) = binv s" unfolding u binv_def e c b by simp
  show "blk (upd_log d f s) = blk s"
    unfolding u by (intro ext) (simp add: blk_def c k split: option.split)
  show "held (upd_log d f s) = held s" "dirtyb (upd_log d f s) = dirtyb s"
    "media (upd_log d f s) = media s" "dtrace (upd_log d f s) = dtrace s"
    "owns (upd_log d f s) = owns s" "bufs (upd_log d f s) = bufs s"
    unfolding u by (simp_all add: held_def dirtyb_def owns_def fun_eq_iff)
  show "ide_dev (upd_log d f s) = ide_dev s" "drive e (upd_log d f s) = drive e s"
    "dsk (upd_log d f s) = dsk s" unfolding u by (simp_all add: e k)
qed

lemma getlog_upd_log [simp]:
  "d < length (disks s) \<Longrightarrow> getlog d (upd_log d f s) = map_option f (getlog d s)"
  by (simp add: getlog_def upd_log_def upd_disk_def diskmounted_def)

lemma getlog_disks: "disks s' = disks s \<Longrightarrow> getlog d s' = getlog d s"
  by (simp add: getlog_def diskmounted_def)

lemma wrote_upd_log:
  assumes "wrote d ws s s'" "d < length (disks s)"
  shows "wrote d ws s (upd_log d f s')"
proof -
  have l: "d < length (disks s')" using assms bframe_disk(1) [OF wroteD(2) [OF assms(1)]] by simp
  note u = upd_log_cache [OF l, where f = f]
  show ?thesis
    using wroteD [OF assms(1)] bframe_trans [OF _ u(1)] unfolding wrote_def u(2-7) by blast
qed

section \<open>Commit\<close>

text \<open>
  Between two commits the dirty blocks of a disk are exactly those of the running transaction and
  the header on the disk is empty. When \<^verbatim>\<open>end_op\<close> calls \<^verbatim>\<open>commit\<close>, no buffer is locked and one can be
  recycled.
\<close>

definition linv :: "nat \<Rightarrow> log \<Rightarrow> 'a dst_scheme \<Rightarrow> bool" where
  "linv d lg s \<longleftrightarrow> binv s \<and> ide_dev s d \<and> getlog d s = Some lg \<and> log_geom d lg
     \<and> {b. (d, b) \<in> dirtyb s} = set (take (lg_n lg) (lg_block lg))
     \<and> hdr_n (dsk s d (lg_start lg)) = 0"

definition commit_ready :: "nat \<Rightarrow> log \<Rightarrow> 'a dst_scheme \<Rightarrow> bool" where
  "commit_ready d lg s \<longleftrightarrow> linv d lg s \<and> held s = {} \<and> card (dirtyb s) < NBUF"

text \<open>The sector writes of a commit, in order.\<close>

definition commit_writes :: "nat \<Rightarrow> log \<Rightarrow> 'a dst_scheme \<Rightarrow> (nat \<times> bytes) list" where
  "commit_writes d lg s = (let n = lg_n lg; m = blk s d; a = lg_start lg;
       h = hdr_put n (lg_block lg) (m a) in
     map (\<lambda>t. (a + t + 1, m (lg_block lg ! t))) [0..<n] @ [(a, h)]
     @ map (\<lambda>t. (lg_block lg ! t, m (lg_block lg ! t))) [0..<n] @ [(a, hdr_put 0 (lg_block lg) h)])"

lemma log_geom_blocks:
  assumes "log_geom d lg"
  shows "lg_n lg \<le> length (lg_block lg)"
    "set (take (lg_n lg) (lg_block lg)) = (\<lambda>t. lg_block lg ! t) ` {..<lg_n lg}"
proof -
  show len: "lg_n lg \<le> length (lg_block lg)" using assms by (auto simp: log_geom_def)
  show "set (take (lg_n lg) (lg_block lg)) = (\<lambda>t. lg_block lg ! t) ` {..<lg_n lg}"
    using nth_image [OF len] by (simp add: atLeast0LessThan)
qed

lemma linv_dirty:
  assumes "linv d lg s"
  shows "t < lg_n lg \<Longrightarrow> (d, lg_block lg ! t) \<in> dirtyb s" "in_log lg b \<Longrightarrow> (d, b) \<notin> dirtyb s"
proof -
  have g: "log_geom d lg" and dd: "\<And>b. (d, b) \<in> dirtyb s \<longleftrightarrow> b \<in> set (take (lg_n lg) (lg_block lg))"
    using assms by (auto simp: linv_def)
  show "t < lg_n lg \<Longrightarrow> (d, lg_block lg ! t) \<in> dirtyb s" unfolding dd log_geom_blocks(2) [OF g] by auto
  show "in_log lg b \<Longrightarrow> (d, b) \<notin> dirtyb s"
    unfolding dd log_geom_blocks(2) [OF g] using g by (auto simp: log_geom_def)
qed

lemma clean_blk_dsk:
  assumes inv: "binv s" and "(d, b) \<notin> dirtyb s"
  shows "blk s d b = dsk s d b"
proof (cases "\<exists>i < NBUF. caches s d b i")
  case True
  then obtain i where i: "i < NBUF" "caches s d b i" by blast
  then have "\<not> b_dirty (bufs s ! i)" using assms(2) by (auto simp: dirtyb_iff caches_def)
  then show ?thesis
    using blk_cached [OF inv i] binvD(7) [OF inv i(1)] i(2) by (simp add: bufok_def caches_def)
qed (simp add: blk_uncached)

lemma puts_log_writes:
  "t < n \<Longrightarrow> puts (log_writes lg [0..<n] m) m' (Suc (lg_start lg + t)) = m (lg_block lg ! t)"
  by (rule puts_in) (auto simp: log_writes_def)

lemma puts_log_writes_other:
  "\<not> (lg_start lg < b \<and> b \<le> lg_start lg + n) \<Longrightarrow> puts (log_writes lg [0..<n] m) m' b = m' b"
  by (rule puts_other) (auto simp: log_writes_def)

lemma puts_home_other:
  "(\<And>t. t < n \<Longrightarrow> b \<noteq> lg_block lg ! t) \<Longrightarrow> puts (home_writes lg [0..<n] m) m' b = m' b"
  by (rule puts_other) (unfold home_writes_def, fastforce)

lemma commit_ok:
  assumes r: "commit_ready d lg s" and n: "0 < lg_n lg"
  shows "\<exists>s'. commit d s = Inr ((), s') \<and> wrote d (commit_writes d lg s) s s'
    \<and> getlog d s' = Some (lg\<lparr>lg_n := 0\<rparr>)"
proof -
  from r have inv: "binv s" and dev: "ide_dev s d" and lg: "getlog d s = Some lg"
    and g: "log_geom d lg" and h: "held s = {}" and room: "card (dirtyb s) < NBUF"
    and li: "linv d lg s" by (auto simp: commit_ready_def linv_def)
  note dd = linv_dirty [OF li]
  let ?n = "lg_n lg" and ?a = "lg_start lg" and ?m = "blk s d"
  have dl: "d < length (disks s)" using dev binvD(2) [OF inv] by (simp add: ide_dev_def)
  have g': "lg_dev lg = d" "?a < FSSIZE" "?n \<le> LOGSIZE" "length (lg_block lg) = LOGSIZE"
    using g by (auto simp: log_geom_def)
  have nl: "(d, ?a + t + 1) \<notin> dirtyb s" if "t < ?n" for t
    using dd(2) [of "?a + t + 1"] that g by (auto simp: in_log_def log_geom_def)
  have up: "set [0..<?n] \<subseteq> {..<?n}" by auto
  obtain s1 where s1: "write_log_loop lg [0..<?n] s = Inr ((), s1)"
    "wrote d (log_writes lg [0..<?n] ?m) s s1" "disks s1 = disks s"
    using write_log_loop_ok [OF inv dev g h room up] dd(1) nl by blast
  note w1 = wroteD [OF s1(2)]
  have d1: "dirtyb s1 = dirtyb s" using w1(4) nl by (auto simp: log_writes_def)
  have lg1: "getlog d s1 = Some lg" "ide_dev s1 d"
    using getlog_disks [OF s1(3)] lg dev s1(3) by (auto simp: ide_dev_def)
  have a1: "blk s1 d ?a = ?m ?a" using w1(5) by (simp add: puts_log_writes_other)
  let ?h = "hdr_put ?n (lg_block lg) (?m ?a)"
  obtain s2 where s2: "write_head d s1 = Inr ((), s2)" "wrote d [(?a, ?h)] s1 s2" "disks s2 = disks s1"
    using write_head_ok [OF w1(1) lg1(2,1) g'(1-3)] w1(3) h d1 room a1 by auto
  note w2 = wroteD [OF s2(2)]
  have "(d, ?a) \<notin> dirtyb s" using dd(2) [of ?a] g by (auto simp: in_log_def log_geom_def)
  then have d2: "dirtyb s2 = dirtyb s" using w2(4) d1 by auto
  have lg2: "getlog d s2 = Some lg" "ide_dev s2 d"
    using getlog_disks [OF s2(3)] lg1 s2(3) by (auto simp: ide_dev_def)
  have hw: "home_writes lg [0..<?n] (blk s2 d) = map (\<lambda>t. (lg_block lg ! t, ?m (lg_block lg ! t))) [0..<?n]"
    using w2(5) w1(5) by (simp add: home_writes_def puts_log_writes)
  obtain s3 where s3: "install_loop lg [0..<?n] s2 = Inr ((), s3)"
    "wrote d (home_writes lg [0..<?n] (blk s2 d)) s2 s3" "disks s3 = disks s2"
    using install_loop_ok [OF w2(1) lg2(2) g _ _ up] w2(3) w1(3) h d2 dd(1) room by auto
  note w3 = wroteD [OF s3(2)]
  have lg3: "getlog d s3 = Some lg" "ide_dev s3 d" and dl3: "d < length (disks s3)"
    using getlog_disks [OF s3(3)] lg2 s3(3) s2(3) s1(3) dl by (auto simp: ide_dev_def)
  have "?a \<noteq> lg_block lg ! t" if "t < ?n" for t
    using g that by (auto simp: log_geom_def in_log_def)
  then have "blk s3 d ?a = blk s2 d ?a" unfolding w3(5) by (simp add: puts_home_other)
  then have a3: "blk s3 d ?a = ?h" unfolding w2(5) by simp
  let ?s = "upd_log d (\<lambda>lg. lg\<lparr>lg_n := 0\<rparr>) s3"
  note u = upd_log_cache [OF dl3, where f = "\<lambda>lg. lg\<lparr>lg_n := 0\<rparr>"]
  have lgu: "getlog d ?s = Some (lg\<lparr>lg_n := 0\<rparr>)" using dl3 lg3 by simp
  have "card (dirtyb s3) < NBUF" using card_dirtyb_mono [OF s3(2)] w3(3) w2(3) w1(3) h d2 room by simp
  then obtain s4 where s4: "write_head d ?s = Inr ((), s4)"
    "wrote d [(?a, hdr_put 0 (lg_block lg) ?h)] ?s s4" "disks s4 = disks ?s"
    using write_head_ok [of ?s d "lg\<lparr>lg_n := 0\<rparr>"] lgu lg3 g' w3(1,3) w2(3) w1(3) h a3
    by (auto simp: u)
  have "commit d s = Inr ((), s4)"
    using n lg lg1 lg2 s1(1) s2(1) s3(1) s4(1)
    by (simp add: commit_def write_log_def install_trans_def)
  moreover have "wrote d (commit_writes d lg s) s s4"
  proof -
    have "wrote d (log_writes lg [0..<?n] ?m @ [(?a, ?h)] @ home_writes lg [0..<?n] (blk s2 d)) s ?s"
      using wrote_trans [OF s1(2) wrote_trans [OF s2(2) s3(2)]] dl s1(3) wrote_upd_log by simp
    from wrote_trans [OF this s4(2) dl] show ?thesis
      by (simp add: commit_writes_def log_writes_def hw Let_def)
  qed
  moreover have "getlog d s4 = Some (lg\<lparr>lg_n := 0\<rparr>)" using lgu getlog_disks [OF s4(3)] by simp
  ultimately show ?thesis by blast
qed

section \<open>Recovery\<close>

lemma hdr_n_put [simp]: "n < 2 ^ 32 \<Longrightarrow> hdr_n (hdr_put n bs x) = n"
  by (simp add: hdr_n_def hdr_put_def slice_def patch_def)

lemma drop_concat_le32: "drop (4 * i) (concat (map le32 bs)) = concat (map le32 (drop i bs))"
proof (induction i arbitrary: bs)
  case (Suc i)
  then show ?case by (cases bs) simp_all
qed simp

lemma hdr_block_put:
  assumes "i < n" "n \<le> length bs" "bs ! i < 2 ^ 32"
  shows "hdr_block (hdr_put n bs x) i = bs ! i"
proof -
  let ?bs = "take n bs"
  have "drop i ?bs = bs ! i # drop (Suc i) ?bs"
    using assms(1,2) by (simp add: Cons_nth_drop_Suc [symmetric])
  then have "drop (4 * i) (concat (map le32 ?bs)) = le32 (bs ! i) @ concat (map le32 (drop (Suc i) ?bs))"
    by (simp add: drop_concat_le32)
  moreover have "4 * i \<le> length (concat (map le32 ?bs))" using assms(1,2) by simp
  ultimately have "slice (4 + 4 * i) 4 (hdr_put n bs x) = le32 (bs ! i)"
    by (simp add: slice_def hdr_put_def patch_def)
  then show ?thesis using assms(3) by (simp add: hdr_block_def)
qed

text \<open>The in-memory log after \<^verbatim>\<open>read_head\<close> of a header block \<open>x\<close>.\<close>

definition log_load :: "bytes \<Rightarrow> log \<Rightarrow> log" where
  "log_load x lg = lg\<lparr>lg_n := hdr_n x,
     lg_block := map (hdr_block x) [0..<hdr_n x] @ drop (hdr_n x) (lg_block lg)\<rparr>"

lemma read_head_ok:
  assumes inv: "binv s" and dev: "ide_dev s d" and lg: "getlog d s = Some lg"
    and g: "lg_dev lg = d" "lg_start lg < FSSIZE" and x: "x = blk s d (lg_start lg)" "hdr_n x \<le> LOGSIZE"
    and h: "held s = {}" "card (dirtyb s) < NBUF"
  shows "\<exists>s'. read_head d s = Inr ((), s') \<and> wrote d [] s s' \<and> getlog d s' = Some (log_load x lg)"
proof -
  have dl: "d < length (disks s)" using dev binvD(2) [OF inv] by (simp add: ide_dev_def)
  let ?a = "lg_start lg"
  from bread_spec [OF inv dev g(2)] h obtain i s1 where
    r1: "bread d ?a s = Inr (i, s1)" "bread_post s d ?a i s1" by auto
  note 1 = bread_postD [OF r1(2)]
  have bx: "b_data (bufs s1 ! i) = x"
    using owns_bdata [OF 1(1,7)] 1(6) x by (simp add: bdata_def)
  have dl1: "d < length (disks s1)" using dl 1(3) by simp
  let ?f = "\<lambda>lg. lg\<lparr>lg_n := hdr_n x, lg_block := map (hdr_block x) [0..<hdr_n x] @ drop (hdr_n x) (lg_block lg)\<rparr>"
  note u = upd_log_cache [OF dl1, where f = ?f]
  from brelse_spec [of "upd_log d ?f s1" i d ?a] 1(1,7) obtain s2 where
    r2: "brelse i (upd_log d ?f s1) = Inr ((), s2)" "brelse_post (upd_log d ?f s1) d ?a s2"
    by (auto simp: u)
  note 2 = brelse_postD [OF r2(2), unfolded u]
  have "hdr_n x < 2 ^ 31" using x(2) by (simp add: LOGSIZE_def)
  then have "read_head d s = Inr ((), s2)"
    using lg g(1) r1(1) r2(1) bx x(2) by (simp add: read_head_def Let_def)
  moreover have "bframe s s2" using 1(2) u(1) 2(2) by (meson bframe_trans)
  then have "wrote d [] s s2"
    unfolding wrote_def 2(4-8) 1(4-6,8,9) using 2(1) h by simp
  moreover have "getlog d s2 = Some (log_load x lg)"
    using getlog_disks [OF 2(3)] dl1 lg getlog_disks [OF 1(3)] by (simp add: log_load_def)
  ultimately show ?thesis by blast
qed

definition recover_writes :: "log \<Rightarrow> (nat \<Rightarrow> bytes) \<Rightarrow> (nat \<times> bytes) list" where
  "recover_writes lg m = map (\<lambda>t. (lg_block lg ! t, m (lg_start lg + t + 1))) [0..<lg_n lg]
     @ [(lg_start lg, hdr_put 0 (lg_block lg) (m (lg_start lg)))]"

lemma recover_ok:
  assumes inv: "binv s" and dev: "ide_dev s d" and lg: "getlog d s = Some lg"
    and x: "x = blk s d (lg_start lg)" and g: "log_geom d (log_load x lg)"
    and h: "held s = {}" "dirtyb s = {}"
  shows "\<exists>s'. recover_from_log d s = Inr ((), s')
    \<and> wrote d (recover_writes (log_load x lg) (blk s d)) s s'
    \<and> getlog d s' = Some ((log_load x lg)\<lparr>lg_n := 0\<rparr>)"
proof -
  let ?l = "log_load x lg"
  let ?a = "lg_start ?l" and ?n = "lg_n ?l"
  have dl: "d < length (disks s)" using dev binvD(2) [OF inv] by (simp add: ide_dev_def)
  have sa: "lg_start lg = ?a" "lg_dev lg = lg_dev ?l" "hdr_n x = ?n" by (simp_all add: log_load_def)
  have g': "lg_dev ?l = d" "?a < FSSIZE" "?n \<le> LOGSIZE" using g by (auto simp: log_geom_def)
  obtain s1 where s1: "read_head d s = Inr ((), s1)" "wrote d [] s s1" "getlog d s1 = Some ?l"
    using read_head_ok [OF inv dev lg _ _ x] g' h unfolding sa by auto
  note w1 = wroteD [OF s1(2)]
  have dev1: "ide_dev s1 d" using bframe_ide_dev [OF w1(2) binvD(2) [OF inv]] dev by simp
  have up: "set [0..<?n] \<subseteq> {..<?n}" by auto
  obtain s2 where s2: "install_loop ?l [0..<?n] s1 = Inr ((), s2)"
    "wrote d (home_writes ?l [0..<?n] (blk s1 d)) s1 s2" "disks s2 = disks s1"
    using install_loop_ok [OF w1(1) dev1 g _ _ up] w1(3,4) h by (auto simp: NBUF_def)
  note w2 = wroteD [OF s2(2)]
  have lg2: "getlog d s2 = Some ?l" "ide_dev s2 d" and dl2: "d < length (disks s2)"
    using getlog_disks [OF s2(3)] s1(3) s2(3) dev1 bframe_disk(1) [OF w1(2)] dl by (auto simp: ide_dev_def)
  have "?a \<noteq> lg_block ?l ! t" if "t < ?n" for t
    using g that by (auto simp: log_geom_def in_log_def)
  then have a2: "blk s2 d ?a = blk s d ?a" unfolding w2(5) using w1(5) by (simp add: puts_home_other)
  let ?s = "upd_log d (\<lambda>lg. lg\<lparr>lg_n := 0\<rparr>) s2"
  note u = upd_log_cache [OF dl2, where f = "\<lambda>lg. lg\<lparr>lg_n := 0\<rparr>"]
  have lgu: "getlog d ?s = Some (?l\<lparr>lg_n := 0\<rparr>)" using dl2 lg2 by simp
  obtain s3 where s3: "write_head d ?s = Inr ((), s3)"
    "wrote d [(?a, hdr_put 0 (lg_block ?l) (blk s d ?a))] ?s s3" "disks s3 = disks ?s"
    using write_head_ok [of ?s d "?l\<lparr>lg_n := 0\<rparr>"] lgu lg2 g' w2(1,3,4) w1(3,4) h a2
    by (auto simp: u)
  have "recover_from_log d s = Inr ((), s3)"
    using s1(1,3) s2(1) s3(1) by (simp add: recover_from_log_def install_trans_def)
  moreover have "wrote d (home_writes ?l [0..<?n] (blk s1 d)) s ?s"
    using wrote_trans [OF s1(2) s2(2) dl] dl wrote_upd_log by simp
  from wrote_trans [OF this s3(2) dl]
  have "wrote d (recover_writes ?l (blk s d)) s s3"
    using w1(5) by (simp add: recover_writes_def home_writes_def)
  moreover have "getlog d s3 = Some (?l\<lparr>lg_n := 0\<rparr>)" using lgu getlog_disks [OF s3(3)] by simp
  ultimately show ?thesis by blast
qed

section \<open>Crashes\<close>

text \<open>
  \<open>apply_writes\<close> replays sector writes on the drives. \<open>reboot d m s\<close> is the machine after a power
  failure that left the drives with contents \<open>m\<close>: the cache is initialised by \<^verbatim>\<open>binit\<close> and the disk
  mounted by \<^verbatim>\<open>diskmount0\<close> with a zeroed log, as \<^verbatim>\<open>fsinit\<close> does before it calls \<^verbatim>\<open>initlog\<close>.
\<close>

definition apply_writes :: "(nat \<times> nat \<times> bytes) list \<Rightarrow> (nat \<Rightarrow> nat \<Rightarrow> bytes) \<Rightarrow> nat \<Rightarrow> nat \<Rightarrow> bytes" where
  "apply_writes ws m = fold (\<lambda>(d, b, x) m. m(d := (m d)(b := x))) ws m"

definition reboot :: "nat \<Rightarrow> (nat \<Rightarrow> nat \<Rightarrow> bytes) \<Rightarrow> 'a dst_scheme \<Rightarrow> 'a dst_scheme" where
  "reboot d m s = snd (diskmount0 True d (dk_sb (disks s ! d))
     (binit (upd_disk d (\<lambda>k. k\<lparr>dk_mounted := False\<rparr>)
        (s\<lparr>media := m, idequeue := None, ide_errs := []\<rparr>))))"

lemma apply_writes_puts:
  "apply_writes (map (Pair dr) ws) m = m(dr := puts ws (m dr))"
proof (induction ws arbitrary: m)
  case (Cons w ws)
  obtain b x where "w = (b, x)" by fastforce
  then show ?case using Cons [of "m(dr := (m dr)(b := x))"]
    by (simp add: apply_writes_def del: fun_upd_apply) simp
qed (simp add: apply_writes_def)

lemma reboot_state:
  assumes inv: "binv s" and dev: "ide_dev s d" and m: "\<And>e b. length (m e b) = BSIZE"
    and s': "s' = reboot d m s"
  shows "cache_idle s'" "blk s' = dsk s'" "\<And>b. dsk s' d b = m (drive d s) b"
    "getlog d s' = Some zero_log" "getsuperblock d s' = Some (dk_sb (disks s ! d))"
    "ide_dev s' d" "d < length (disks s')"
proof -
  have dl: "d < length (disks s)" "length (disks s) = DISKMAX"
    using dev binvD(2) [OF inv] by (simp_all add: ide_dev_def)
  let ?k = "(disks s ! d)\<lparr>dk_mounted := True, dk_log := Some zero_log\<rparr>"
  let ?t = "s\<lparr>media := m, idequeue := None, ide_errs := [], disks := (disks s)[d := ?k]\<rparr>"
  have t: "s' = binit ?t"
    using dl by (auto simp: s' reboot_def diskmount0_def binit_def upd_disk_def diskmounted_def
        intro!: dst.equality arg_cong [where f = "list_update (disks s) d"] disk.equality)
  have e: "ide_dev ?t = ide_dev s" "drive x ?t = drive x s" for x
    using dl by (auto simp: ide_dev_def fun_eq_iff drive_def realdisk_def nth_list_update)
  have hw: "hw_ok ?t" unfolding hw_ok_def e using m dl binvD(9) [OF inv] by auto
  note b = binit_idle [OF hw]
  have k: "dsk (binit ?t) = dsk ?t"
    by (auto simp: fun_eq_iff dsk_def binit_def drive_def realdisk_def ide_dev_def)
  show "cache_idle s'" "blk s' = dsk s'" unfolding t k using b by simp_all
  show "dsk s' d x = m (drive d s) x" for x
    unfolding t k dsk_def e using dev by simp
  show "getlog d s' = Some zero_log" "getsuperblock d s' = Some (dk_sb (disks s ! d))"
    "d < length (disks s')"
    unfolding t using dl by (simp_all add: binit_def getlog_def getsuperblock_def diskmounted_def)
  show "ide_dev s' d" unfolding t using b(3) dev dl
    by (simp add: binit_def ide_dev_def)
qed

text \<open>Recovery of a disk with contents \<open>D\<close>: its log header is read and the logged blocks installed.\<close>

lemma initlog_ok:
  assumes "cache_idle s" "ide_dev s d" "d < length (disks s)"
    and lg: "getlog d s = Some zero_log" and sb: "getsuperblock d s = Some sb" "sb_nlog sb \<noteq> 0"
    and l: "l = log_load (blk s d (sb_logstart sb))
       (zero_log\<lparr>lg_start := sb_logstart sb, lg_size := sb_nlog sb, lg_dev := d\<rparr>)"
    and g: "log_geom d l"
  shows "\<exists>s'. initlog d s = Inr ((), s') \<and> wrote d (recover_writes l (blk s d)) s s'"
proof -
  let ?f = "\<lambda>lg. lg\<lparr>lg_start := sb_logstart sb, lg_size := sb_nlog sb, lg_dev := d\<rparr>"
  note u = upd_log_cache [OF assms(3), where f = ?f]
  have i: "binv s" "held s = {}" "dirtyb s = {}" using assms(1) by (auto simp: cache_idle_def)
  obtain s' where "recover_from_log d (upd_log d ?f s) = Inr ((), s')"
    "wrote d (recover_writes l (blk s d)) (upd_log d ?f s) s'"
    using recover_ok [of "upd_log d ?f s" d "?f zero_log"] i assms(2,3) lg l g by (auto simp: u)
  moreover from this(2) have "wrote d (recover_writes l (blk s d)) s s'"
    unfolding wrote_def u using bframe_trans [OF u(1)] by blast
  ultimately show ?thesis using lg sb by (auto simp: initlog_def)
qed

text \<open>
  The disk after the first \<open>k\<close> writes of a commit, in the three phases: the log is being written;
  the header is on the disk and the blocks are being installed; the header has been cleared.
\<close>

lemma crash_before:
  assumes "k \<le> lg_n lg" "W = commit_writes d lg s"
    "\<not> (lg_start lg < b \<and> b \<le> lg_start lg + lg_n lg)"
  shows "puts (take k W) M b = M b"
proof (rule puts_other)
  have "set (take k W) \<subseteq> set (map (\<lambda>t. (lg_start lg + t + 1, blk s d (lg_block lg ! t))) [0..<lg_n lg])"
    using assms(1,2) set_take_subset by (fastforce simp: commit_writes_def Let_def)
  then show "b \<notin> fst ` set (take k W)" using assms(3) by fastforce
qed

lemma crash_between:
  assumes g: "log_geom d lg" and C: "C = blk s d" and W: "W = commit_writes d lg s"
    and k: "lg_n lg < k" "k \<le> 2 * lg_n lg + 1"
    and M: "\<forall>b. b \<notin> set (take (lg_n lg) (lg_block lg)) \<longrightarrow> C b = M b"
  shows "puts (take k W) M (lg_start lg) = hdr_put (lg_n lg) (lg_block lg) (C (lg_start lg))"
    and "t < lg_n lg \<Longrightarrow> puts (take k W) M (lg_start lg + t + 1) = C (lg_block lg ! t)"
    and "\<not> in_log lg b \<Longrightarrow> b \<notin> set (take (lg_n lg) (lg_block lg)) \<Longrightarrow> puts (take k W) M b = C b"
proof -
  let ?n = "lg_n lg" and ?a = "lg_start lg"
  let ?h = "hdr_put ?n (lg_block lg) (C ?a)"
  define H where "H = map (\<lambda>t. (lg_block lg ! t, C (lg_block lg ! t))) [0..<?n]"
  define L where "L = log_writes lg [0..<?n] C"
  have tk: "take k W = L @ [(?a, ?h)] @ take (k - ?n - 1) H"
  proof -
    have "W = L @ [(?a, ?h)] @ H @ [(?a, hdr_put 0 (lg_block lg) ?h)]"
      by (simp add: W C H_def L_def log_writes_def commit_writes_def Let_def)
    then show ?thesis using k by (simp add: L_def log_writes_def H_def take_Cons')
  qed
  have H: "fst ` set (take j H) \<subseteq> (\<lambda>t. lg_block lg ! t) ` {..<?n}" for j
    using set_take_subset [of j H] by (force simp: H_def)
  note nth = log_geom_blocks(2) [OF g]
  have off: "puts (take j H) X b = X b" if "in_log lg b \<or> b \<notin> set (take ?n (lg_block lg))" for j X b
    using that H [of j] g by (intro puts_other) (auto simp: nth log_geom_def)
  have a: "in_log lg ?a" and at: "t < ?n \<Longrightarrow> in_log lg (?a + t + 1)" for t
    using g by (auto simp: in_log_def log_geom_def)
  show "puts (take k W) M ?a = ?h" using off a by (simp add: tk)
  show "t < ?n \<Longrightarrow> puts (take k W) M (?a + t + 1) = C (lg_block lg ! t)"
    using off at by (simp add: tk L_def puts_log_writes)
  show "\<not> in_log lg b \<Longrightarrow> b \<notin> set (take ?n (lg_block lg)) \<Longrightarrow> puts (take k W) M b = C b"
    using off M a g by (auto simp: tk L_def puts_log_writes_other in_log_def log_geom_def)
qed

lemma crash_after:
  assumes g: "log_geom d lg" and C: "C = blk s d" and W: "W = commit_writes d lg s"
    and k: "2 * lg_n lg + 1 < k"
    and M: "\<forall>b. b \<notin> set (take (lg_n lg) (lg_block lg)) \<longrightarrow> C b = M b"
  shows "hdr_n (puts (take k W) M (lg_start lg)) = 0"
    and "\<not> in_log lg b \<Longrightarrow> puts (take k W) M b = C b"
proof -
  let ?n = "lg_n lg" and ?a = "lg_start lg"
  let ?h = "hdr_put ?n (lg_block lg) (C ?a)"
  define H where "H = map (\<lambda>t. (lg_block lg ! t, C (lg_block lg ! t))) [0..<?n]"
  define L where "L = log_writes lg [0..<?n] C"
  have W': "W = L @ [(?a, ?h)] @ H @ [(?a, hdr_put 0 (lg_block lg) ?h)]"
    by (simp add: W C H_def L_def log_writes_def commit_writes_def Let_def)
  have "length W = 2 * ?n + 2" by (simp add: W' L_def H_def log_writes_def)
  then have tk: "take k W = W" using k by simp
  show "hdr_n (puts (take k W) M ?a) = 0" by (subst tk) (simp add: W')
  assume b: "\<not> in_log lg b"
  have a: "in_log lg ?a" using g by (auto simp: in_log_def log_geom_def)
  note nth = log_geom_blocks(2) [OF g]
  show "puts (take k W) M b = C b"
  proof (cases "b \<in> set (take ?n (lg_block lg))")
    case True
    then have "puts H X b = C b" for X by (intro puts_in) (auto simp: H_def nth)
    then show ?thesis using a b by (subst tk) (auto simp: W')
  next
    case False
    then have "puts H X b = X b" for X by (intro puts_other) (auto simp: H_def nth)
    then show ?thesis using a b g M False
      by (subst tk) (auto simp: W' L_def puts_log_writes_other in_log_def log_geom_def)
  qed
qed

lemma length_puts:
  "(\<And>b x. (b, x) \<in> set ws \<Longrightarrow> length x = n) \<Longrightarrow> (\<And>b. length (m b) = n) \<Longrightarrow> length (puts ws m b) = n"
proof (induction ws arbitrary: m)
  case (Cons w ws)
  have "length (puts ws (m(fst w := snd w)) b) = n"
    using Cons.prems(1) [of "fst w" "snd w"] Cons.prems by (intro Cons.IH) auto
  then show ?case by simp
qed simp

lemma wrote_dsk:
  assumes "wrote d ws s s'" "binv s" "ide_dev s d"
  shows "dsk s' d = puts ws (dsk s d)"
proof -
  note w = wroteD [OF assms(1)]
  have dl: "d < length (disks s)" using assms(2,3) binvD(2) [of s] by (simp add: ide_dev_def)
  have "drive d s' = drive d s" "ide_dev s' d"
    using bframe_getsuperblock(5) [OF w(2) dl] bframe_ide_dev [OF w(2)] assms(2,3) binvD(2) by auto
  then have "dsk s d = media s (drive d s)" "dsk s' d = media s' (drive d s)"
    using assms(3) by (simp_all add: dsk_def fun_eq_iff)
  then show ?thesis using w(6) by simp
qed

lemma log_geom_load:
  assumes g: "log_geom d lg" and h: "hdr_n x = 0 \<or> (hdr_n x = lg_n lg \<and> (\<forall>t < lg_n lg. hdr_block x t = lg_block lg ! t))"
    and l: "l = log_load x (zero_log\<lparr>lg_start := lg_start lg, lg_size := lg_size lg, lg_dev := d\<rparr>)"
  shows "log_geom d l" "lg_start l = lg_start lg" "lg_size l = lg_size lg" "lg_n l = hdr_n x"
    "t < hdr_n x \<Longrightarrow> lg_block l ! t = lg_block lg ! t"
proof -
  show s: "lg_start l = lg_start lg" "lg_size l = lg_size lg" "lg_n l = hdr_n x"
    using l by (simp_all add: log_load_def)
  have n: "hdr_n x \<le> LOGSIZE" using g h by (auto simp: log_geom_def)
  show nth: "t < hdr_n x \<Longrightarrow> lg_block l ! t = lg_block lg ! t" for t
    using h by (auto simp: l log_load_def nth_append)
  have "take (hdr_n x) (lg_block l) = take (hdr_n x) (lg_block lg)"
    using nth n g by (intro nth_take_lemma) (auto simp: l log_load_def zero_log_def log_geom_def)
  then have "distinct (take (hdr_n x) (lg_block l))" using g h by (auto simp: log_geom_def)
  moreover have "in_log l = in_log lg" using s by (simp add: in_log_def fun_eq_iff)
  ultimately show "log_geom d l"
    using g h n s nth unfolding log_geom_def by (auto simp: l log_load_def zero_log_def)
qed

text \<open>The log a reboot loads from the crashed disk \<open>D\<close>: empty, or the whole transaction.\<close>

lemma crash_header:
  assumes g: "log_geom d lg" and W: "W = commit_writes d lg s"
    and M: "\<forall>b. b \<notin> set (take (lg_n lg) (lg_block lg)) \<longrightarrow> blk s d b = M b"
    and h0: "hdr_n (M (lg_start lg)) = 0" and x: "x = puts (take k W) M (lg_start lg)"
  shows "hdr_n x = (if lg_n lg < k \<and> k \<le> 2 * lg_n lg + 1 then lg_n lg else 0)"
    "lg_n lg < k \<Longrightarrow> k \<le> 2 * lg_n lg + 1 \<Longrightarrow> t < lg_n lg \<Longrightarrow> hdr_block x t = lg_block lg ! t"
proof -
  have b: "hdr_n x = 0" if "k \<le> lg_n lg"
    using crash_before [OF that W, of "lg_start lg" M] h0 by (simp add: x)
  have m: "hdr_n x = lg_n lg" "t < lg_n lg \<Longrightarrow> hdr_block x t = lg_block lg ! t"
    if "lg_n lg < k" "k \<le> 2 * lg_n lg + 1" for t
    using crash_between(1) [OF g refl W that M] hdr_block_put [of t "lg_n lg" "lg_block lg"] g
    by (auto simp: x log_geom_def LOGSIZE_def FSSIZE_def)
  have a: "hdr_n x = 0" if "2 * lg_n lg + 1 < k"
    using crash_after(1) [OF g refl W that M] by (simp add: x)
  show "hdr_n x = (if lg_n lg < k \<and> k \<le> 2 * lg_n lg + 1 then lg_n lg else 0)"
    using b m a by (meson not_le)
  show "lg_n lg < k \<Longrightarrow> k \<le> 2 * lg_n lg + 1 \<Longrightarrow> t < lg_n lg \<Longrightarrow> hdr_block x t = lg_block lg ! t"
    using m by blast
qed

text \<open>What recovery makes of the crashed disk.\<close>

lemma crash_recovered:
  assumes g: "log_geom d lg" and W: "W = commit_writes d lg s"
    and M: "\<forall>b. b \<notin> set (take (lg_n lg) (lg_block lg)) \<longrightarrow> blk s d b = M b"
    and D: "D = puts (take k W) M" and b: "\<not> in_log lg b"
    and l: "lg_start l = lg_start lg" "lg_n l = (if lg_n lg < k \<and> k \<le> 2 * lg_n lg + 1 then lg_n lg else 0)"
      "\<And>t. t < lg_n l \<Longrightarrow> lg_block l ! t = lg_block lg ! t"
  shows "puts (recover_writes l D) D b = (if k \<le> lg_n lg then M b else blk s d b)"
proof -
  let ?a = "lg_start lg"
  have ba: "b \<noteq> ?a" "\<not> (?a < b \<and> b \<le> ?a + lg_n lg)"
    using b g by (auto simp: in_log_def log_geom_def)
  consider (before) "k \<le> lg_n lg" | (mid) "lg_n lg < k" "k \<le> 2 * lg_n lg + 1" | (after) "2 * lg_n lg + 1 < k"
    by linarith
  then show ?thesis
  proof cases
    case before
    then show ?thesis
      using crash_before [OF before W ba(2), of M] ba l by (simp add: D recover_writes_def)
  next
    case after
    then show ?thesis
      using crash_after(2) [OF g refl W after M b] ba l by (simp add: D recover_writes_def)
  next
    case mid
    note cb = crash_between [OF g refl W mid M]
    let ?H = "map (\<lambda>t. (lg_block lg ! t, blk s d (lg_block lg ! t))) [0..<lg_n lg]"
    have R: "puts (recover_writes l D) D b = puts ?H D b"
    proof -
      have "recover_writes l D = ?H @ [(?a, hdr_put 0 (lg_block l) (D ?a))]"
        using l mid cb(2) by (simp add: recover_writes_def D)
      then show ?thesis using ba by simp
    qed
    show ?thesis
    proof (cases "b \<in> set (take (lg_n lg) (lg_block lg))")
      case True
      then have "puts ?H D b = blk s d b"
        by (intro puts_in) (auto simp: log_geom_blocks(2) [OF g])
      then show ?thesis using R mid by simp
    next
      case False
      then have "puts ?H D b = D b"
        by (intro puts_other) (auto simp: log_geom_blocks(2) [OF g])
      then show ?thesis using R mid cb(3) [OF b False] by (simp add: D)
    qed
  qed
qed

lemma length_commit_writes:
  assumes "binv s" "log_geom d lg" "(b, x) \<in> set (commit_writes d lg s)"
  shows "length x = BSIZE"
  using assms(2,3) length_blk [OF assms(1)]
  by (auto simp: commit_writes_def Let_def length_hdr_put log_geom_def)

text \<open>
  C1. Commits are atomic across crashes. A commit returns and installs the transaction on the
  disk; and if the machine loses power after any number \<open>k\<close> of the commit's sector writes, the
  recovery at the next boot (\<^verbatim>\<open>initlog\<close>) returns, clears the log, and every block outside the log
  holds its contents from before the transaction when the header had not yet been written
  (\<open>k \<le> n\<close>), and its contents from after the transaction otherwise.
\<close>

theorem commit_crash_atomic:
  assumes r: "commit_ready d lg s" and n: "0 < lg_n lg"
    and sb: "sb_logstart (dk_sb (disks s ! d)) = lg_start lg" "sb_nlog (dk_sb (disks s ! d)) = lg_size lg"
  shows "\<exists>s' ws. commit d s = Inr ((), s') \<and> dtrace s' = dtrace s @ ws
    \<and> (\<forall>b. \<not> in_log lg b \<longrightarrow> dsk s' d b = blk s d b)
    \<and> (\<forall>k. \<exists>s2. initlog d (reboot d (apply_writes (take k ws) (media s)) s) = Inr ((), s2)
         \<and> hdr_n (dsk s2 d (lg_start lg)) = 0
         \<and> (\<forall>b. \<not> in_log lg b \<longrightarrow>
              dsk s2 d b = (if k \<le> lg_n lg then dsk s d b else blk s d b)))"
proof -
  from r have inv: "binv s" and dev: "ide_dev s d" and g: "log_geom d lg"
    and h0: "hdr_n (dsk s d (lg_start lg)) = 0" by (auto simp: commit_ready_def linv_def)
  let ?a = "lg_start lg" and ?M = "dsk s d"
  define W where "W = commit_writes d lg s"
  obtain s' where s': "commit d s = Inr ((), s')" "wrote d W s s'"
    using commit_ok [OF r n] unfolding W_def by blast
  define ws where "ws = map (Pair (drive d s)) W"
  have tr: "dtrace s' = dtrace s @ ws" using wroteD(7) [OF s'(2)] by (simp add: ws_def)
  have M: "\<forall>b. b \<notin> set (take (lg_n lg) (lg_block lg)) \<longrightarrow> blk s d b = ?M b"
    using clean_blk_dsk [OF inv, of d] r by (auto simp: commit_ready_def linv_def)
  have fin: "\<forall>b. \<not> in_log lg b \<longrightarrow> dsk s' d b = blk s d b"
    using wrote_dsk [OF s'(2) inv dev] crash_after(2) [OF g refl W_def _ M, of "2 * lg_n lg + 2"]
    by (simp add: W_def commit_writes_def Let_def)
  have "\<exists>s2. initlog d (reboot d (apply_writes (take k ws) (media s)) s) = Inr ((), s2)
         \<and> hdr_n (dsk s2 d ?a) = 0
         \<and> (\<forall>b. \<not> in_log lg b \<longrightarrow> dsk s2 d b = (if k \<le> lg_n lg then ?M b else blk s d b))" for k
  proof -
    define D where "D = puts (take k W) ?M"
    let ?m = "apply_writes (take k ws) (media s)"
    have Mm: "?M = media s (drive d s)" using dev by (simp add: dsk_def fun_eq_iff)
    have m: "?m = (media s)(drive d s := D)"
      by (simp add: ws_def take_map apply_writes_puts D_def Mm)
    have "length (D b) = BSIZE" for b
      unfolding D_def using length_commit_writes [OF inv g] set_take_subset [of k W] binvD(8) [OF inv]
      by (intro length_puts) (auto simp: Mm W_def)
    then have lm: "length (?m e b) = BSIZE" for e b using binvD(8) [OF inv] by (simp add: m)
    let ?s = "reboot d ?m s"
    note b = reboot_state [where m = ?m and s' = ?s, OF inv dev lm refl]
    have bD: "blk ?s d = D" using b(2,3) by (simp add: fun_eq_iff m)
    define l where "l = log_load (D ?a) (zero_log\<lparr>lg_start := ?a, lg_size := lg_size lg, lg_dev := d\<rparr>)"
    note ch = crash_header [OF g W_def M h0 fun_cong [OF D_def]]
    note gl = log_geom_load [OF g _ l_def]
    have ph: "hdr_n (D ?a) = 0 \<or> (hdr_n (D ?a) = lg_n lg \<and> (\<forall>t < lg_n lg. hdr_block (D ?a) t = lg_block lg ! t))"
      using ch by auto
    obtain s2 where s2: "initlog d ?s = Inr ((), s2)" "wrote d (recover_writes l D) ?s s2"
      using initlog_ok [OF b(1,6,7,4,5), of l] sb gl(1) [OF ph] g bD by (auto simp: l_def log_geom_def)
    have R: "dsk s2 d = puts (recover_writes l D) D"
      using wrote_dsk [OF s2(2)] b bD by (auto simp: cache_idle_def)
    have "hdr_n (dsk s2 d ?a) = 0" using gl(2) [OF ph] by (simp add: R recover_writes_def)
    moreover have "dsk s2 d b = (if k \<le> lg_n lg then ?M b else blk s d b)" if "\<not> in_log lg b" for b
      unfolding R using crash_recovered [OF g W_def M D_def that] gl(2,4,5) [OF ph] ch(1) by simp
    ultimately show ?thesis using s2(1) by blast
  qed
  then show ?thesis using s'(1) tr fin by blast
qed

section \<open>Transactions\<close>

lemma log_add_fields [simp]:
  "lg_start (log_add b lg) = lg_start lg" "lg_size (log_add b lg) = lg_size lg"
  "lg_dev (log_add b lg) = lg_dev lg" "lg_outstanding (log_add b lg) = lg_outstanding lg"
  "lg_committing (log_add b lg) = lg_committing lg" "in_log (log_add b lg) = in_log lg"
  by (simp_all add: log_add_def Let_def in_log_def fun_eq_iff)

lemma log_add_logged:
  assumes "lg_n lg \<le> length (lg_block lg)" "b \<in> set (take (lg_n lg) (lg_block lg))"
  shows "log_add b lg = lg"
proof -
  obtain i where i: "find_index (\<lambda>x. x = b) (take (lg_n lg) (lg_block lg)) = Some i"
    using find_index_exists [OF assms(2), of "\<lambda>x. x = b"] by auto
  note f = find_index_SomeD(1,2) [OF i]
  then have "(lg_block lg)[i := b] = lg_block lg" "i < lg_n lg"
    using list_update_id [of "lg_block lg" i] by auto
  then show ?thesis using i by (simp add: log_add_def log_slot_def)
qed

lemma log_add_new:
  assumes "b \<notin> set (take (lg_n lg) (lg_block lg))"
  shows "log_add b lg = lg\<lparr>lg_block := (lg_block lg)[lg_n lg := b], lg_n := lg_n lg + 1\<rparr>"
proof -
  have "find_index (\<lambda>x. x = b) (take (lg_n lg) (lg_block lg)) = None"
    using assms by (auto simp: find_index_None)
  then show ?thesis by (simp add: log_add_def log_slot_def Let_def)
qed

lemma log_add_ok:
  assumes g: "log_geom d lg" and b: "b < FSSIZE" "\<not> in_log lg b"
    and n: "lg_n lg < LOGSIZE" "lg_n lg + 1 < lg_size lg"
  shows "log_geom d (log_add b lg)" "lg_n (log_add b lg) \<le> lg_n lg + 1" "lg_n lg \<le> lg_n (log_add b lg)"
    "set (take (lg_n (log_add b lg)) (lg_block (log_add b lg))) = insert b (set (take (lg_n lg) (lg_block lg)))"
proof -
  let ?bs = "lg_block lg" and ?n = "lg_n lg"
  have len: "?n < length ?bs" using g n by (simp add: log_geom_def)
  show "log_geom d (log_add b lg)"
  proof (cases "b \<in> set (take ?n ?bs)")
    case True
    then show ?thesis using g len by (simp add: log_add_logged)
  next
    case False
    have tk: "take (?n + 1) (?bs[?n := b]) = take ?n ?bs @ [b]"
      using len by (simp add: take_Suc_conv_app_nth)
    have nth: "?bs[?n := b] ! t < FSSIZE \<and> \<not> in_log lg (?bs[?n := b] ! t)" if "t < ?n + 1" for t
      using that g b len by (cases "t = ?n") (auto simp: log_geom_def)
    have "log_add b lg = lg\<lparr>lg_block := ?bs[?n := b], lg_n := ?n + 1\<rparr>" by (rule log_add_new [OF False])
    moreover have "in_log (lg\<lparr>lg_block := ?bs[?n := b], lg_n := ?n + 1\<rparr>) = in_log lg"
      by (simp add: in_log_def fun_eq_iff)
    ultimately show ?thesis
      unfolding log_geom_def using g n nth tk False by (simp add: log_geom_def)
  qed
  show "lg_n (log_add b lg) \<le> ?n + 1" "?n \<le> lg_n (log_add b lg)"
    by (simp_all add: log_add_def Let_def)
  show "set (take (lg_n (log_add b lg)) (lg_block (log_add b lg))) = insert b (set (take ?n ?bs))"
  proof (cases "b \<in> set (take ?n ?bs)")
    case True
    then show ?thesis using len by (auto simp: log_add_logged insert_absorb)
  next
    case False
    then show ?thesis using len by (simp add: log_add_new take_Suc_conv_app_nth)
  qed
qed

definition log_write_post :: "'a dst_scheme \<Rightarrow> nat \<Rightarrow> nat \<Rightarrow> bytes \<Rightarrow> log \<Rightarrow> 'a dst_scheme \<Rightarrow> bool" where
  "log_write_post s d b x lg s' \<longleftrightarrow> linv d (log_add b lg) s' \<and> bframe s s'
     \<and> media s' = media s \<and> dtrace s' = dtrace s \<and> blk s' = (blk s)(d := (blk s d)(b := x))
     \<and> held s' = held s \<and> dirtyb s' = insert (d, b) (dirtyb s)
     \<and> (\<forall>j e c. owns s j e c \<longrightarrow> owns s' j e c)"

lemma log_write_postD:
  assumes "log_write_post s d b x lg s'"
  shows "linv d (log_add b lg) s'" "bframe s s'" "media s' = media s" "dtrace s' = dtrace s"
    "blk s' = (blk s)(d := (blk s d)(b := x))" "held s' = held s"
    "dirtyb s' = insert (d, b) (dirtyb s)" "\<And>j e c. owns s j e c \<Longrightarrow> owns s' j e c"
  using assms unfolding log_write_post_def by blast+

lemma linvD:
  assumes "linv d lg s"
  shows "binv s" "ide_dev s d" "getlog d s = Some lg" "log_geom d lg" "lg_dev lg = d"
    "hdr_n (dsk s d (lg_start lg)) = 0" "d < length (disks s)"
  using assms binvD(2) [of s] by (auto simp: linv_def log_geom_def ide_dev_def)

lemma log_write_spec:
  assumes l: "linv d lg s" and o: "owns s i d b" and x: "length x = BSIZE"
    and b: "b < FSSIZE" "\<not> in_log lg b" and n: "lg_n lg < LOGSIZE" "lg_n lg + 1 < lg_size lg"
    and tx: "1 \<le> lg_outstanding lg"
  shows "\<exists>s'. log_write i (set_data i x s) = Inr ((), s') \<and> log_write_post s d b x lg s'"
proof -
  note li = linvD [OF l]
  let ?u = "upd_buf i (\<lambda>b. b\<lparr>b_dirty := True\<rparr>) (set_data i x s)"
  note m = mark_dirty_spec [OF li(1) o x refl]
  have du: "d < length (disks ?u)" using li(7) m(3) by simp
  let ?s = "upd_log d (log_add b) ?u"
  note u = upd_log_cache [OF du, where f = "log_add b"]
  have i: "i < length (bufs s)" "b_dev (bufs s ! i) = d" "b_blockno (bufs s ! i) = b"
    using o binvD(1) [OF li(1)] by (auto simp: owns_def)
  have k: "b_dev (bufs (set_data i x s) ! i) = d" "b_blockno (bufs (set_data i x s) ! i) = b"
    "getlog d (set_data i x s) = Some lg"
    using i li(3) getlog_disks [of "set_data i x s" s] by (simp_all add: set_data_def upd_buf_def)
  have "?s = upd_buf i (\<lambda>b. b\<lparr>b_dirty := True\<rparr>) (upd_log d (log_add b) (set_data i x s))"
    by (simp add: upd_buf_def upd_log_def upd_disk_def)
  then have "log_write i (set_data i x s) = Inr ((), ?s)"
    using k n tx by (simp add: log_write_def Let_def)
  moreover have "log_write_post s d b x lg ?s"
    unfolding log_write_post_def
  proof (intro conjI)
    have dsk: "dsk ?s = dsk s" using dsk_media [OF m(4,3)] u(11) by simp
    have "getlog d ?s = Some (log_add b lg)" using du getlog_disks [OF m(3)] li(3) by simp
    moreover have "ide_dev ?s d" using u(9) li(2) m(3) by (simp add: ide_dev_def)
    moreover have "{c. (d, c) \<in> dirtyb ?s} = insert b {c. (d, c) \<in> dirtyb s}" using u(5) m(8) by auto
    ultimately show "linv d (log_add b lg) ?s"
      unfolding linv_def using u(2) m(1) log_add_ok [OF li(4) b n] l dsk by (simp add: linv_def)
    show "bframe s ?s" using m(2) u(1) by (rule bframe_trans)
  qed (use u m in auto)
  ultimately show ?thesis by blast
qed

text \<open>
  The idiom of the file system: read a block, change its data, log it, release it. The
  operations of \<^verbatim>\<open>fs.c\<close> that follow it are rewritten to \<open>bupdate\<close> in their proofs.
\<close>

definition bupdate :: "nat \<Rightarrow> nat \<Rightarrow> (bytes \<Rightarrow> bytes) \<Rightarrow> 'a dst_scheme \<Rightarrow> ('a dst_scheme, unit) outcome" where
  "bupdate d b f s = bnd (bread d b s) (\<lambda>(i, s).
     bnd (log_write i (set_data i (f (b_data (bufs s ! i))) s)) (\<lambda>(_, s). brelse i s))"

lemma linv_cong:
  assumes "linv d lg s" "binv s'" "bframe s s'" "getlog d s' = Some lg" "media s' = media s"
    "dirtyb s' = dirtyb s"
  shows "linv d lg s'"
proof -
  note li = linvD [OF assms(1)]
  have e: "ide_dev s' d" "drive d s' = drive d s"
    using bframe_ide_dev [OF assms(3) binvD(2) [OF li(1)]] li(2)
      bframe_getsuperblock(5) [OF assms(3) li(7)] by auto
  then have "dsk s' d = dsk s d" using li(2) assms(5) by (simp add: dsk_def fun_eq_iff)
  then show ?thesis using assms e by (simp add: linv_def)
qed

lemma linv_bread:
  assumes "linv d lg s" "bread_post s e b i s'"
  shows "linv d lg s'"
  using linv_cong [OF assms(1)] bread_postD [OF assms(2)] linvD(3) [OF assms(1)]
    getlog_disks [OF bread_postD(3) [OF assms(2)]] by simp

lemma linv_brelse:
  assumes "linv d lg s" "brelse_post s e b s'"
  shows "linv d lg s'"
  using linv_cong [OF assms(1)] brelse_postD [OF assms(2)] linvD(3) [OF assms(1)]
    getlog_disks [OF brelse_postD(3) [OF assms(2)]] by simp

text \<open>What the log has room for: \<open>k\<close> more blocks in the log and \<open>k\<close> more buffers in the cache.\<close>

definition log_room :: "log \<Rightarrow> nat \<Rightarrow> bool" where
  "log_room lg k \<longleftrightarrow> 1 \<le> lg_outstanding lg \<and> lg_n lg + k \<le> LOGSIZE \<and> lg_n lg + k < lg_size lg"

definition buf_room :: "nat \<Rightarrow> 'a dst_scheme \<Rightarrow> bool" where
  "buf_room k s \<longleftrightarrow> card (held s \<union> dirtyb s) + k \<le> NBUF"

lemma bupdate_spec:
  assumes l: "linv d lg s" and b: "b < FSSIZE" "\<not> in_log lg b" and nh: "(d, b) \<notin> held s"
    and room: "log_room lg 1" "buf_room 1 s" and x: "x = f (blk s d b)" "length x = BSIZE"
  shows "\<exists>s'. bupdate d b f s = Inr ((), s') \<and> log_write_post s d b x lg s'"
proof -
  note li = linvD [OF l]
  have br: "(d, b) \<in> dirtyb s \<or> card (held s \<union> dirtyb s) < NBUF" using room(2) by (simp add: buf_room_def)
  from bread_spec [OF li(1,2) b(1) nh br] obtain i s1 where
    r1: "bread d b s = Inr (i, s1)" "bread_post s d b i s1" by blast
  note 1 = bread_postD [OF r1(2)]
  have bx: "f (b_data (bufs s1 ! i)) = x"
    using owns_bdata [OF 1(1,7)] 1(6) x by (simp add: bdata_def)
  from log_write_spec [OF linv_bread [OF l r1(2)] 1(7) x(2) b] room(1) obtain s2 where
    r2: "log_write i (set_data i x s1) = Inr ((), s2)" "log_write_post s1 d b x lg s2"
    by (auto simp: log_room_def)
  note 2 = log_write_postD [OF r2(2)]
  from brelse_spec [OF linvD(1) [OF 2(1)] 2(8) [OF 1(7)]] obtain s3 where
    r3: "brelse i s2 = Inr ((), s3)" "brelse_post s2 d b s3" by blast
  note 3 = brelse_postD [OF r3(2)]
  have f: "bframe s s3" using 1(2) 2(2) 3(2) by (meson bframe_trans)
  have ow: "owns s3 j e c" if "owns s j e c" for j e c
  proof -
    have "(e, c) \<noteq> (d, b)" using owns_held [OF that] nh by blast
    then show ?thesis using 3(9) [OF 2(8) [OF 1(10) [OF that]]] by blast
  qed
  have "held s3 = held s" unfolding 3(7) 2(6) 1(8) using nh by blast
  then have "log_write_post s d b x lg s3"
    using linv_brelse [OF 2(1) r3(2)] f ow unfolding log_write_post_def 3(4-6,8) 2(3-5,7) 1(4-6,9)
    by blast
  then show ?thesis using r1(1) r2(1) r3(1) bx by (simp add: bupdate_def)
qed

text \<open>Reading a block and releasing it changes nothing a client of the cache can see.\<close>

definition seen_same :: "'a dst_scheme \<Rightarrow> 'a dst_scheme \<Rightarrow> bool" where
  "seen_same s s' \<longleftrightarrow> binv s' \<and> bframe s s' \<and> disks s' = disks s \<and> media s' = media s
     \<and> dtrace s' = dtrace s \<and> blk s' = blk s \<and> held s' = held s \<and> dirtyb s' = dirtyb s
     \<and> (\<forall>j e c. owns s j e c \<longrightarrow> owns s' j e c)"

lemma seen_sameD:
  assumes "seen_same s s'"
  shows "binv s'" "bframe s s'" "disks s' = disks s" "media s' = media s" "dtrace s' = dtrace s"
    "blk s' = blk s" "held s' = held s" "dirtyb s' = dirtyb s"
    "\<And>j e c. owns s j e c \<Longrightarrow> owns s' j e c"
  using assms unfolding seen_same_def by blast+

lemma linv_seen_same: "linv d lg s \<Longrightarrow> seen_same s s' \<Longrightarrow> linv d lg s'"
  using linv_cong [of d lg s s'] seen_sameD [of s s'] getlog_disks [of s' s d] linvD(3) [of d lg s]
  by simp

lemma bread_brelse_spec:
  assumes inv: "binv s" and dev: "ide_dev s d" and b: "b < FSSIZE" and nh: "(d, b) \<notin> held s"
    and room: "buf_room 1 s"
  shows "\<exists>i s1 s2. bread d b s = Inr (i, s1) \<and> b_data (bufs s1 ! i) = blk s d b
    \<and> brelse i s1 = Inr ((), s2) \<and> seen_same s s2"
proof -
  have br: "(d, b) \<in> dirtyb s \<or> card (held s \<union> dirtyb s) < NBUF" using room by (simp add: buf_room_def)
  from bread_spec [OF inv dev b nh br] obtain i s1 where
    r1: "bread d b s = Inr (i, s1)" "bread_post s d b i s1" by blast
  note 1 = bread_postD [OF r1(2)]
  from brelse_spec [OF 1(1,7)] obtain s2 where
    r2: "brelse i s1 = Inr ((), s2)" "brelse_post s1 d b s2" by blast
  note 2 = brelse_postD [OF r2(2)]
  have f: "bframe s s2" using 1(2) 2(2) by (rule bframe_trans)
  have ow: "owns s2 j e c" if "owns s j e c" for j e c
  proof -
    have "(e, c) \<noteq> (d, b)" using owns_held [OF that] nh by blast
    then show ?thesis using 2(9) [OF 1(10) [OF that]] by blast
  qed
  have "held s2 = held s" unfolding 2(7) 1(8) using nh by blast
  then have "seen_same s s2"
    using f ow 2(1) unfolding seen_same_def 2(3-6,8) 1(3-6,9) by blast
  moreover have "b_data (bufs s1 ! i) = blk s d b"
    using owns_bdata [OF 1(1,7)] 1(6) by (simp add: bdata_def)
  ultimately show ?thesis using r1(1) r2(1) by blast
qed

section \<open>Beginning and ending an operation\<close>

text \<open>An update of the counters keeps the log's invariant.\<close>

lemma linv_counters:
  assumes "linv d lg s" and f: "\<And>g. lg_start (f g) = lg_start g \<and> lg_size (f g) = lg_size g
    \<and> lg_dev (f g) = lg_dev g \<and> lg_n (f g) = lg_n g \<and> lg_block (f g) = lg_block g"
  shows "linv d (f lg) (upd_log d f s)"
proof -
  note li = linvD [OF assms(1)]
  note u = upd_log_cache [OF li(7), where f = f]
  have "in_log (f lg) = in_log lg" using f by (simp add: in_log_def fun_eq_iff)
  then have "log_geom d (f lg)" using li(4) f [of lg] by (simp add: log_geom_def)
  then show ?thesis using assms(1) li f [of lg] u by (simp add: linv_def)
qed

lemma begin_op_ok:
  assumes l: "linv d lg s" and "\<not> lg_committing lg"
    and "int (lg_n lg) + (lg_outstanding lg + 1) * int MAXOPBLOCKS \<le> int LOGSIZE"
  shows "\<exists>s'. begin_op d s = Inr ((), s')
    \<and> linv d (lg\<lparr>lg_outstanding := lg_outstanding lg + 1\<rparr>) s'
    \<and> bframe s s' \<and> blk s' = blk s \<and> held s' = held s \<and> dirtyb s' = dirtyb s"
proof -
  note li = linvD [OF l]
  let ?f = "\<lambda>lg. lg\<lparr>lg_outstanding := lg_outstanding lg + 1\<rparr>"
  have "lg_size lg \<noteq> 0" using li(4) by (simp add: log_geom_def)
  then have "begin_op d s = Inr ((), upd_log d ?f s)"
    using li(3) assms(2,3) by (simp add: begin_op_def)
  moreover have "linv d (?f lg) (upd_log d ?f s)" by (rule linv_counters [OF l]) simp
  ultimately show ?thesis using upd_log_cache [OF li(7), where f = ?f] by simp
qed



lemma commit_writes_home:
  assumes "log_geom d lg" "b \<in> set (take (lg_n lg) (lg_block lg))"
  shows "b \<in> fst ` set (commit_writes d lg s)"
proof -
  obtain t where t: "t < lg_n lg" "b = lg_block lg ! t"
    using assms log_geom_blocks(2) [OF assms(1)] by auto
  then have "(b, blk s d b) \<in> set (commit_writes d lg s)"
    by (simp add: commit_writes_def Let_def)
  then show ?thesis by (rule rev_image_eqI) simp
qed

text \<open>
  C17. The last \<^verbatim>\<open>end_op\<close> makes the transaction durable: it commits, after it every block outside the
  log has on the disk the contents its writers gave it, the cache still shows those contents, no
  block of the disk is dirty, and the log is empty with no call in progress.
\<close>

theorem end_op_durable:
  assumes l: "linv d lg s" and h: "held s = {}" "card (dirtyb s) < NBUF"
    and o: "lg_outstanding lg = 1" and c: "\<not> lg_committing lg"
  shows "\<exists>s'. end_op d s = Inr ((), s')
    \<and> (\<forall>b. \<not> in_log lg b \<longrightarrow> dsk s' d b = blk s d b \<and> blk s' d b = blk s d b)
    \<and> (\<forall>b. (d, b) \<notin> dirtyb s') \<and> binv s'
    \<and> getlog d s' = Some (lg\<lparr>lg_n := 0, lg_outstanding := 0, lg_committing := False\<rparr>)"
proof -
  note li = linvD [OF l]
  let ?f = "\<lambda>lg. lg\<lparr>lg_outstanding := lg_outstanding lg - 1\<rparr>" and ?g = "\<lambda>lg. lg\<lparr>lg_committing := True\<rparr>"
  let ?k = "\<lambda>lg. lg\<lparr>lg_committing := False\<rparr>"
  let ?s = "upd_log d ?g (upd_log d ?f s)" and ?l = "?g (?f lg)"
  note u1 = upd_log_cache [OF li(7), where f = ?f]
  have l1: "linv d (?f lg) (upd_log d ?f s)" by (rule linv_counters [OF l]) simp
  note u2 = upd_log_cache [OF linvD(7) [OF l1], where f = ?g]
  have l2: "linv d ?l ?s" by (rule linv_counters [OF l1]) simp
  note li2 = linvD [OF l2]
  have b2: "blk ?s = blk s" "held ?s = {}" "dirtyb ?s = dirtyb s" using u1 u2 h by simp_all
  have cl: "\<exists>s1. commit d ?s = Inr ((), s1) \<and> binv s1 \<and> getlog d s1 = Some (?l\<lparr>lg_n := 0\<rparr>)
    \<and> d < length (disks s1) \<and> (\<forall>b. (d, b) \<notin> dirtyb s1)
    \<and> (\<forall>b. \<not> in_log lg b \<longrightarrow> dsk s1 d b = blk s d b)"
  proof (cases "lg_n lg = 0")
    case True
    then have "?l\<lparr>lg_n := 0\<rparr> = ?l" by simp
    moreover have nd: "(d, b) \<notin> dirtyb ?s" for b using l2 True by (simp add: linv_def)
    moreover have "commit d ?s = Inr ((), ?s)" using li2(3) True by (simp add: commit_def)
    ultimately show ?thesis using li2 clean_blk_dsk [OF li2(1), of d] b2(1) by auto
  next
    case False
    have r: "commit_ready d ?l ?s" using l2 b2 h by (simp add: commit_ready_def)
    from commit_ok [OF r] False obtain s1 where
      s1: "commit d ?s = Inr ((), s1)" "wrote d (commit_writes d ?l ?s) ?s s1"
        "getlog d s1 = Some (?l\<lparr>lg_n := 0\<rparr>)" by auto
    note w = wroteD [OF s1(2)]
    have "(d, b) \<notin> dirtyb s1" for b
    proof -
      have "(d, b) \<in> dirtyb ?s \<Longrightarrow> b \<in> set (take (lg_n ?l) (lg_block ?l))"
        using l2 unfolding linv_def by blast
      then show ?thesis using commit_writes_home [OF li2(4)] unfolding w(4) by blast
    qed
    moreover have "dsk s1 d b = blk s d b" if "\<not> in_log lg b" for b
    proof -
      have M: "\<forall>b. b \<notin> set (take (lg_n ?l) (lg_block ?l)) \<longrightarrow> blk ?s d b = dsk ?s d b"
        using clean_blk_dsk [OF li2(1), of d] l2 by (auto simp: linv_def)
      have "in_log ?l = in_log lg" by (simp add: in_log_def fun_eq_iff)
      then show ?thesis
        using wrote_dsk [OF s1(2) li2(1,2)] that b2(1)
          crash_after(2) [OF li2(4) refl refl _ M, of "2 * lg_n ?l + 2" b]
        by (simp add: commit_writes_def Let_def)
    qed
    ultimately show ?thesis using s1 w(1) bframe_disk(1) [OF w(2)] li2(7) by auto
  qed
  then obtain s1 where s1: "commit d ?s = Inr ((), s1)" "binv s1" "getlog d s1 = Some (?l\<lparr>lg_n := 0\<rparr>)"
    "d < length (disks s1)" "\<And>b. (d, b) \<notin> dirtyb s1"
    "\<And>b. \<not> in_log lg b \<Longrightarrow> dsk s1 d b = blk s d b" by blast
  let ?t = "upd_log d ?k s1"
  let ?e = "wakeup (ChLog d) ?t"
  note u3 = upd_log_cache [OF s1(4), where f = ?k]
  obtain ps where ps: "?e = ?t\<lparr>procs := ps\<rparr>" using wakeup_frame by blast
  have e: "end_op d s = Inr ((), ?e)"
    using li(3,4) o c s1(1) by (simp add: end_op_def log_geom_def Let_def)
  have "getlog d ?e = getlog d ?t" by (rule getlog_disks) simp
  then have "getlog d ?e = Some (lg\<lparr>lg_n := 0, lg_outstanding := 0, lg_committing := False\<rparr>)"
    using s1(3,4) o by simp
  moreover have "dirtyb ?e = dirtyb s1" "binv ?e" "dsk ?e = dsk s1"
    unfolding ps using u3 s1(2) by (auto simp: dirtyb_def fun_eq_iff)
  moreover have "blk ?e d b = dsk ?e d b" for b
    using clean_blk_dsk [of ?e d b] calculation(2,3) s1(5) by simp
  ultimately show ?thesis using e s1(5,6) by auto
qed

text \<open>A booted machine with an empty log on disk 0 and one call in progress, and the same machine
  after that call has logged block 100.\<close>

lemma hw_ok_upd_disk:
  assumes "hw_ok s" "\<And>k. dk_diskrw (f k) = dk_diskrw k \<and> dk_driver_device (f k) = dk_driver_device k"
  shows "hw_ok (upd_disk d f s)" "ide_dev (upd_disk d f s) = ide_dev s"
proof -
  have u: "disks (upd_disk d f s) ! e = (if d = e \<and> d < length (disks s) then f (disks s ! e) else disks s ! e)" for e
  proof (cases "d < length (disks s)")
    case False
    then show ?thesis by (simp add: upd_disk_def list_update_beyond)
  qed (simp add: upd_disk_def)
  have n: "dk_diskrw (disks (upd_disk d f s) ! e) = dk_diskrw (disks s ! e)"
    "dk_driver_device (disks (upd_disk d f s) ! e) = dk_driver_device (disks s ! e)" for e
    unfolding u using assms(2) by simp_all
  then show e: "ide_dev (upd_disk d f s) = ide_dev s" by (simp add: ide_dev_def fun_eq_iff)
  have "drive x (upd_disk d f s) = drive x s" for x using n by (simp add: drive_def realdisk_def)
  then show "hw_ok (upd_disk d f s)" using assms(1) e by (simp add: hw_ok_def) (simp add: upd_disk_def)
qed

definition log0 :: log where
  "log0 = zero_log\<lparr>lg_start := 2, lg_size := 30, lg_outstanding := 1\<rparr>"

definition logged0 :: dst where
  "logged0 = binit (upd_disk 0 (\<lambda>k. k\<lparr>dk_mounted := True,
     dk_sb := zero_sb\<lparr>sb_nlog := 30, sb_logstart := 2\<rparr>, dk_log := Some log0\<rparr>) boot0)"

definition tx0 :: dst where
  "tx0 = snd (projr (bupdate 0 100 (\<lambda>_. replicate BSIZE 9) logged0))"

lemma logged0_ok:
  "linv 0 log0 logged0" "held logged0 = {}" "dirtyb logged0 = {}"
  "dk_sb (disks logged0 ! 0) = zero_sb\<lparr>sb_nlog := 30, sb_logstart := 2\<rparr>"
proof -
  let ?f = "\<lambda>k. k\<lparr>dk_mounted := True, dk_sb := zero_sb\<lparr>sb_nlog := 30, sb_logstart := 2\<rparr>,
      dk_log := Some log0\<rparr>"
  have hw: "hw_ok (upd_disk 0 ?f boot0)" "ide_dev (upd_disk 0 ?f boot0) = ide_dev boot0"
    by (rule hw_ok_upd_disk [OF hw_ok_boot0]; simp)+
  note b = binit_idle [OF hw(1), folded logged0_def]
  have l: "0 < length (disks boot0)" using boot0_fields(4) by (simp add: DISKMAX_def)
  then show "dk_sb (disks logged0 ! 0) = zero_sb\<lparr>sb_nlog := 30, sb_logstart := 2\<rparr>"
    by (simp add: logged0_def binit_def upd_disk_def)
  show "held logged0 = {}" "dirtyb logged0 = {}" using b(1) by (auto simp: cache_idle_def)
  have dev: "ide_dev logged0 0"
    using fun_cong [OF b(3), of "(0, 0)"] hw(2) boot0_ide_dev [of 0] by (simp add: cache_ok_def FSSIZE_def)
  have "getlog 0 logged0 = Some log0"
    using l by (simp add: logged0_def binit_def upd_disk_def getlog_def diskmounted_def)
  moreover have "log_geom 0 log0"
    by (simp add: log_geom_def log0_def zero_log_def FSSIZE_def LOGSIZE_def)
  moreover have "media logged0 = (\<lambda>_ _. replicate BSIZE 0)"
    by (simp add: logged0_def binit_def upd_disk_def boot0_fields)
  then have "hdr_n (dsk logged0 0 (lg_start log0)) = 0"
    using dev by (simp add: dsk_def hdr_n_def slice_def BSIZE_def unle32_def)
  ultimately show "linv 0 log0 logged0"
    using b(1) dev \<open>dirtyb logged0 = {}\<close> by (simp add: linv_def cache_idle_def) (simp add: log0_def zero_log_def)
qed

lemma tx0_ok:
  "linv 0 (log_add 100 log0) tx0" "held tx0 = {}" "dirtyb tx0 = {(0, 100)}"
  "blk tx0 0 100 = replicate BSIZE 9" "dsk tx0 0 100 = replicate BSIZE 0"
  "dk_sb (disks tx0 ! 0) = zero_sb\<lparr>sb_nlog := 30, sb_logstart := 2\<rparr>"
proof -
  have r: "log_room log0 1" "buf_room 1 logged0" "\<not> in_log log0 100"
    using logged0_ok by (simp_all add: log_room_def buf_room_def log0_def zero_log_def in_log_def
        LOGSIZE_def NBUF_def)
  obtain s where s: "bupdate 0 100 (\<lambda>_. replicate BSIZE 9) logged0 = Inr ((), s)"
    "log_write_post logged0 0 100 (replicate BSIZE 9) log0 s"
    using bupdate_spec [OF logged0_ok(1) _ r(3) _ r(1,2) refl, of "\<lambda>_. replicate BSIZE 9"] logged0_ok(2)
    by (auto simp: FSSIZE_def)
  have t: "tx0 = s" by (simp add: tx0_def s(1))
  note p = log_write_postD [OF s(2)]
  show "linv 0 (log_add 100 log0) tx0" "held tx0 = {}" "dirtyb tx0 = {(0, 100)}"
    "blk tx0 0 100 = replicate BSIZE 9"
    using p logged0_ok by (simp_all add: t)
  have dl: "(0::nat) < length (disks logged0)" using linvD(7) [OF logged0_ok(1)] .
  show "dk_sb (disks tx0 ! 0) = zero_sb\<lparr>sb_nlog := 30, sb_logstart := 2\<rparr>"
    using bframe_disk(2) [OF p(2) dl] logged0_ok(4) by (auto simp: t)
  have "media s = (\<lambda>_ _. replicate BSIZE 0)"
    using p(3) by (simp add: logged0_def binit_def upd_disk_def boot0_fields)
  then show "dsk tx0 0 100 = replicate BSIZE 0" by (simp add: t dsk_def)
qed

theorem commit_crash_atomic_witness:
  "\<exists>s' ws. commit 0 tx0 = Inr ((), s') \<and> dtrace s' = dtrace tx0 @ ws
    \<and> dsk s' 0 100 = replicate BSIZE 9
    \<and> (\<exists>s2. initlog 0 (reboot 0 (apply_writes (take 1 ws) (media tx0)) tx0) = Inr ((), s2)
         \<and> dsk s2 0 100 = replicate BSIZE 0)
    \<and> (\<exists>s2. initlog 0 (reboot 0 (apply_writes (take 2 ws) (media tx0)) tx0) = Inr ((), s2)
         \<and> dsk s2 0 100 = replicate BSIZE 9)"
proof -
  have n: "lg_n (log_add 100 log0) = 1" by (simp add: log_add_def log_slot_def log0_def zero_log_def)
  have r: "commit_ready 0 (log_add 100 log0) tx0"
    using tx0_ok by (simp add: commit_ready_def NBUF_def)
  have i: "\<not> in_log (log_add 100 log0) 100" by (simp add: in_log_def log0_def)
  have sb: "sb_logstart (dk_sb (disks tx0 ! 0)) = lg_start (log_add 100 log0)"
    "sb_nlog (dk_sb (disks tx0 ! 0)) = lg_size (log_add 100 log0)"
    using tx0_ok(6) by (simp_all add: log0_def)
  have n0: "0 < lg_n (log_add 100 log0)" using n by simp
  from commit_crash_atomic [OF r n0 sb] obtain s' ws where
    w: "commit 0 tx0 = Inr ((), s')" "dtrace s' = dtrace tx0 @ ws" "dsk s' 0 100 = blk tx0 0 100"
    "\<forall>k. \<exists>s2. initlog 0 (reboot 0 (apply_writes (take k ws) (media tx0)) tx0) = Inr ((), s2)
       \<and> dsk s2 0 100 = (if k \<le> lg_n (log_add 100 log0) then dsk tx0 0 100 else blk tx0 0 100)"
    using i by blast
  show ?thesis
    using w(1,2,3) w(4) [rule_format, of 1] w(4) [rule_format, of 2] n tx0_ok(4,5) by simp
qed

theorem end_op_durable_witness:
  "\<exists>s'. end_op 0 tx0 = Inr ((), s') \<and> dsk s' 0 100 = replicate BSIZE 9"
proof -
  have "lg_outstanding (log_add 100 log0) = 1" "\<not> lg_committing (log_add 100 log0)"
    by (simp_all add: log0_def zero_log_def)
  moreover have "\<not> in_log (log_add 100 log0) 100" by (simp add: in_log_def log0_def)
  ultimately show ?thesis
    using end_op_durable [OF tx0_ok(1,2)] tx0_ok(3,4) by (auto simp: NBUF_def)
qed

end
