(* ===== verification/Txn.thy ===== *)
theory Txn
  imports Log
begin

text \<open>
  What a file-system operation needs of the log and of the buffer cache while it runs inside a
  transaction, and how it changes them: \<open>tx d lz k s\<close> (disk \<open>d\<close> is in a transaction with room for
  \<open>k\<close> more blocks, and \<open>lz\<close> is the region of the log) and \<open>lstep d ws s s'\<close> (the blocks \<open>ws\<close> of disk
  \<open>d\<close> were logged, nothing else changed). The lemmas here are the rules the proofs about \<^verbatim>\<open>fs.c\<close>
  are made of.
\<close>

section \<open>What the block layer leaves alone\<close>

text \<open>Whenever an operation of the block layer returns, it has changed nothing above it, and in the
  process table it has at most woken sleepers.\<close>

definition dframe :: "'a dst_scheme \<Rightarrow> 'a dst_scheme \<Rightarrow> bool" where
  "dframe s s' \<longleftrightarrow> dst.more s' = dst.more s \<and> curproc s' = curproc s \<and> initproc s' = initproc s
     \<and> nextpid s' = nextpid s \<and> first s' = first s \<and> singleuser s' = singleuser s
     \<and> allowthreads s' = allowthreads s \<and> useclone s' = useclone s \<and> msgnote s' = msgnote s
     \<and> halted s' = halted s \<and> booted s' = booted s \<and> ticks s' = ticks s \<and> wakes (procs s) (procs s')"

abbreviation stays :: "('a dst_scheme \<Rightarrow> ('a dst_scheme, 'b) outcome) \<Rightarrow> bool" where
  "stays f \<equiv> (\<forall>s. ifret (f s) (\<lambda>(_, s'). dframe s s'))"

lemma dframe_refl [simp]: "dframe s s"
  by (simp add: dframe_def)

lemma dframe_trans: "dframe s s' \<Longrightarrow> dframe s' s'' \<Longrightarrow> dframe s s''"
  by (auto simp: dframe_def intro: wakes_trans)

lemma dframe_simps [simp]:
  "dframe s (upd_buf i f s')= dframe s s'" "dframe s (upd_disk d g s') = dframe s s'"
  "dframe s (upd_log d h s') = dframe s s'" "dframe s (set_data i x s') = dframe s s'"
  "dframe s (s'\<lparr>lru := l\<rparr>) = dframe s s'" "dframe s (s'\<lparr>idequeue := q\<rparr>) = dframe s s'"
  "dframe s (s'\<lparr>media := m\<rparr>) = dframe s s'" "dframe s (s'\<lparr>ide_errs := e\<rparr>) = dframe s s'"
  "dframe s (s'\<lparr>dtrace := t\<rparr>) = dframe s s'" "dframe s (s'\<lparr>bufs := b\<rparr>) = dframe s s'"
  by (simp_all add: dframe_def upd_buf_def upd_disk_def upd_log_def set_data_def)

lemma dframe_wakeup [simp]: "dframe s s' \<Longrightarrow> dframe s (wakeup c s')"
  using wakes_trans [of "procs s" "procs s'" "procs (wakeup c s')"]
  by (auto simp: dframe_def wakeup_def wakeup1_def wakes_def list_all2_conv_all_nth)

lemma stays_bnd:
  assumes "stays f" "\<And>x. stays (g x)"
  shows "ifret (bnd (f s) (\<lambda>(x, s). g x s)) (\<lambda>(_, s'). dframe s s')"
proof (cases "f s")
  case (Inr a)
  obtain x t where a: "a = (x, t)" by fastforce
  have "dframe s t" using assms(1) [rule_format, of s] Inr a by simp
  then show ?thesis using assms(2) [of x, rule_format, of t] Inr a
    by (cases "g x t") (auto intro: dframe_trans)
qed simp

lemma stays_idestart: "stays (idestart i)"
  by (simp add: idestart_def Let_def)

lemma stays_ideintr: "stays ideintr"
proof
  fix s :: "'a dst_scheme"
  show "ifret (ideintr s) (\<lambda>(_, s'). dframe s s')"
  proof (cases "idequeue s")
    case (Some i)
    let ?w = "\<lambda>s2. wakeup (ChBuf i) (upd_buf i (\<lambda>b. b\<lparr>b_valid := True, b_dirty := False\<rparr>) s2)"
    have "ifret (case idequeue (?w s2) of Some j \<Rightarrow> idestart j (?w s2) | None \<Rightarrow> Inr ((), ?w s2)) (\<lambda>(_, s'). dframe s s')"
      if "dframe s s2" for s2
    proof (cases "idequeue (?w s2)")
      case (Some j)
      have "dframe s (?w s2)" using that by simp
      then show ?thesis using stays_idestart [of j, rule_format, of "?w s2"] Some
        by (cases "idestart j (?w s2)") (auto intro: dframe_trans)
    qed (use that in simp)
    then show ?thesis using Some by (simp add: ideintr_def Let_def split: list.split)
  qed (simp add: ideintr_def)
qed

lemma stays_ide_wait: "stays (ide_wait k i :: 'a dst_scheme \<Rightarrow> _)"
proof (induction k)
  case (Suc k)
  have "ifret (bnd (ideintr s) (\<lambda>(_, s). ide_wait k i s)) (\<lambda>(_, s'). dframe s s')" for s :: "'a dst_scheme"
    by (rule stays_bnd [OF stays_ideintr, where g = "\<lambda>_. ide_wait k i"]) (rule Suc)
  then show ?case by (simp del: ifret_bnd)
qed (simp add: sleep_def split: option.split)

lemma dframe_ide_enqueue [simp]: "dframe s (ide_enqueue i s)"
  by (simp add: ide_enqueue_def Let_def split: option.split)

named_theorems df \<open>operations that stay inside the block layer, as destruction rules\<close>

lemma iderw_df [df]: "iderw i s = Inr (r, s') \<Longrightarrow> dframe s s'"
proof -
  assume "iderw i s = Inr (r, s')"
  then obtain s1 where "s1 = ide_enqueue i s \<or> idestart i (ide_enqueue i s) = Inr ((), s1)"
    "ide_wait NBUF i s1 = Inr (r, s')"
    by (auto simp: iderw_def Let_def bnd_eq_Inr split: if_splits)
  moreover have "dframe (ide_enqueue i s) s1"
    using calculation(1) stays_idestart [of i, rule_format, of "ide_enqueue i s"] by auto
  moreover have "dframe s1 s'"
    using calculation(2) stays_ide_wait [of NBUF i, rule_format, of s1] by simp
  ultimately show ?thesis using dframe_trans [OF dframe_trans [OF dframe_ide_enqueue]] by blast
qed

lemma diskrw_df [df]: "diskrw i s = Inr (r, s') \<Longrightarrow> dframe s s'"
  by (auto simp: diskrw_def Let_def split: if_splits option.splits driver.splits dest: iderw_df)

lemma bget_df [df]: "bget d b s = Inr (i, s') \<Longrightarrow> dframe s s'"
  by (auto simp: bget_def sleep_def split: if_splits option.splits)

lemma bread_df [df]: "bread d b s = Inr (i, s') \<Longrightarrow> dframe s s'"
  by (auto simp: bread_def bnd_eq_Inr split: if_splits dest!: bget_df diskrw_df intro: dframe_trans)

lemma bwrite_df [df]: "bwrite i s = Inr (r, s') \<Longrightarrow> dframe s s'"
  using diskrw_df [of i "upd_buf i (\<lambda>b. b\<lparr>b_dirty := True\<rparr>) s" r s']
    dframe_trans [of s "upd_buf i (\<lambda>b. b\<lparr>b_dirty := True\<rparr>) s" s']
  by (auto simp: bwrite_def split: if_splits)

lemma brelse_df [df]: "brelse i s = Inr (r, s') \<Longrightarrow> dframe s s'"
  by (auto simp: brelse_def Let_def split: if_splits)

lemma log_write_df [df]: "log_write i s = Inr (r, s') \<Longrightarrow> dframe s s'"
  by (auto simp: log_write_def Let_def split: if_splits option.splits dest: bwrite_df)

lemma log_write_set_df [df]: "log_write i (set_data i x s) = Inr (r, s') \<Longrightarrow> dframe s s'"
  using log_write_df [of i "set_data i x s" r s'] dframe_trans [of s "set_data i x s" s'] by simp

section \<open>Transactions\<close>

definition lstep :: "nat \<Rightarrow> (nat \<times> bytes) list \<Rightarrow> 'a dst_scheme \<Rightarrow> 'a dst_scheme \<Rightarrow> bool" where
  "lstep d ws s s' \<longleftrightarrow> bframe s s' \<and> media s' = media s \<and> dtrace s' = dtrace s
     \<and> blk s' = (blk s)(d := puts ws (blk s d)) \<and> held s' = held s
     \<and> dirtyb s' = dirtyb s \<union> Pair d ` fst ` set ws \<and> (ws = [] \<longrightarrow> disks s' = disks s)
     \<and> (\<forall>j e c. owns s j e c \<longrightarrow> owns s' j e c)"

lemma lstepD:
  assumes "lstep d ws s s'"
  shows "bframe s s'" "media s' = media s" "dtrace s' = dtrace s"
    "blk s' = (blk s)(d := puts ws (blk s d))" "held s' = held s"
    "dirtyb s' = dirtyb s \<union> Pair d ` fst ` set ws" "\<And>j e c. owns s j e c \<Longrightarrow> owns s' j e c"
    "ws = [] \<Longrightarrow> disks s' = disks s"
  using assms unfolding lstep_def by blast+

lemma lstep_refl: "lstep d [] s s"
  by (simp add: lstep_def)

lemma puts_append [simp]: "puts (ws @ vs) m = puts vs (puts ws m)"
  by (induction ws arbitrary: m) auto

lemma lstep_trans:
  assumes "lstep d ws s s'" "lstep d vs s' s''"
  shows "lstep d (ws @ vs) s s''"
proof -
  note 1 = lstepD [OF assms(1)] and 2 = lstepD [OF assms(2)]
  have "bframe s s''" using 1(1) 2(1) by (rule bframe_trans)
  moreover have "blk s'' = (blk s)(d := puts (ws @ vs) (blk s d))" unfolding 2(4) 1(4) by simp
  moreover have "dirtyb s'' = dirtyb s \<union> Pair d ` fst ` set (ws @ vs)" unfolding 2(6) 1(6) by auto
  ultimately show ?thesis
    unfolding lstep_def using 1(2,3,5,7,8) 2(2,3,5,7,8) by simp
qed

definition tx :: "nat \<Rightarrow> (nat \<Rightarrow> bool) \<Rightarrow> nat \<Rightarrow> 'a dst_scheme \<Rightarrow> bool" where
  "tx d lz k s \<longleftrightarrow> (\<exists>lg. linv d lg s \<and> log_room lg k \<and> buf_room (k + 2) s \<and> in_log lg = lz)"

lemma txD:
  assumes "tx d lz k s"
  shows "binv s" "ide_dev s d" "d < length (disks s)" "buf_room 1 s"
  using assms linvD [of d _ s] by (auto simp: tx_def buf_room_def)

lemma tx_less: "tx d lz k s \<Longrightarrow> j \<le> k \<Longrightarrow> tx d lz j s"
  unfolding tx_def log_room_def buf_room_def by (elim exE conjE, intro exI conjI) auto

lemma seen_same_lstep: "seen_same s s' \<Longrightarrow> lstep d [] s s'"
  by (simp add: seen_same_def lstep_def)

lemma tx_seen_same: "tx d lz k s \<Longrightarrow> seen_same s s' \<Longrightarrow> tx d lz k s'"
  using linv_seen_same [of d _ s s'] seen_sameD [of s s'] by (auto simp: tx_def buf_room_def)

lemma lstep_superblock:
  assumes "lstep d ws s s'" "e < length (disks s)"
  shows "getsuperblock e s' = getsuperblock e s"
  using bframe_getsuperblock(1) [OF lstepD(1) [OF assms(1)] assms(2)] .

text \<open>Reading needs less: no transaction, only a buffer to read into.\<close>

definition rd :: "nat \<Rightarrow> 'a dst_scheme \<Rightarrow> bool" where
  "rd d s \<longleftrightarrow> binv s \<and> ide_dev s d \<and> buf_room 1 s"

lemma tx_rd: "tx d lz k s \<Longrightarrow> rd d s"
  using txD by (auto simp: rd_def)

lemma rd_read:
  assumes "rd d s" "b < FSSIZE" "(d, b) \<notin> held s"
  shows "\<exists>i s1 s2. bread d b s = Inr (i, s1) \<and> b_data (bufs s1 ! i) = blk s d b
    \<and> brelse i s1 = Inr ((), s2) \<and> lstep d [] s s2 \<and> rd d s2"
proof -
  have r: "binv s" "ide_dev s d" "buf_room 1 s" using assms(1) by (auto simp: rd_def)
  obtain i s1 s2 where 1: "bread d b s = Inr (i, s1)" "b_data (bufs s1 ! i) = blk s d b"
    "brelse i s1 = Inr ((), s2)" "seen_same s s2"
    using bread_brelse_spec [OF r(1,2) assms(2,3) r(3)] by blast
  have "rd d s2" using seen_sameD [OF 1(4)] r by (simp add: rd_def buf_room_def ide_dev_def)
  then show ?thesis using 1 seen_same_lstep by blast
qed

lemma tx_lstep_nil:
  assumes "tx d lz k s" "lstep d [] s s'" "rd d s'"
  shows "tx d lz k s'"
proof -
  note l = lstepD [OF assms(2)]
  have "linv d lg s'" if "linv d lg s" for lg
    using linv_cong [OF that _ l(1)] assms(3) getlog_disks [of s' s] linvD(3) [OF that] l(2,6,8)
    by (simp add: rd_def)
  then show ?thesis using assms(1) l(5,6) by (auto simp: tx_def buf_room_def)
qed

lemma tx_read:
  assumes "tx d lz k s" "b < FSSIZE" "(d, b) \<notin> held s"
  shows "\<exists>i s1 s2. bread d b s = Inr (i, s1) \<and> b_data (bufs s1 ! i) = blk s d b
    \<and> brelse i s1 = Inr ((), s2) \<and> lstep d [] s s2 \<and> tx d lz k s2"
  using bread_brelse_spec [OF txD(1,2) [OF assms(1)] assms(2,3) txD(4) [OF assms(1)]]
    seen_same_lstep tx_seen_same [OF assms(1)] by blast

lemma buf_room_insert: "buf_room (k + 1) s \<Longrightarrow> held s' = held s \<Longrightarrow> dirtyb s' = insert p (dirtyb s) \<Longrightarrow>
    buf_room k s'"
  unfolding buf_room_def by (simp add: card_insert_if)

lemma tx_log_write:
  assumes "linv d lg s" "log_room lg (Suc k)" "buf_room (Suc k + 2) s" "log_write_post s d b x lg s'"
    "b < FSSIZE" "\<not> in_log lg b"
  shows "lstep d [(b, x)] s s'" "tx d (in_log lg) k s'"
proof -
  note p = log_write_postD [OF assms(4)]
  show "lstep d [(b, x)] s s'" using p by (simp add: lstep_def)
  have "lg_n (log_add b lg) \<le> lg_n lg + 1"
    using log_add_ok(2) [of d lg b] linvD(4) [OF assms(1)] assms(2,5,6) by (simp add: log_room_def)
  then have "log_room (log_add b lg) k" using assms(2) by (simp add: log_room_def)
  moreover have "buf_room (k + 2) s'"
    using buf_room_insert [of "k + 2" s s' "(d, b)"] assms(3) p(6,7) by simp
  ultimately show "tx d (in_log lg) k s'" unfolding tx_def using p(1) by auto
qed

lemma tx_update:
  assumes "tx d lz (Suc k) s" "b < FSSIZE" "\<not> lz b" "(d, b) \<notin> held s"
    and "x = f (blk s d b)" "length x = BSIZE"
  shows "\<exists>s'. bupdate d b f s = Inr ((), s') \<and> lstep d [(b, x)] s s' \<and> tx d lz k s'"
proof -
  obtain lg where lg: "linv d lg s" "log_room lg (Suc k)" "buf_room (Suc k + 2) s" "in_log lg = lz"
    using assms(1) by (auto simp: tx_def)
  have r: "log_room lg 1" "buf_room 1 s" using lg(2,3) by (auto simp: log_room_def buf_room_def)
  obtain s' where s': "bupdate d b f s = Inr ((), s')" "log_write_post s d b x lg s'"
    using bupdate_spec [where f = f, OF lg(1) assms(2) _ assms(4) r assms(5,6)] assms(3) lg(4) by blast
  show ?thesis
    using s'(1) tx_log_write [OF lg(1-3) s'(2) assms(2)] lg(4) assms(3) by auto
qed

text \<open>Read a block, look at it, and either release it or change, log and release it.\<close>

lemma tx_rmw:
  assumes "tx d lz k s" "b < FSSIZE" "(d, b) \<notin> held s"
  shows "\<exists>i s1. bread d b s = Inr (i, s1) \<and> b_data (bufs s1 ! i) = blk s d b
    \<and> (\<exists>s2. brelse i s1 = Inr ((), s2) \<and> lstep d [] s s2 \<and> tx d lz k s2)
    \<and> (\<forall>x j. \<not> lz b \<longrightarrow> k = Suc j \<longrightarrow> length x = BSIZE \<longrightarrow>
        (\<exists>s2 s3. log_write i (set_data i x s1) = Inr ((), s2) \<and> brelse i s2 = Inr ((), s3)
          \<and> lstep d [(b, x)] s s3 \<and> tx d lz j s3))"
proof -
  from tx_read [OF assms] obtain i s1 s2 where
    r: "bread d b s = Inr (i, s1)" "b_data (bufs s1 ! i) = blk s d b"
      "brelse i s1 = Inr ((), s2)" "lstep d [] s s2" "tx d lz k s2" by blast
  have "\<exists>s2 s3. log_write i (set_data i x s1) = Inr ((), s2) \<and> brelse i s2 = Inr ((), s3)
      \<and> lstep d [(b, x)] s s3 \<and> tx d lz j s3" if x: "\<not> lz b" "k = Suc j" "length x = BSIZE" for x j
  proof -
    have t: "tx d lz (Suc j) s" using assms(1) x(2) by simp
    from tx_update [where f = "\<lambda>_. x", OF t assms(2) x(1) assms(3) refl x(3)] obtain s3 where
      u: "bupdate d b (\<lambda>_. x) s = Inr ((), s3)" "lstep d [(b, x)] s s3" "tx d lz j s3" by blast
    from u(1) show ?thesis using u(2,3) r(1) by (auto simp: bupdate_def bnd_eq_Inr)
  qed
  then show ?thesis using r by blast
qed

text \<open>A held buffer costs one place in the cache while it is held.\<close>

lemma tx_read_hold:
  assumes "tx d lz k s" "b < FSSIZE" "(d, b) \<notin> held s"
  shows "\<exists>i s1. bread d b s = Inr (i, s1) \<and> bread_post s d b i s1 \<and> b_data (bufs s1 ! i) = blk s d b"
proof -
  have "card (held s \<union> dirtyb s) < NBUF" using txD(4) [OF assms(1)] by (simp add: buf_room_def)
  then obtain i s1 where r: "bread d b s = Inr (i, s1)" "bread_post s d b i s1"
    using bread_spec [OF txD(1,2) [OF assms(1)] assms(2,3)] by blast
  note 1 = bread_postD [OF r(2)]
  have "b_data (bufs s1 ! i) = blk s d b" using owns_bdata [OF 1(1,7)] 1(6) by (simp add: bdata_def)
  then show ?thesis using r by blast
qed

section \<open>A mounted disk\<close>

text \<open>A machine with disk 0 mounted: contents \<open>m\<close>, super block \<open>sb\<close>, an empty log in blocks 2 to 31 and
  one call in progress.\<close>

definition mounted_on :: "(nat \<Rightarrow> bytes) \<Rightarrow> superblock \<Rightarrow> dst" where
  "mounted_on m sb = binit (upd_disk 0 (\<lambda>k. k\<lparr>dk_mounted := True, dk_sb := sb, dk_log := Some log0\<rparr>)
     (boot0\<lparr>media := (\<lambda>_. m)\<rparr>))"

lemma hw_ok_media:
  assumes "hw_ok s" "\<forall>d b. length (m d b) = BSIZE"
  shows "hw_ok (s\<lparr>media := m\<rparr>)"
  using assms by (simp add: hw_ok_def)

definition zone0 :: "nat \<Rightarrow> bool" where
  "zone0 b \<longleftrightarrow> 2 \<le> b \<and> b < 32"

lemma mounted_on_ok:
  assumes m: "\<And>b. length (m b) = BSIZE" and h: "hdr_n (m 2) = 0"
  shows "tx 0 zone0 28 (mounted_on m sb)" "held (mounted_on m sb) = {}" "dirtyb (mounted_on m sb) = {}"
    "blk (mounted_on m sb) 0 = m" "getsuperblock 0 (mounted_on m sb) = Some sb"
    "linv 0 log0 (mounted_on m sb)"
proof -
  let ?f = "\<lambda>k. k\<lparr>dk_mounted := True, dk_sb := sb, dk_log := Some log0\<rparr>"
  let ?b = "boot0\<lparr>media := (\<lambda>_. m)\<rparr>" and ?s = "mounted_on m sb"
  have hw: "hw_ok (upd_disk 0 ?f ?b)" "ide_dev (upd_disk 0 ?f ?b) = ide_dev ?b"
    by (rule hw_ok_upd_disk [OF hw_ok_media [OF hw_ok_boot0]]; use m in simp)+
  note b = binit_idle [OF hw(1), folded mounted_on_def]
  have l: "0 < length (disks boot0)" using boot0_fields(4) by (simp add: DISKMAX_def)
  then show sb: "getsuperblock 0 ?s = Some sb"
    by (simp add: mounted_on_def binit_def upd_disk_def getsuperblock_def diskmounted_def)
  show hd: "held ?s = {}" "dirtyb ?s = {}" using b(1) by (auto simp: cache_idle_def)
  have dev: "ide_dev ?s 0"
    using fun_cong [OF b(3), of "(0, 0)"] hw(2) boot0_ide_dev [of 0] by (simp add: cache_ok_def FSSIZE_def ide_dev_def)
  have md: "media ?s = (\<lambda>_. m)" by (simp add: mounted_on_def binit_def upd_disk_def)
  then have dk: "dsk ?s 0 = m" using dev by (simp add: dsk_def fun_eq_iff)
  moreover have "binv ?s" using b(1) by (simp add: cache_idle_def)
  ultimately show "blk ?s 0 = m" using clean_blk_dsk [of ?s 0] hd(2) by (simp add: fun_eq_iff)
  have "getlog 0 ?s = Some log0"
    using l by (simp add: mounted_on_def binit_def upd_disk_def getlog_def diskmounted_def)
  moreover have "log_geom 0 log0"
    by (simp add: log_geom_def log0_def zero_log_def FSSIZE_def LOGSIZE_def)
  ultimately show li: "linv 0 log0 ?s"
    using \<open>binv ?s\<close> dev hd h by (simp add: linv_def dk) (simp add: log0_def zero_log_def)
  have "in_log log0 = zone0" by (simp add: in_log_def log0_def zero_log_def zone0_def fun_eq_iff)
  moreover have "log_room log0 28" by (simp add: log_room_def log0_def zero_log_def LOGSIZE_def)
  moreover have "buf_room 30 ?s" by (simp add: buf_room_def hd NBUF_def)
  ultimately show "tx 0 zone0 28 ?s" unfolding tx_def using li by auto
qed

text \<open>The disk view does not depend on the state of the layers above.\<close>

definition dsame :: "'a dst_scheme \<Rightarrow> 'b dst_scheme \<Rightarrow> bool" where
  "dsame s t \<longleftrightarrow> disks s = disks t \<and> bufs s = bufs t \<and> lru s = lru t \<and> idequeue s = idequeue t
     \<and> media s = media t \<and> ide_errs s = ide_errs t \<and> dtrace s = dtrace t"

lemma dsame_views:
  assumes "dsame s t"
  shows "getsuperblock d s = getsuperblock d t" "getlog d s = getlog d t" "ide_dev s = ide_dev t"
    "dsk s = dsk t" "caches s = caches t" "held s = held t" "dirtyb s = dirtyb t" "owns s = owns t"
  using assms by (auto simp: dsame_def getsuperblock_def diskmounted_def getlog_def ide_dev_def dsk_def
      drive_def realdisk_def caches_def held_def dirtyb_def owns_def fun_eq_iff)

lemma dsame_cache:
  assumes "dsame s t"
  shows "blk s = blk t" "binv s = binv t" "buf_room k s = buf_room k t" "linv d lg s = linv d lg t"
    "tx d lz k s = tx d lz k t" "ide_dev s d = ide_dev t d"
proof -
  note v = dsame_views [OF assms]
  have e: "bufs s = bufs t" "disks s = disks t" "lru s = lru t" "idequeue s = idequeue t"
    "media s = media t" "ide_errs s = ide_errs t" using assms by (auto simp: dsame_def)
  have dr: "drive d s = drive d t" for d using e(2) by (simp add: drive_def realdisk_def)
  show "blk s = blk t" unfolding blk_def v(4,5) e(1) ..
  show b: "binv s = binv t" using v e dr by (simp add: binv_def bufok_def)
  show r: "buf_room k s = buf_room k t" for k using v by (simp add: buf_room_def)
  show l: "linv d lg s = linv d lg t" for lg using v b by (simp add: linv_def)
  show "tx d lz k s = tx d lz k t" using l r by (simp add: tx_def)
  show "ide_dev s d = ide_dev t d" using v by simp
qed

lemma dsame_extend: "dsame (dst.extend s m) s"
  by (simp add: dsame_def dst.defs)

end
