(* ===== verification/Blocks.thy ===== *)
theory Blocks
  imports Txn
begin

unbundle bit_operations_syntax

text \<open>
  The block layer of \<^verbatim>\<open>fs.c\<close>: the super block on disk and the bitmap of free blocks, with the
  allocator \<^verbatim>\<open>balloc\<close> and \<^verbatim>\<open>bfree\<close>.
\<close>

section \<open>On-disk formats\<close>

definition BPB :: nat where "BPB = 4096"

text \<open>\<^verbatim>\<open>struct superblock\<close>: 14 bytes, two of padding, nine words.\<close>

definition sb_get :: "bytes \<Rightarrow> superblock" where
  "sb_get x = \<lparr>sb_label = slice 0 11 x, sb_version = x ! 11, sb_bootable = x ! 12, sb_system = x ! 13,
     sb_size = unle32 (slice 16 4 x), sb_nblocks = unle32 (slice 20 4 x),
     sb_ninodes = unle32 (slice 24 4 x), sb_nlog = unle32 (slice 28 4 x),
     sb_logstart = unle32 (slice 32 4 x), sb_inodestart = unle32 (slice 36 4 x),
     sb_bmapstart = unle32 (slice 40 4 x), sb_bootinode = unle32 (slice 44 4 x),
     sb_kerninode = unle32 (slice 48 4 x)\<rparr>"

definition sb_put :: "superblock \<Rightarrow> bytes" where
  "sb_put sb = sb_label sb @ [sb_version sb, sb_bootable sb, sb_system sb, 0, 0]
     @ le32 (sb_size sb) @ le32 (sb_nblocks sb) @ le32 (sb_ninodes sb) @ le32 (sb_nlog sb)
     @ le32 (sb_logstart sb) @ le32 (sb_inodestart sb) @ le32 (sb_bmapstart sb)
     @ le32 (sb_bootinode sb) @ le32 (sb_kerninode sb)"

definition BBLOCK :: "nat \<Rightarrow> superblock \<Rightarrow> nat" where
  "BBLOCK b sb = b div BPB + sb_bmapstart sb"

definition no_sb :: "'s stop" where
  "no_sb = Fault ''getsuperblock: no super block''"

section \<open>Blocks\<close>

definition readsb :: "nat \<Rightarrow> 'a dst_scheme \<Rightarrow> ('a dst_scheme, superblock) outcome" where
  "readsb dev s = bnd (bread dev 1 s) (\<lambda>(bp, s).
     let sb = sb_get (b_data (bufs s ! bp)) in bnd (brelse bp s) (\<lambda>(_, s). Inr (sb, s)))"

definition bzero :: "nat \<Rightarrow> nat \<Rightarrow> 'a dst_scheme \<Rightarrow> ('a dst_scheme, unit) outcome" where
  "bzero dev bno s = bnd (bread dev bno s) (\<lambda>(bp, s).
     bnd (log_write bp (set_data bp (replicate BSIZE 0) s)) (\<lambda>(_, s). brelse bp s))"

text \<open>The bit of block \<open>bi\<close> in a bitmap block.\<close>

definition bm_bit :: "bytes \<Rightarrow> nat \<Rightarrow> bool" where
  "bm_bit x bi = bit (x ! (bi div 8)) (bi mod 8)"

definition bm_set :: "nat \<Rightarrow> bytes \<Rightarrow> bytes" where
  "bm_set bi x = x[bi div 8 := x ! (bi div 8) OR push_bit (bi mod 8) 1]"

definition bm_clear :: "nat \<Rightarrow> bytes \<Rightarrow> bytes" where
  "bm_clear bi x = x[bi div 8 := x ! (bi div 8) AND NOT (push_bit (bi mod 8) 1)]"

fun balloc_loop :: "nat \<Rightarrow> superblock \<Rightarrow> nat list \<Rightarrow> 'a dst_scheme \<Rightarrow> ('a dst_scheme, nat) outcome" where
  "balloc_loop dev sb [] s = Inr (0, s)"
| "balloc_loop dev sb (b # bs) s =
    bnd (bread dev (BBLOCK b sb) s) (\<lambda>(bp, s).
      let x = b_data (bufs s ! bp) in
      case find (\<lambda>bi. \<not> bm_bit x bi) [0..<min BPB (sb_size sb - b)] of
        Some bi \<Rightarrow>
          bnd (log_write bp (set_data bp (bm_set bi x) s)) (\<lambda>(_, s).
          bnd (brelse bp s) (\<lambda>(_, s).
          bnd (bzero dev (b + bi) s) (\<lambda>(_, s). Inr (b + bi, s))))
      | None \<Rightarrow> bnd (brelse bp s) (\<lambda>(_, s). balloc_loop dev sb bs s))"

text \<open>The values of \<^verbatim>\<open>b\<close> in \<^verbatim>\<open>for(b = 0; b < sb->size; b += BPB)\<close>.\<close>

definition bm_starts :: "superblock \<Rightarrow> nat list" where
  "bm_starts sb = map (\<lambda>k. k * BPB) [0..<(sb_size sb + BPB - 1) div BPB]"

definition balloc :: "nat \<Rightarrow> 'a dst_scheme \<Rightarrow> ('a dst_scheme, nat) outcome" where
  "balloc dev s = (case getsuperblock dev s of None \<Rightarrow> Inl no_sb
     | Some sb \<Rightarrow> balloc_loop dev sb (bm_starts sb) s)"

definition bfree :: "nat \<Rightarrow> nat \<Rightarrow> 'a dst_scheme \<Rightarrow> ('a dst_scheme, unit) outcome" where
  "bfree dev b s = (case getsuperblock dev s of None \<Rightarrow> Inl no_sb
     | Some sb \<Rightarrow> bnd (bread dev (BBLOCK b sb) s) (\<lambda>(bp, s).
         bnd (log_write bp (set_data bp (bm_clear (b mod BPB) (b_data (bufs s ! bp))) s)) (\<lambda>(_, s).
         brelse bp s)))"

section \<open>The bitmap\<close>

text \<open>\<open>used sb m b\<close>: block \<open>b\<close> is marked in the bitmap of a disk with the contents \<open>m\<close>.\<close>

definition used :: "superblock \<Rightarrow> (nat \<Rightarrow> bytes) \<Rightarrow> nat \<Rightarrow> bool" where
  "used sb m b \<longleftrightarrow> bm_bit (m (BBLOCK b sb)) (b mod BPB)"

lemma length_bm_set [simp]: "length (bm_set i x) = length x"
  by (simp add: bm_set_def)

lemma length_bm_clear [simp]: "length (bm_clear i x) = length x"
  by (simp add: bm_clear_def)

lemma div_mod_8_eq: "(i :: nat) div 8 = j div 8 \<Longrightarrow> i mod 8 = j mod 8 \<Longrightarrow> i = j"
  by (metis div_mult_mod_eq)

lemma bit_u8_exp: "bit (2 ^ (i mod 8) :: u8) (j mod 8) \<longleftrightarrow> i mod 8 = j mod 8"
  by (auto simp: bit_exp_iff)

lemma bm_bit_set:
  assumes "i < 8 * length x"
  shows "bm_bit (bm_set i x) j \<longleftrightarrow> j = i \<or> bm_bit x j"
proof -
  have l: "i div 8 < length x" using assms by (simp add: less_mult_imp_div_less)
  show ?thesis
  proof (cases "j div 8 = i div 8")
    case True
    then have "j = i \<longleftrightarrow> i mod 8 = j mod 8" using div_mod_8_eq by metis
    then show ?thesis using l True by (auto simp: bm_bit_def bm_set_def bit_or_iff bit_u8_exp)
  qed (use l in \<open>auto simp: bm_bit_def bm_set_def\<close>)
qed

lemma bm_bit_clear:
  assumes "i < 8 * length x"
  shows "bm_bit (bm_clear i x) j \<longleftrightarrow> j \<noteq> i \<and> bm_bit x j"
proof -
  have l: "i div 8 < length x" using assms by (simp add: less_mult_imp_div_less)
  show ?thesis
  proof (cases "j div 8 = i div 8")
    case True
    then have "j = i \<longleftrightarrow> i mod 8 = j mod 8" using div_mod_8_eq by metis
    then show ?thesis
      using l True by (auto simp: bm_bit_def bm_clear_def bit_and_iff bit_not_iff bit_u8_exp)
  qed (use l in \<open>auto simp: bm_bit_def bm_clear_def\<close>)
qed

text \<open>Where the bitmap lies, and that it marks the blocks no file may have.\<close>

definition bm_geom :: "superblock \<Rightarrow> (nat \<Rightarrow> bool) \<Rightarrow> bool" where
  "bm_geom sb lz \<longleftrightarrow> sb_size sb \<le> FSSIZE \<and> (\<forall>b < sb_size sb. BBLOCK b sb < FSSIZE \<and> \<not> lz (BBLOCK b sb))"

definition bm_marked :: "superblock \<Rightarrow> (nat \<Rightarrow> bool) \<Rightarrow> (nat \<Rightarrow> bytes) \<Rightarrow> bool" where
  "bm_marked sb lz m \<longleftrightarrow> (\<forall>b < sb_size sb. lz b \<or> (\<exists>c < sb_size sb. b = BBLOCK c sb) \<longrightarrow> used sb m b)"

text \<open>No buffer of the bitmap and of a free block is locked.\<close>

definition bm_unheld :: "nat \<Rightarrow> superblock \<Rightarrow> 'a dst_scheme \<Rightarrow> bool" where
  "bm_unheld d sb s \<longleftrightarrow> (\<forall>b < sb_size sb. (d, BBLOCK b sb) \<notin> held s \<and> (\<not> used sb (blk s d) b \<longrightarrow> (d, b) \<notin> held s))"

lemma used_bm_set:
  assumes "length (m (BBLOCK r sb)) = BSIZE"
  shows "used sb (m(BBLOCK r sb := bm_set (r mod BPB) (m (BBLOCK r sb)))) b \<longleftrightarrow> b = r \<or> used sb m b"
proof -
  have "r mod BPB < 8 * BSIZE" by (simp add: BPB_def BSIZE_def)
  moreover have "b = r" if "BBLOCK b sb = BBLOCK r sb" "b mod BPB = r mod BPB"
    using that by (metis BBLOCK_def add_right_cancel div_mult_mod_eq)
  ultimately show ?thesis using assms by (auto simp: used_def bm_bit_set)
qed

lemma used_bm_clear:
  assumes "length (m (BBLOCK r sb)) = BSIZE"
  shows "used sb (m(BBLOCK r sb := bm_clear (r mod BPB) (m (BBLOCK r sb)))) b \<longleftrightarrow> b \<noteq> r \<and> used sb m b"
proof -
  have "r mod BPB < 8 * BSIZE" by (simp add: BPB_def BSIZE_def)
  moreover have "b = r" if "BBLOCK b sb = BBLOCK r sb" "b mod BPB = r mod BPB"
    using that by (metis BBLOCK_def add_right_cancel div_mult_mod_eq)
  ultimately show ?thesis using assms by (auto simp: used_def bm_bit_clear)
qed

lemma find_upt_Some: "find P [0..<n] = Some i \<Longrightarrow> i < n \<and> P i \<and> (\<forall>j < i. \<not> P j)"
  by (auto simp: find_Some_iff)

lemma find_upt_None: "find P [0..<n] = None \<Longrightarrow> i < n \<Longrightarrow> \<not> P i"
  by (auto simp: find_None_iff)

definition balloc_post :: "nat \<Rightarrow> (nat \<Rightarrow> bool) \<Rightarrow> nat \<Rightarrow> superblock \<Rightarrow> 'a dst_scheme \<Rightarrow> nat \<Rightarrow> 'a dst_scheme \<Rightarrow> bool" where
  "balloc_post d lz k sb s r s' \<longleftrightarrow>
     (if \<forall>b < sb_size sb. used sb (blk s d) b
      then r = 0 \<and> lstep d [] s s' \<and> tx d lz (k + 2) s'
      else r < sb_size sb \<and> \<not> used sb (blk s d) r \<and> (\<forall>b < r. used sb (blk s d) b)
        \<and> lstep d [(BBLOCK r sb, bm_set (r mod BPB) (blk s d (BBLOCK r sb))), (r, replicate BSIZE 0)] s s'
        \<and> tx d lz k s')"

lemma bzero_bupdate: "bzero d b = bupdate d b (\<lambda>_. replicate BSIZE 0)"
  by (simp add: bzero_def bupdate_def fun_eq_iff)

lemma bm_chunk:
  assumes "c < BPB"
  shows "BBLOCK (j * BPB + c) sb = BBLOCK (j * BPB) sb" "(j * BPB + c) mod BPB = c"
    "used sb m (j * BPB + c) \<longleftrightarrow> bm_bit (m (BBLOCK (j * BPB) sb)) c"
  using assms by (auto simp: BBLOCK_def used_def)

lemma bm_chunk_full:
  assumes "\<forall>b < j * BPB. b < n \<longrightarrow> used sb m b"
    and "find (\<lambda>bi. \<not> bm_bit (m (BBLOCK (j * BPB) sb)) bi) [0..<min BPB (n - j * BPB)] = None"
  shows "\<forall>b < Suc j * BPB. b < n \<longrightarrow> used sb m b"
proof (intro allI impI)
  fix c assume c: "c < Suc j * BPB" "c < n"
  show "used sb m c"
  proof (cases "c < j * BPB")
    case False
    then have "c - j * BPB < min BPB (n - j * BPB)" using c by (auto simp: BPB_def)
    then show ?thesis
      using bm_chunk(3) [of "c - j * BPB" sb m j] find_upt_None [OF assms(2), of "c - j * BPB"] False by auto
  qed (use assms(1) c in simp)
qed

lemma bm_starts_less:
  assumes "j < (n + BPB - 1) div BPB"
  shows "j * BPB < n"
proof -
  have "(j + 1) * BPB \<le> (n + BPB - 1) div BPB * BPB" using assms by (intro mult_le_mono1) simp
  also have "\<dots> \<le> n + BPB - 1" by (simp add: div_times_less_eq_dividend)
  finally show ?thesis by (simp add: BPB_def)
qed

lemma bm_starts_cover: "b < n \<Longrightarrow> b < (n + BPB - 1) div BPB * BPB"
  using dividend_less_times_div [of BPB "n + BPB - 1"] by (simp add: BPB_def)

lemma balloc_found:
  assumes t: "tx d lz (k + 2) s" and g: "bm_geom sb lz" and m: "bm_marked sb lz (blk s d)"
    and u: "bm_unheld d sb s" and r: "r < sb_size sb" "\<not> used sb (blk s d) r"
    and s3: "lstep d [(BBLOCK r sb, bm_set (r mod BPB) (blk s d (BBLOCK r sb)))] s s3" "tx d lz (Suc k) s3"
  shows "\<exists>s4. bzero d r s3 = Inr ((), s4) \<and> tx d lz k s4 \<and>
    lstep d [(BBLOCK r sb, bm_set (r mod BPB) (blk s d (BBLOCK r sb))), (r, replicate BSIZE 0)] s s4"
proof -
  have "\<not> lz r" "r < FSSIZE" "(d, r) \<notin> held s3"
    using m r g u lstepD(5) [OF s3(1)] by (auto simp: bm_marked_def bm_geom_def bm_unheld_def)
  then obtain s4 where s4: "bzero d r s3 = Inr ((), s4)" "lstep d [(r, replicate BSIZE 0)] s3 s4" "tx d lz k s4"
    using tx_update [OF s3(2), where f = "\<lambda>_. replicate BSIZE 0"] by (auto simp: bzero_bupdate)
  then show ?thesis using lstep_trans [OF s3(1) s4(2)] by auto
qed

lemma balloc_loop_ok:
  assumes "tx d lz (k + 2) s" "bm_geom sb lz" "bm_marked sb lz (blk s d)" "bm_unheld d sb s"
    and "\<forall>b < j * BPB. b < sb_size sb \<longrightarrow> used sb (blk s d) b"
  shows "\<exists>r s'. balloc_loop d sb (map (\<lambda>k. k * BPB) [j..<(sb_size sb + BPB - 1) div BPB]) s = Inr (r, s')
    \<and> balloc_post d lz k sb s r s'"
  using assms
proof (induction "(sb_size sb + BPB - 1) div BPB - j" arbitrary: j s)
  case 0
  let ?n = "(sb_size sb + BPB - 1) div BPB"
  have "?n * BPB \<le> j * BPB" using 0(1) by (simp add: BPB_def)
  then have "\<forall>b < sb_size sb. used sb (blk s d) b"
    using 0(6) bm_starts_cover [of _ "sb_size sb"] by (meson less_le_trans)
  moreover have "[j..<?n] = []" using 0(1) by simp
  ultimately show ?case using 0 by (simp add: balloc_post_def lstep_refl)
next
  case (Suc n)
  let ?n = "(sb_size sb + BPB - 1) div BPB" and ?b = "j * BPB"
  have j: "j < ?n" "n = ?n - Suc j" using Suc.hyps(2) by simp_all
  then have BB: "BBLOCK ?b sb < FSSIZE" "\<not> lz (BBLOCK ?b sb)" "(d, BBLOCK ?b sb) \<notin> held s"
    using Suc.prems(2,4) bm_starts_less [of j "sb_size sb"] by (auto simp: bm_geom_def bm_unheld_def)
  from tx_rmw [OF Suc.prems(1) BB(1,3)] BB(2) obtain i s1 s2 where
    r: "bread d (BBLOCK ?b sb) s = Inr (i, s1)" "b_data (bufs s1 ! i) = blk s d (BBLOCK ?b sb)"
      "brelse i s1 = Inr ((), s2)" "lstep d [] s s2" "tx d lz (k + 2) s2"
    and w: "\<forall>x. length x = BSIZE \<longrightarrow> (\<exists>s2 s3. log_write i (set_data i x s1) = Inr ((), s2)
      \<and> brelse i s2 = Inr ((), s3) \<and> lstep d [(BBLOCK ?b sb, x)] s s3 \<and> tx d lz (Suc k) s3)"
    by (metis (no_types, lifting) add_2_eq_Suc')
  let ?x = "blk s d (BBLOCK ?b sb)"
  have up: "[j..<?n] = j # [Suc j..<?n]" using j by (simp add: upt_conv_Cons)
  show ?case
  proof (cases "find (\<lambda>bi. \<not> bm_bit ?x bi) [0..<min BPB (sb_size sb - ?b)]")
    case None
    have e: "blk s2 d = blk s d" "held s2 = held s" using lstepD(4,5) [OF r(4)] by auto
    then obtain r' s' where rs: "balloc_loop d sb (map (\<lambda>k. k * BPB) [Suc j..<?n]) s2 = Inr (r', s')"
      "balloc_post d lz k sb s2 r' s'"
      using Suc.hyps(1) [OF j(2) r(5)] bm_chunk_full [OF Suc.prems(5) None] Suc.prems(2-4)
      by (auto simp: bm_unheld_def)
    have "balloc_post d lz k sb s r' s'"
      using rs(2) lstep_trans [OF r(4)] e by (auto simp: balloc_post_def split: if_splits)
    then show ?thesis unfolding up using rs(1) r(1-3) None by simp
  next
    case (Some c)
    note f = find_upt_Some [OF Some]
    let ?r = "?b + c"
    have ch: "BBLOCK ?r sb = BBLOCK ?b sb" "?r mod BPB = c" "used sb (blk s d) ?r = bm_bit ?x c"
      using bm_chunk(1) [of c j sb] bm_chunk(2) [of c j] bm_chunk(3) [of c sb "blk s d" j] f by auto
    then have R: "?r < sb_size sb" "\<not> used sb (blk s d) ?r" using f by auto
    have lt: "used sb (blk s d) a" if "a < ?r" for a
      using that R(1) Suc.prems(5) f bm_chunk(3) [of "a - ?b" sb "blk s d" j] by (cases "a < ?b") auto
    obtain s3 s4 where s34: "log_write i (set_data i (bm_set c ?x) s1) = Inr ((), s3)"
      "brelse i s3 = Inr ((), s4)" "lstep d [(BBLOCK ?b sb, bm_set c ?x)] s s4" "tx d lz (Suc k) s4"
      using w [rule_format, of "bm_set c ?x"] length_blk [OF txD(1) [OF Suc.prems(1)]] by auto
    then obtain s5 where s5: "bzero d ?r s4 = Inr ((), s5)" "tx d lz k s5"
      "lstep d [(BBLOCK ?r sb, bm_set (?r mod BPB) (blk s d (BBLOCK ?r sb))), (?r, replicate BSIZE 0)] s s5"
      using balloc_found [OF Suc.prems(1-4) R, of s4] ch by auto
    then have "balloc_post d lz k sb s ?r s5" using R lt by (auto simp: balloc_post_def)
    then show ?thesis unfolding up using s5(1) s34(1,2) r(1,2) Some by simp
  qed
qed

lemma balloc_ok:
  assumes "tx d lz (k + 2) s" "getsuperblock d s = Some sb" "bm_geom sb lz" "bm_marked sb lz (blk s d)"
    "bm_unheld d sb s"
  shows "\<exists>r s'. balloc d s = Inr (r, s') \<and> balloc_post d lz k sb s r s'"
  using balloc_loop_ok [OF assms(1,3-5), of 0] assms(2) by (simp add: balloc_def bm_starts_def)

lemma balloc_used:
  assumes st: "lstep d [(BBLOCK r sb, bm_set (r mod BPB) (blk s d (BBLOCK r sb))), (r, replicate BSIZE 0)] s s'"
    and l: "length (blk s d (BBLOCK r sb)) = BSIZE" and m: "bm_marked sb lz (blk s d)"
    and r: "\<not> used sb (blk s d) r" "r < sb_size sb" and b: "b < sb_size sb"
  shows "used sb (blk s' d) b \<longleftrightarrow> b = r \<or> used sb (blk s d) b"
proof -
  let ?m = "(blk s d)(BBLOCK r sb := bm_set (r mod BPB) (blk s d (BBLOCK r sb)))"
  have 1: "blk s' d = ?m(r := replicate BSIZE 0)" unfolding lstepD(4) [OF st] by simp
  have "BBLOCK b sb \<noteq> r" using m r b unfolding bm_marked_def by blast
  then have "used sb (blk s' d) b = used sb ?m b" unfolding used_def 1 by simp
  then show ?thesis using used_bm_set [of "blk s d", OF l] by simp
qed


text \<open>
  \<^verbatim>\<open>bfree\<close> clears the bit of its block and of no other, and changes nothing else on any disk.
\<close>

theorem bfree_correct:
  assumes "tx d lz (Suc k) s" "getsuperblock d s = Some sb" "bm_geom sb lz" "bm_unheld d sb s"
    "r < sb_size sb"
  shows "\<exists>s'. bfree d r s = Inr ((), s') \<and> (\<forall>b. used sb (blk s' d) b \<longleftrightarrow> b \<noteq> r \<and> used sb (blk s d) b)
    \<and> (\<forall>e b. (e, b) \<noteq> (d, BBLOCK r sb) \<longrightarrow> blk s' e b = blk s e b)"
proof -
  let ?B = "BBLOCK r sb"
  have B: "?B < FSSIZE" "\<not> lz ?B" "(d, ?B) \<notin> held s"
    using assms(3-5) by (auto simp: bm_geom_def bm_unheld_def)
  have l: "length (blk s d ?B) = BSIZE" by (rule length_blk [OF txD(1) [OF assms(1)]])
  from tx_update [OF assms(1) B, of "bm_clear (r mod BPB) (blk s d ?B)" "bm_clear (r mod BPB)"] l
  obtain s' where s': "bupdate d ?B (bm_clear (r mod BPB)) s = Inr ((), s')"
    "lstep d [(?B, bm_clear (r mod BPB) (blk s d ?B))] s s'" by auto
  have "bfree d r s = bupdate d ?B (bm_clear (r mod BPB)) s"
    using assms(2) by (simp add: bfree_def bupdate_def)
  moreover have "blk s' = (blk s)(d := (blk s d)(?B := bm_clear (r mod BPB) (blk s d ?B)))"
    using lstepD(4) [OF s'(2)] by simp
  ultimately show ?thesis using s'(1) used_bm_clear [of "blk s d", OF l] by auto
qed

text \<open>A small file system for the examples: 100 blocks, the inodes in blocks 40 to 47, the bitmap in
  block 50 with blocks 0 to 55 in use.\<close>

definition sb1 :: superblock where
  "sb1 = zero_sb\<lparr>sb_size := 100, sb_ninodes := 64, sb_nlog := 30, sb_logstart := 2,
     sb_inodestart := 40, sb_bmapstart := 50\<rparr>"

definition bitmap1 :: bytes where
  "bitmap1 = replicate 7 255 @ replicate (BSIZE - 7) 0"

lemma used1: "m 50 = bitmap1 \<Longrightarrow> b < 100 \<Longrightarrow> used sb1 m b \<longleftrightarrow> b < 56"
proof -
  assume m: "m 50 = bitmap1" and b: "b < 100"
  have n: "b mod 8 < 8" by simp
  have a: "(255 :: u8) = - 1" by simp
  have f: "bit (255 :: u8) (b mod 8)" unfolding a using n by simp
  have "bitmap1 ! (b div 8) = (if b div 8 < 7 then 255 else 0)"
    using b by (auto simp: bitmap1_def nth_append BSIZE_def)
  moreover have "BBLOCK b sb1 = 50" "b mod BPB = b" using b by (simp_all add: BBLOCK_def BPB_def sb1_def)
  moreover have "b div 8 < 7 \<longleftrightarrow> b < 56" by auto
  ultimately show "used sb1 m b \<longleftrightarrow> b < 56" using m f by (simp add: used_def bm_bit_def)
qed

lemma sb1_ok:
  "bm_geom sb1 zone0" "m 50 = bitmap1 \<Longrightarrow> bm_marked sb1 zone0 m"
proof -
  have B: "BBLOCK b sb1 = 50" if "b < 100" for b using that by (simp add: BBLOCK_def BPB_def sb1_def)
  then show "bm_geom sb1 zone0" by (auto simp: bm_geom_def FSSIZE_def zone0_def sb1_def)
  show "bm_marked sb1 zone0 m" if "m 50 = bitmap1"
    using B used1 [of m, OF that] by (auto simp: bm_marked_def zone0_def) (auto simp: sb1_def)
qed

definition img1 :: "nat \<Rightarrow> bytes" where
  "img1 b = (if b = 50 then bitmap1 else replicate BSIZE 0)"

lemma img1_ok:
  "length (img1 b) = BSIZE" "hdr_n (img1 2) = 0" "img1 50 = bitmap1"
  by (simp_all add: img1_def bitmap1_def hdr_n_def slice_def BSIZE_def unle32_def)

lemma img1_tx:
  shows "tx 0 zone0 28 (mounted_on img1 sb1)" "held (mounted_on img1 sb1) = {}" "blk (mounted_on img1 sb1) 0 = img1"
    "getsuperblock 0 (mounted_on img1 sb1) = Some sb1"
  using mounted_on_ok [of img1 sb1, OF img1_ok(1,2)] by auto


theorem bfree_correct_witness:
  "\<exists>s'. bfree 0 55 (mounted_on img1 sb1) = Inr ((), s') \<and> \<not> used sb1 (blk s' 0) 55 \<and> used sb1 (blk s' 0) 54"
proof -
  have t: "tx 0 zone0 (Suc 27) (mounted_on img1 sb1)" using img1_tx(1) by simp
  have u: "bm_unheld 0 sb1 (mounted_on img1 sb1)" by (simp add: bm_unheld_def img1_tx)
  have "(55 :: nat) < sb_size sb1" by (simp add: sb1_def)
  from bfree_correct [OF t img1_tx(4) sb1_ok(1) u this] show ?thesis
    using used1 [of img1, OF img1_ok(3)] by (auto simp: img1_tx)
qed

end
