(* ===== verification/Inode.thy ===== *)
theory Inode
  imports Blocks
begin

text \<open>
  The inode layer of \<^verbatim>\<open>fs.c\<close>: inodes on disk, the inode cache with its reference counts and locks,
  and the map from the blocks of a file to disk blocks. The record \<open>fsst\<close> extends the disk state by
  the inode cache; a pointer to a cached inode is its index in the cache.
\<close>

section \<open>Data\<close>

definition NINODE :: nat where "NINODE = 50"
definition NDIRECT :: nat where "NDIRECT = 12"
definition NINDIRECT :: nat where "NINDIRECT = 128"
definition MAXFILE :: nat where "MAXFILE = NINDIRECT * 12"
definition IPB :: nat where "IPB = 8"
definition ROOTINO :: nat where "ROOTINO = 1"
definition T_DIR :: int where "T_DIR = 1"
definition T_FILE :: int where "T_FILE = 2"
definition T_DEV :: int where "T_DEV = 3"

text \<open>\<^verbatim>\<open>struct inode\<close>: the four bits of \<^verbatim>\<open>flags\<close> are the fields \<open>i_busy\<close>, \<open>i_valid\<close>, \<open>i_ismpoint\<close>
  (\<^verbatim>\<open>I_MOUNTPOINT\<close>) and \<open>i_ismroot\<close> (\<^verbatim>\<open>I_MOUNTROOT\<close>).\<close>

record inode =
  i_dev :: nat
  i_inum :: nat
  i_ref :: int
  i_busy :: bool
  i_valid :: bool
  i_ismpoint :: bool
  i_ismroot :: bool
  i_mountroot :: "nat option"
  i_mountparent :: "nat option"
  i_mountpoint :: "nat option"
  i_type :: int
  i_major :: int
  i_minor :: int
  i_owner :: int
  i_perms :: u8
  i_attrib :: u8
  i_nlink :: int
  i_size :: nat
  i_addrs :: "nat list"

record fsst = dst +
  inodes :: "inode list"
  rootdir :: "nat option"
  havesysfs :: bool

definition upd_inode :: "nat \<Rightarrow> (inode \<Rightarrow> inode) \<Rightarrow> 'a fsst_scheme \<Rightarrow> 'a fsst_scheme" where
  "upd_inode ip f s = s\<lparr>inodes := (inodes s)[ip := f (inodes s ! ip)]\<rparr>"

section \<open>On-disk formats\<close>

text \<open>A C \<^verbatim>\<open>short\<close> in two bytes.\<close>

definition s16 :: "nat \<Rightarrow> int" where
  "s16 n = (if n \<ge> 32768 then int n - 65536 else int n)"

definition u16of :: "int \<Rightarrow> nat" where
  "u16of i = nat (i mod 65536)"

definition le_s16 :: "int \<Rightarrow> bytes" where
  "le_s16 i = le16 (u16of i)"

text \<open>\<^verbatim>\<open>struct dinode\<close>, 64 bytes: four shorts, perms, attrib, nlink, size, twelve addresses.\<close>

definition di_type :: "bytes \<Rightarrow> int" where "di_type x = s16 (unle16 (slice 0 2 x))"
definition di_major :: "bytes \<Rightarrow> int" where "di_major x = s16 (unle16 (slice 2 2 x))"
definition di_minor :: "bytes \<Rightarrow> int" where "di_minor x = s16 (unle16 (slice 4 2 x))"
definition di_owner :: "bytes \<Rightarrow> int" where "di_owner x = s16 (unle16 (slice 6 2 x))"
definition di_perms :: "bytes \<Rightarrow> u8" where "di_perms x = x ! 8"
definition di_nlink :: "bytes \<Rightarrow> int" where "di_nlink x = s16 (unle16 (slice 10 2 x))"
definition di_size :: "bytes \<Rightarrow> nat" where "di_size x = unle32 (slice 12 4 x)"
definition di_addrs :: "bytes \<Rightarrow> nat list" where
  "di_addrs x = map (\<lambda>i. unle32 (slice (16 + 4 * i) 4 x)) [0..<NDIRECT]"

text \<open>The stores of \<^verbatim>\<open>iupdate1\<close> into a dinode; the byte \<^verbatim>\<open>attrib\<close> is not written.\<close>

definition di_put :: "inode \<Rightarrow> bytes \<Rightarrow> bytes" where
  "di_put ip x = patch 0 (le_s16 (i_type ip) @ le_s16 (i_major ip) @ le_s16 (i_minor ip)
       @ le_s16 (i_owner ip) @ [i_perms ip])
     (patch 10 (le_s16 (i_nlink ip) @ le32 (i_size ip) @ concat (map le32 (i_addrs ip))) x)"

text \<open>The loads of \<^verbatim>\<open>ilock\<close> from a dinode.\<close>

definition di_load :: "bytes \<Rightarrow> inode \<Rightarrow> inode" where
  "di_load x ip = ip\<lparr>i_type := di_type x, i_major := di_major x, i_minor := di_minor x,
     i_owner := di_owner x, i_perms := di_perms x, i_nlink := di_nlink x, i_size := di_size x,
     i_addrs := di_addrs x\<rparr>"

definition IBLOCK :: "nat \<Rightarrow> superblock \<Rightarrow> nat" where
  "IBLOCK i sb = i div IPB + sb_inodestart sb"

section \<open>The inode cache\<close>

definition i_free :: "inode \<Rightarrow> bool" where
  "i_free x \<longleftrightarrow> i_ref x = 0"

definition i_match :: "nat \<Rightarrow> nat \<Rightarrow> inode \<Rightarrow> bool" where
  "i_match dev inum x \<longleftrightarrow> i_ref x > 0 \<and> i_dev x = dev \<and> i_inum x = inum"

definition iget :: "nat \<Rightarrow> nat \<Rightarrow> 'a fsst_scheme \<Rightarrow> ('a fsst_scheme, nat) outcome" where
  "iget dev inum s =
    (case find_index (i_match dev inum) (inodes s) of
       Some i \<Rightarrow>
         (if i_ismpoint (inodes s ! i)
          then case i_mountroot (inodes s ! i) of
                 None \<Rightarrow> Inl (Fault ''iget: nil mountroot'')
               | Some r \<Rightarrow> Inr (r, upd_inode r (\<lambda>x. x\<lparr>i_ref := i_ref x + 1\<rparr>) s)
          else Inr (i, upd_inode i (\<lambda>x. x\<lparr>i_ref := i_ref x + 1\<rparr>) s))
     | None \<Rightarrow>
         (case find_index i_free (inodes s) of
            None \<Rightarrow> Inl (Panic ''iget: no inodes'')
          | Some e \<Rightarrow> Inr (e, upd_inode e (\<lambda>x. x\<lparr>i_dev := dev, i_inum := inum, i_ref := 1,
              i_busy := False, i_valid := False, i_ismpoint := False, i_ismroot := False\<rparr>) s)))"

definition idup :: "nat option \<Rightarrow> 'a fsst_scheme \<Rightarrow> nat option \<times> 'a fsst_scheme" where
  "idup ip s = (case ip of None \<Rightarrow> (None, s)
     | Some i \<Rightarrow> (Some i, upd_inode i (\<lambda>x. x\<lparr>i_ref := i_ref x + 1\<rparr>) s))"

text \<open>The inode \<^verbatim>\<open>inum%IPB\<close> of an inode block.\<close>

definition di_at :: "nat \<Rightarrow> bytes \<Rightarrow> bytes" where
  "di_at inum x = slice ((inum mod IPB) * 64) 64 x"

definition di_set :: "nat \<Rightarrow> bytes \<Rightarrow> bytes \<Rightarrow> bytes" where
  "di_set inum y x = patch ((inum mod IPB) * 64) y x"

definition ilock :: "nat option \<Rightarrow> 'a fsst_scheme \<Rightarrow> ('a fsst_scheme, unit) outcome" where
  "ilock p s = (case p of None \<Rightarrow> Inr ((), s)
    | Some ip \<Rightarrow>
      if i_ref (inodes s ! ip) < 1 then Inr ((), s)
      else if i_busy (inodes s ! ip) then sleep (ChInode ip) s
      else let s = upd_inode ip (\<lambda>x. x\<lparr>i_busy := True\<rparr>) s; x = inodes s ! ip in
        if i_valid x then Inr ((), s)
        else case getsuperblock (i_dev x) s of None \<Rightarrow> Inl no_sb
          | Some sb \<Rightarrow> bnd (bread (i_dev x) (IBLOCK (i_inum x) sb) s) (\<lambda>(bp, s).
              let s = upd_inode ip (di_load (di_at (i_inum x) (b_data (bufs s ! bp)))) s in
              bnd (brelse bp s) (\<lambda>(_, s). Inr ((), upd_inode ip (\<lambda>x. x\<lparr>i_valid := True\<rparr>) s))))"

definition iunlock :: "nat option \<Rightarrow> 'a fsst_scheme \<Rightarrow> 'a fsst_scheme" where
  "iunlock p s = (case p of None \<Rightarrow> s
    | Some ip \<Rightarrow>
      if i_ref (inodes s ! ip) < 1 \<or> \<not> i_busy (inodes s ! ip) then s
      else wakeup (ChInode ip) (upd_inode ip (\<lambda>x. x\<lparr>i_busy := False\<rparr>) s))"

definition iref :: "nat option \<Rightarrow> 'a fsst_scheme \<Rightarrow> 'a fsst_scheme" where
  "iref p s = (case p of None \<Rightarrow> s | Some ip \<Rightarrow> upd_inode ip (\<lambda>x. x\<lparr>i_ref := i_ref x + 1\<rparr>) s)"

definition iunref :: "nat option \<Rightarrow> 'a fsst_scheme \<Rightarrow> 'a fsst_scheme" where
  "iunref p s = (case p of None \<Rightarrow> s
    | Some ip \<Rightarrow> if i_ref (inodes s ! ip) < 1 then s
        else if i_ref (inodes s ! ip) = 0 then s
        else upd_inode ip (\<lambda>x. x\<lparr>i_ref := i_ref x - 1\<rparr>) s)"

fun ialloc_loop :: "nat \<Rightarrow> int \<Rightarrow> superblock \<Rightarrow> nat list \<Rightarrow> 'a fsst_scheme
    \<Rightarrow> ('a fsst_scheme, nat option) outcome" where
  "ialloc_loop dev ty sb [] s = Inr (None, s)"
| "ialloc_loop dev ty sb (inum # is) s =
    bnd (bread dev (IBLOCK inum sb) s) (\<lambda>(bp, s).
      let x = b_data (bufs s ! bp) in
      if di_type (di_at inum x) = 0
      then bnd (log_write bp (set_data bp (di_set inum (patch 0 (le_s16 ty) (replicate 64 0)) x) s)) (\<lambda>(_, s).
           bnd (brelse bp s) (\<lambda>(_, s).
           bnd (iget dev inum s) (\<lambda>(ip, s). Inr (Some ip, s))))
      else bnd (brelse bp s) (\<lambda>(_, s). ialloc_loop dev ty sb is s))"

definition ialloc :: "nat \<Rightarrow> int \<Rightarrow> 'a fsst_scheme \<Rightarrow> ('a fsst_scheme, nat option) outcome" where
  "ialloc dev ty s = (case getsuperblock dev s of None \<Rightarrow> Inl no_sb
     | Some sb \<Rightarrow> ialloc_loop dev ty sb [1..<sb_ninodes sb] s)"

definition iupdate1 :: "nat \<Rightarrow> bool \<Rightarrow> 'a fsst_scheme \<Rightarrow> ('a fsst_scheme, unit) outcome" where
  "iupdate1 ip direct s =
    (let x = inodes s ! ip in
     case getsuperblock (i_dev x) s of None \<Rightarrow> Inl no_sb
     | Some sb \<Rightarrow> bnd (bread (i_dev x) (IBLOCK (i_inum x) sb) s) (\<lambda>(bp, s).
         let y = b_data (bufs s ! bp);
             s = set_data bp (di_set (i_inum x) (di_put x (di_at (i_inum x) y)) y) s in
         bnd (if direct then bwrite bp s else log_write bp s) (\<lambda>(_, s). brelse bp s)))"

definition iupdate :: "nat \<Rightarrow> 'a fsst_scheme \<Rightarrow> ('a fsst_scheme, unit) outcome" where
  "iupdate ip s = iupdate1 ip False s"

definition iupdate_direct :: "nat \<Rightarrow> 'a fsst_scheme \<Rightarrow> ('a fsst_scheme, unit) outcome" where
  "iupdate_direct ip s = iupdate1 ip True s"

section \<open>The blocks of a file\<close>

definition offset2real :: "nat \<Rightarrow> nat \<times> nat" where
  "offset2real off = (off div NINDIRECT, off mod NINDIRECT)"

text \<open>The words of an indirect block.\<close>

definition id_get :: "nat \<Rightarrow> bytes \<Rightarrow> nat" where
  "id_get i x = unle32 (slice (4 * i) 4 x)"

definition id_put :: "nat \<Rightarrow> nat \<Rightarrow> bytes \<Rightarrow> bytes" where
  "id_put i a x = patch (4 * i) (le32 a) x"

text \<open>The value \<open>-1\<close> as the \<^verbatim>\<open>uint\<close> it is returned in.\<close>

definition MINUS1 :: nat where "MINUS1 = 2 ^ 32 - 1"

text \<open>The two allocations of \<^verbatim>\<open>bmap_g\<close>: of the indirect block, and of the block itself in the
  indirect block that buffer \<open>bp\<close> holds. The result is false if \<^verbatim>\<open>balloc\<close> failed.\<close>

definition bmap_indirect :: "nat \<Rightarrow> nat \<Rightarrow> 'a fsst_scheme \<Rightarrow> ('a fsst_scheme, bool) outcome" where
  "bmap_indirect ip blkno s =
    (if i_addrs (inodes s ! ip) ! blkno = 0
     then bnd (balloc (i_dev (inodes s ! ip)) s) (\<lambda>(nb, s). if nb = 0 then Inr (False, s)
       else Inr (True, upd_inode ip (\<lambda>x. x\<lparr>i_addrs := (i_addrs x)[blkno := nb]\<rparr>) s))
     else Inr (True, s))"

definition bmap_entry :: "nat \<Rightarrow> nat \<Rightarrow> nat \<Rightarrow> 'a dst_scheme \<Rightarrow> ('a dst_scheme, bool) outcome" where
  "bmap_entry dev bp ptr s =
    (if id_get ptr (b_data (bufs s ! bp)) = 0
     then bnd (balloc dev s) (\<lambda>(nb, s). if nb = 0 then Inr (False, s)
       else bnd (log_write bp (set_data bp (id_put ptr nb (b_data (bufs s ! bp))) s)) (\<lambda>(_, s). Inr (True, s)))
     else Inr (True, s))"

definition bmap_g :: "nat \<Rightarrow> nat \<Rightarrow> bool \<Rightarrow> 'a fsst_scheme \<Rightarrow> ('a fsst_scheme, nat) outcome" where
  "bmap_g ip bn create s =
    (if bn \<ge> MAXFILE then Inl (Panic ''newbmap: block out of range'')
     else if \<not> create then Inr (MINUS1, s)
     else let (blkno, ptr) = offset2real bn; dev = i_dev (inodes s ! ip) in
       bnd (bmap_indirect ip blkno s) (\<lambda>(ok, s).
         if \<not> ok then Inr (MINUS1, s)
         else bnd (bread dev (i_addrs (inodes s ! ip) ! blkno) s) (\<lambda>(bp, s).
           bnd (bmap_entry dev bp ptr s) (\<lambda>(ok, s).
             if \<not> ok then Inr (MINUS1, s)
             else let addr = id_get ptr (b_data (bufs s ! bp)) in
               bnd (brelse bp s) (\<lambda>(_, s). Inr (addr, s))))))"

definition bmap :: "nat \<Rightarrow> nat \<Rightarrow> 'a fsst_scheme \<Rightarrow> ('a fsst_scheme, nat) outcome" where
  "bmap ip bn s = bmap_g ip bn True s"

definition bfreeref :: "nat \<Rightarrow> nat \<Rightarrow> 'a fsst_scheme \<Rightarrow> ('a fsst_scheme, unit) outcome" where
  "bfreeref ip addr s =
    (let (blkno, ptr) = offset2real addr; x = inodes s ! ip in
     if blkno \<ge> NDIRECT then Inl (Fault ''bfreeref: index out of range'')
     else if i_addrs x ! blkno \<noteq> 0
     then bnd (bread (i_dev x) (i_addrs x ! blkno) s) (\<lambda>(bp, s).
       bnd (log_write bp (set_data bp (id_put ptr 0 (b_data (bufs s ! bp))) s)) (\<lambda>(_, s). brelse bp s))
     else Inr ((), s))"

fun itrunc_loop :: "nat \<Rightarrow> nat list \<Rightarrow> 'a fsst_scheme \<Rightarrow> ('a fsst_scheme, unit) outcome" where
  "itrunc_loop ip [] s = Inr ((), s)"
| "itrunc_loop ip (i # is) s = bnd (bmap_g ip i False s) (\<lambda>(addr, s).
     if addr = MINUS1 then itrunc_loop ip is s
     else bnd (bfree (i_dev (inodes s ! ip)) addr s) (\<lambda>(_, s).
          bnd (bfreeref ip addr s) (\<lambda>(_, s). itrunc_loop ip is s)))"

definition itrunc :: "nat \<Rightarrow> 'a fsst_scheme \<Rightarrow> ('a fsst_scheme, unit) outcome" where
  "itrunc ip s = bnd (itrunc_loop ip [0..<i_size (inodes s ! ip) div BSIZE] s) (\<lambda>(_, s).
     iupdate ip (upd_inode ip (\<lambda>x. x\<lparr>i_size := 0\<rparr>) s))"

definition iput1 :: "nat \<Rightarrow> bool \<Rightarrow> 'a fsst_scheme \<Rightarrow> ('a fsst_scheme, unit) outcome" where
  "iput1 ip direct s =
    (let x = inodes s ! ip in
     bnd (if i_ref x = 1 \<and> i_valid x \<and> i_nlink x = 0
          then if i_busy x then Inl (Panic ''iput busy'')
            else bnd (itrunc ip (upd_inode ip (\<lambda>x. x\<lparr>i_busy := True\<rparr>) s)) (\<lambda>(_, s).
                 bnd (iupdate1 ip direct (upd_inode ip (\<lambda>x. x\<lparr>i_type := 0\<rparr>) s)) (\<lambda>(_, s).
                 Inr ((), wakeup (ChInode ip) (upd_inode ip (\<lambda>x. x\<lparr>i_busy := False, i_valid := False,
                   i_ismpoint := False, i_ismroot := False\<rparr>) s))))
          else Inr ((), s))
       (\<lambda>(_, s). Inr ((), upd_inode ip (\<lambda>x. x\<lparr>i_ref := i_ref x - 1\<rparr>) s)))"

definition iput :: "nat \<Rightarrow> 'a fsst_scheme \<Rightarrow> ('a fsst_scheme, unit) outcome" where
  "iput ip s = iput1 ip False s"

definition iput_direct :: "nat \<Rightarrow> 'a fsst_scheme \<Rightarrow> ('a fsst_scheme, unit) outcome" where
  "iput_direct ip s = iput1 ip True s"

definition iunlockput :: "nat \<Rightarrow> 'a fsst_scheme \<Rightarrow> ('a fsst_scheme, unit) outcome" where
  "iunlockput ip s = iput ip (iunlock (Some ip) s)"

definition iunlockput_direct :: "nat \<Rightarrow> 'a fsst_scheme \<Rightarrow> ('a fsst_scheme, unit) outcome" where
  "iunlockput_direct ip s = iput_direct ip (iunlock (Some ip) s)"

section \<open>The layers below\<close>

text \<open>Changes to the inode cache are invisible to the buffer cache and the log, and the other way round.\<close>

lemma dsame_inodes [simp]: "dsame (s\<lparr>inodes := v\<rparr>) s" "dsame (upd_inode ip f s) s"
  by (simp_all add: dsame_def upd_inode_def)

lemmas tx_inodes [simp] =
  dsame_cache(1,2,3,5) [OF dsame_inodes(1)] dsame_views(1,6-8) [OF dsame_inodes(1)]
  dsame_cache(1,2,3,5) [OF dsame_inodes(2)] dsame_views(1,6-8) [OF dsame_inodes(2)]
  dsame_cache(6) [OF dsame_inodes(1)] dsame_cache(6) [OF dsame_inodes(2)]

lemma upd_inode_sel [simp]:
  "inodes (upd_inode ip f s) = (inodes s)[ip := f (inodes s ! ip)]"
  "procs (upd_inode ip f s) = procs s" "curproc (upd_inode ip f s) = curproc s"
  "bufs (upd_inode ip f s) = bufs s" "disks (upd_inode ip f s) = disks s"
  "media (upd_inode ip f s) = media s" "dtrace (upd_inode ip f s) = dtrace s"
  "rootdir (upd_inode ip f s) = rootdir s" "havesysfs (upd_inode ip f s) = havesysfs s"
  by (simp_all add: upd_inode_def)

lemma bframe_inodes:
  assumes "bframe (s :: 'a fsst_scheme) s'"
  shows "inodes s' = inodes s" "rootdir s' = rootdir s" "havesysfs s' = havesysfs s"
    "fsst.more s' = fsst.more s"
    "bframe (s\<lparr>inodes := v\<rparr>) (s'\<lparr>inodes := v\<rparr>)"
proof -
  from assms obtain bs l ps m t ds where e: "s' = s\<lparr>procs := ps, disks := ds, bufs := bs, lru := l, media := m, dtrace := t\<rparr>"
    "wakes (procs s) ps" "list_all2 (\<lambda>k k'. \<exists>g. k' = k\<lparr>dk_log := g\<rparr>) (disks s) ds"
    unfolding bframe_def by blast
  show "inodes s' = inodes s" "rootdir s' = rootdir s" "havesysfs s' = havesysfs s" "fsst.more s' = fsst.more s"
    using e(1) by simp_all
  have "s'\<lparr>inodes := v\<rparr> = s\<lparr>inodes := v\<rparr>\<lparr>procs := ps, disks := ds, bufs := bs, lru := l, media := m, dtrace := t\<rparr>"
    using e(1) by simp
  then show "bframe (s\<lparr>inodes := v\<rparr>) (s'\<lparr>inodes := v\<rparr>)"
    unfolding bframe_def using e(2,3)
    by (intro exI [of _ bs] exI [of _ l] exI [of _ ps] exI [of _ m] exI [of _ t] exI [of _ ds]) simp
qed

lemma lstep_inodes:
  assumes "lstep d ws (s :: 'a fsst_scheme) s'"
  shows "inodes s' = inodes s" "rootdir s' = rootdir s" "lstep d ws (s\<lparr>inodes := v\<rparr>) (s'\<lparr>inodes := v\<rparr>)"
  using bframe_inodes [OF lstepD(1) [OF assms]] assms by (simp_all add: lstep_def)

text \<open>\<open>fstep d ws ins s s'\<close>: as \<open>lstep\<close>, with \<open>ins\<close> the inode cache afterwards.\<close>

definition fstep :: "nat \<Rightarrow> (nat \<times> bytes) list \<Rightarrow> inode list \<Rightarrow> 'a fsst_scheme \<Rightarrow> 'a fsst_scheme \<Rightarrow> bool" where
  "fstep d ws ins s s' \<longleftrightarrow> inodes s' = ins \<and> lstep d ws (s\<lparr>inodes := ins\<rparr>) s'"

lemma fstepD:
  assumes "fstep d ws ins s s'"
  shows "inodes s' = ins" "blk s' = (blk s)(d := puts ws (blk s d))" "held s' = held s"
    "dirtyb s' = dirtyb s \<union> Pair d ` fst ` set ws" "\<And>j e c. owns s j e c \<Longrightarrow> owns s' j e c"
    "rootdir s' = rootdir s"
  using assms lstepD [of d ws "s\<lparr>inodes := ins\<rparr>" s'] lstep_inodes(2) [of d ws "s\<lparr>inodes := ins\<rparr>" s']
  by (auto simp: fstep_def)

lemma fstep_lstep: "lstep d ws s s' \<Longrightarrow> fstep d ws (inodes s) s s'"
  using lstep_inodes(1) [of d ws s s'] by (simp add: fstep_def)

lemma fstep_upd: "fstep d [] ((inodes s)[ip := f (inodes s ! ip)]) s (upd_inode ip f s)"
  by (simp add: fstep_def upd_inode_def lstep_refl)

lemma fstep_trans:
  assumes "fstep d ws ins s s'" "fstep d vs jns s' s''"
  shows "fstep d (ws @ vs) jns s s''"
proof -
  have 1: "lstep d ws (s\<lparr>inodes := ins\<rparr>) s'" "lstep d vs (s'\<lparr>inodes := jns\<rparr>) s''" "inodes s'' = jns"
    using assms by (auto simp: fstep_def)
  have "lstep d ws (s\<lparr>inodes := jns\<rparr>) (s'\<lparr>inodes := jns\<rparr>)"
    using lstep_inodes(3) [OF 1(1), of jns] by simp
  then have "lstep d (ws @ vs) (s\<lparr>inodes := jns\<rparr>) s''" using 1(2) by (rule lstep_trans)
  then show ?thesis using 1(3) by (simp add: fstep_def)
qed

lemma fstep_superblock:
  assumes "fstep d ws ins s s'" "e < length (disks s)"
  shows "getsuperblock e s' = getsuperblock e s"
  using lstep_superblock [of d ws "s\<lparr>inodes := ins\<rparr>" s' e] assms by (simp add: fstep_def)

section \<open>Inodes on disk\<close>

lemma s16_le_s16:
  assumes "- 32768 \<le> i" "i < 32768"
  shows "s16 (unle16 (le_s16 i @ xs)) = i"
proof (cases "i < 0")
  case True
  have "(i + 65536) mod 65536 = i + 65536" using assms True by (intro mod_pos_pos_trivial) auto
  then have "i mod 65536 = i + 65536" by simp
  then show ?thesis using assms True by (simp add: le_s16_def s16_def u16of_def)
qed (use assms in \<open>simp add: le_s16_def s16_def u16of_def\<close>)

lemma length_le_s16 [simp]: "length (le_s16 i) = 2"
  by (simp add: le_s16_def)

definition short :: "int \<Rightarrow> bool" where
  "short i \<longleftrightarrow> - 32768 \<le> i \<and> i < 32768"

text \<open>The fields of an inode fit their C types.\<close>

definition i_wf :: "inode \<Rightarrow> bool" where
  "i_wf x \<longleftrightarrow> short (i_type x) \<and> short (i_major x) \<and> short (i_minor x) \<and> short (i_owner x) \<and> short (i_nlink x)
     \<and> i_size x < 2 ^ 32 \<and> length (i_addrs x) = NDIRECT \<and> (\<forall>a \<in> set (i_addrs x). a < 2 ^ 32)"

lemma di_put_append:
  assumes "length (i_addrs ip) = NDIRECT" "length x = 64"
  shows "di_put ip x = le_s16 (i_type ip) @ le_s16 (i_major ip) @ le_s16 (i_minor ip) @ le_s16 (i_owner ip)
    @ [i_perms ip] @ slice 9 1 x @ le_s16 (i_nlink ip) @ le32 (i_size ip) @ concat (map le32 (i_addrs ip))"
  using assms by (simp add: di_put_def patch_def slice_def NDIRECT_def drop_take)

lemma length_di_put: "length (i_addrs ip) = NDIRECT \<Longrightarrow> length x = 64 \<Longrightarrow> length (di_put ip x) = 64"
  by (simp add: di_put_append NDIRECT_def)

lemma di_addrs_put:
  assumes "i_wf ip" "length x = 64"
  shows "di_addrs (di_put ip x) = i_addrs ip"
proof (rule nth_equalityI)
  have l: "length (i_addrs ip) = NDIRECT" using assms(1) by (simp add: i_wf_def)
  then show "length (di_addrs (di_put ip x)) = length (i_addrs ip)" by (simp add: di_addrs_def)
  fix i assume "i < length (di_addrs (di_put ip x))"
  then have i: "i < length (i_addrs ip)" using l by (simp add: di_addrs_def)
  have "drop i (i_addrs ip) = i_addrs ip ! i # drop (Suc i) (i_addrs ip)" using i by (simp add: Cons_nth_drop_Suc)
  moreover have "drop 16 (di_put ip x) = concat (map le32 (i_addrs ip))"
    using l assms(2) by (simp add: di_put_append slice_def)
  then have "drop (16 + 4 * i) (di_put ip x) = concat (map le32 (drop i (i_addrs ip)))"
    by (metis add.commute drop_concat_le32 drop_drop)
  ultimately have "slice (16 + 4 * i) 4 (di_put ip x) = le32 (i_addrs ip ! i)" by (simp add: slice_def)
  moreover have "i_addrs ip ! i < 2 ^ 32" using assms(1) i by (auto simp: i_wf_def)
  ultimately show "di_addrs (di_put ip x) ! i = i_addrs ip ! i" using i l by (simp add: di_addrs_def)
qed

lemma di_load_put:
  assumes "i_wf ip" "length x = 64"
  shows "di_load (di_put ip x) y = y\<lparr>i_type := i_type ip, i_major := i_major ip, i_minor := i_minor ip,
     i_owner := i_owner ip, i_perms := i_perms ip, i_nlink := i_nlink ip, i_size := i_size ip,
     i_addrs := i_addrs ip\<rparr>"
proof -
  have l: "length (i_addrs ip) = NDIRECT" using assms(1) by (simp add: i_wf_def)
  note a = di_put_append [OF l assms(2)]
  have "s16 (unle16 (le_s16 (i_type ip))) = i_type ip" "s16 (unle16 (le_s16 (i_major ip))) = i_major ip"
    "s16 (unle16 (le_s16 (i_minor ip))) = i_minor ip" "s16 (unle16 (le_s16 (i_owner ip))) = i_owner ip"
    "s16 (unle16 (le_s16 (i_nlink ip))) = i_nlink ip"
    using assms(1) s16_le_s16 [of _ "[]"] by (simp_all add: i_wf_def short_def)
  moreover have "slice 0 2 (di_put ip x) = le_s16 (i_type ip)" "slice 2 2 (di_put ip x) = le_s16 (i_major ip)"
    "slice 4 2 (di_put ip x) = le_s16 (i_minor ip)" "slice 6 2 (di_put ip x) = le_s16 (i_owner ip)"
    "slice 10 2 (di_put ip x) = le_s16 (i_nlink ip)" "slice 12 4 (di_put ip x) = le32 (i_size ip)"
    "di_put ip x ! 8 = i_perms ip"
    using assms(2) by (simp_all add: a slice_def nth_append)
  ultimately show ?thesis
    using assms(1) di_addrs_put [OF assms]
    by (simp add: di_load_def di_type_def di_major_def di_minor_def di_owner_def di_perms_def di_nlink_def
        di_size_def i_wf_def)
qed

lemma di_slot: "(i mod IPB) * 64 + 64 \<le> BSIZE"
proof -
  have "i mod IPB \<le> 7" using mod_less_divisor [of IPB i] by (simp add: IPB_def)
  then show ?thesis by (simp add: BSIZE_def)
qed

lemma di_at_set [simp]: "length y = 64 \<Longrightarrow> length x = BSIZE \<Longrightarrow> di_at i (di_set i y x) = y"
  using slice_patch_same [of "(i mod IPB) * 64" y x] di_slot [of i] by (simp add: di_at_def di_set_def)

lemma di_at_set_other:
  assumes "i mod IPB \<noteq> j mod IPB" "length y = 64" "length x = BSIZE"
  shows "di_at j (di_set i y x) = di_at j x"
proof -
  have "(j mod IPB) * 64 + 64 \<le> (i mod IPB) * 64 \<or> (i mod IPB) * 64 + 64 \<le> (j mod IPB) * 64"
    using assms(1) by (cases "i mod IPB" "j mod IPB" rule: linorder_cases) auto
  then show ?thesis
    using assms slice_patch_disjoint [of "(i mod IPB) * 64" y x "(j mod IPB) * 64" 64] di_slot [of i] di_slot [of j]
    by (simp add: di_at_def di_set_def)
qed

lemma length_di_at [simp]: "length x = BSIZE \<Longrightarrow> length (di_at i x) = 64"
  using di_slot [of i] by (simp add: di_at_def)

lemma length_di_set [simp]: "length y = 64 \<Longrightarrow> length x = BSIZE \<Longrightarrow> length (di_set i y x) = BSIZE"
  using di_slot [of i] by (simp add: di_set_def)

section \<open>Writing and loading inodes\<close>

definition i_geom :: "superblock \<Rightarrow> (nat \<Rightarrow> bool) \<Rightarrow> bool" where
  "i_geom sb lz \<longleftrightarrow> (\<forall>i < sb_ninodes sb. IBLOCK i sb < FSSIZE \<and> \<not> lz (IBLOCK i sb))"

text \<open>Inode \<open>i\<close> of a disk with the contents \<open>m\<close>.\<close>

definition dinode :: "superblock \<Rightarrow> (nat \<Rightarrow> bytes) \<Rightarrow> nat \<Rightarrow> bytes" where
  "dinode sb m i = di_at i (m (IBLOCK i sb))"

lemma dinode_set:
  assumes "\<And>b. length (m b) = BSIZE" "length y = 64"
  shows "dinode sb (m(IBLOCK i sb := di_set i y (m (IBLOCK i sb)))) j = (if j = i then y else dinode sb m j)"
proof -
  have "i mod IPB \<noteq> j mod IPB" if "IBLOCK j sb = IBLOCK i sb" "j \<noteq> i"
    using that by (metis IBLOCK_def add_right_cancel div_mult_mod_eq)
  then show ?thesis using assms di_at_set_other [of i j y "m (IBLOCK i sb)"] by (auto simp: dinode_def)
qed

lemma iupdate_ok:
  assumes t: "tx d lz (Suc k) s" and x: "x = inodes s ! ip" "i_dev x = d" "length (i_addrs x) = NDIRECT"
    and sb: "getsuperblock d s = Some sb" "i_geom sb lz" "i_inum x < sb_ninodes sb"
    and h: "(d, IBLOCK (i_inum x) sb) \<notin> held s"
  shows "\<exists>s'. iupdate ip s = Inr ((), s') \<and> tx d lz k s' \<and>
    lstep d [(IBLOCK (i_inum x) sb, di_set (i_inum x) (di_put x (dinode sb (blk s d) (i_inum x)))
      (blk s d (IBLOCK (i_inum x) sb)))] s s'"
proof -
  let ?n = "i_inum x" and ?B = "IBLOCK (i_inum x) sb"
  let ?f = "\<lambda>y. di_set ?n (di_put x (di_at ?n y)) y"
  have B: "?B < FSSIZE" "\<not> lz ?B" using sb(2,3) by (auto simp: i_geom_def)
  have l: "length (blk s d ?B) = BSIZE" by (rule length_blk [OF txD(1) [OF t]])
  then have "length (?f (blk s d ?B)) = BSIZE" using x(3) by (simp add: length_di_put)
  from tx_update [where f = ?f, OF t B h refl this] obtain s' where
    s': "bupdate d ?B ?f s = Inr ((), s')" "lstep d [(?B, ?f (blk s d ?B))] s s'" "tx d lz k s'" by blast
  have "iupdate ip s = bupdate d ?B ?f s"
    using sb(1) x(1,2) by (simp add: iupdate_def iupdate1_def bupdate_def Let_def)
  then show ?thesis using s' by (auto simp: dinode_def)
qed

lemma brelse_inodes:
  "brelse i (s\<lparr>inodes := v\<rparr>) = bnd (brelse i s) (\<lambda>(_, s). Inr ((), s\<lparr>inodes := v\<rparr>))"
  by (simp add: brelse_def upd_buf_def wakeup_def wakeup1_def Let_def)

lemma rd_inodes [simp]: "rd d (s\<lparr>inodes := v\<rparr>) = rd d s" "rd d (upd_inode ip f s) = rd d s"
  by (simp_all add: rd_def)

lemma di_load_busy: "(di_load y x)\<lparr>i_busy := b\<rparr> = di_load y (x\<lparr>i_busy := b\<rparr>)"
  by (rule inode.equality) (simp_all add: di_load_def)

lemma ilock_load:
  assumes r: "rd d s" and x: "x = inodes s ! ip" "i_dev x = d" "1 \<le> i_ref x" "\<not> i_busy x" "\<not> i_valid x"
    and ip: "ip < length (inodes s)"
    and sb: "getsuperblock d s = Some sb" "IBLOCK (i_inum x) sb < FSSIZE" "(d, IBLOCK (i_inum x) sb) \<notin> held s"
  shows "\<exists>s'. ilock (Some ip) s = Inr ((), s') \<and> rd d s' \<and>
    fstep d [] ((inodes s)[ip := (di_load (dinode sb (blk s d) (i_inum x)) x)\<lparr>i_busy := True, i_valid := True\<rparr>]) s s'"
proof -
  let ?B = "IBLOCK (i_inum x) sb" and ?b = "\<lambda>x. x\<lparr>i_busy := True\<rparr>"
  let ?s = "upd_inode ip ?b s"
  let ?y = "(di_load (dinode sb (blk s d) (i_inum x)) x)\<lparr>i_busy := True\<rparr>"
  from rd_read [of d ?s ?B] r sb(2,3) obtain i s1 s2 where
    1: "bread d ?B ?s = Inr (i, s1)" "b_data (bufs s1 ! i) = blk s d ?B"
    "brelse i s1 = Inr ((), s2)" "lstep d [] ?s s2" "rd d s2" by auto
  have i2: "inodes s2 = (inodes s)[ip := ?b x]" using lstep_inodes(1) [OF 1(4)] x(1) by simp
  have i1: "inodes s1 = inodes s2"
    using 1(3) by (auto simp: brelse_def Let_def upd_buf_def wakeup_def wakeup1_def split: if_splits)
  let ?v = "(inodes s)[ip := ?y]"
  have u: "upd_inode ip (di_load (di_at (i_inum x) (blk s d ?B))) s1 = s1\<lparr>inodes := ?v\<rparr>"
    using ip by (simp add: upd_inode_def i1 i2 dinode_def di_load_busy)
  let ?s' = "s2\<lparr>inodes := (inodes s)[ip := ?y\<lparr>i_valid := True\<rparr>]\<rparr>"
  have "ilock (Some ip) s = Inr ((), ?s')"
    using x ip 1(1,2,3) sb(1) by (simp add: ilock_def Let_def u [unfolded x(1)] brelse_inodes) (simp add: upd_inode_def)
  moreover have "fstep d [] ((inodes s)[ip := ?y\<lparr>i_valid := True\<rparr>]) s ?s'"
    using lstep_inodes(3) [OF 1(4)] by (simp add: fstep_def upd_inode_def)
  ultimately show ?thesis using 1(5) by simp
qed

section \<open>References\<close>

lemma dframe_inodes:
  assumes "dframe (s :: 'a fsst_scheme) s'"
  shows "inodes s' = inodes s" "rootdir s' = rootdir s" "havesysfs s' = havesysfs s" "fsst.more s' = fsst.more s"
  using assms by (cases s, cases s', simp add: dframe_def)+

text \<open>What identifies an entry of the inode cache, and its reference count.\<close>

definition ident :: "inode \<Rightarrow> (nat \<times> nat) \<times> int" where
  "ident x = ((i_dev x, i_inum x), i_ref x)"

abbreviation idents :: "'a fsst_scheme \<Rightarrow> ((nat \<times> nat) \<times> int) list" where
  "idents s \<equiv> map ident (inodes s)"

lemma ident_sels [simp]:
  "ident (x\<lparr>i_addrs := a\<rparr>) = ident x" "ident (x\<lparr>i_size := n\<rparr>) = ident x" "ident (x\<lparr>i_type := t\<rparr>) = ident x"
  "ident (x\<lparr>i_busy := b\<rparr>) = ident x" "ident (x\<lparr>i_valid := b\<rparr>) = ident x" "ident (di_load y x) = ident x"
  "ident (x\<lparr>i_ismpoint := b\<rparr>) = ident x" "ident (x\<lparr>i_ismroot := b\<rparr>) = ident x"
  by (simp_all add: ident_def di_load_def)

lemma idents_upd [simp]: "ident y = ident (xs ! ip) \<Longrightarrow> map ident (xs[ip := y]) = map ident xs"
  by (cases "ip < length xs") (metis list_update_id map_update nth_map, simp add: list_update_beyond)

lemma idents_upd_inode [simp]: "(\<And>x. ident (f x) = ident x) \<Longrightarrow> idents (upd_inode ip f s) = idents s"
  by simp

named_theorems idents_keep \<open>operations that keep the identity and the references of cached inodes\<close>

lemma dframe_idents: "dframe s s' \<Longrightarrow> idents s' = idents s"
  by (simp add: dframe_inodes)

lemma balloc_loop_df: "balloc_loop d sb bs s = Inr (r, s') \<Longrightarrow> dframe s s'"
proof (induction bs arbitrary: s)
  case (Cons b bs)
  from Cons.prems obtain bp s1 where 1: "bread d (BBLOCK b sb) s = Inr (bp, s1)"
    and r: "(case find (\<lambda>bi. \<not> bm_bit (b_data (bufs s1 ! bp)) bi) [0..<min BPB (sb_size sb - b)] of
        Some bi \<Rightarrow>
          bnd (log_write bp (set_data bp (bm_set bi (b_data (bufs s1 ! bp))) s1)) (\<lambda>(_, s).
          bnd (brelse bp s) (\<lambda>(_, s).
          bnd (bzero d (b + bi) s) (\<lambda>(_, s). Inr (b + bi, s))))
      | None \<Rightarrow> bnd (brelse bp s1) (\<lambda>(_, s). balloc_loop d sb bs s)) = Inr (r, s')"
    by (auto simp: bnd_eq_Inr Let_def)
  have "dframe s1 s'"
    using r Cons.IH by (auto simp: bnd_eq_Inr bzero_def split: option.splits dest!: df; meson dframe_trans)
  then show ?case using 1 bread_df dframe_trans by blast
qed simp

lemma balloc_df [df]: "balloc d s = Inr (r, s') \<Longrightarrow> dframe s s'"
  by (auto simp: balloc_def split: option.splits dest: balloc_loop_df)

lemma bfree_df [df]: "bfree d b s = Inr (r, s') \<Longrightarrow> dframe s s'"
  by (auto simp: bfree_def bnd_eq_Inr split: option.splits dest!: df) (meson dframe_trans)

lemma bwrite_set_df [df]: "bwrite i (set_data i x s) = Inr (r, s') \<Longrightarrow> dframe s s'"
  using bwrite_df [of i "set_data i x s" r s'] dframe_trans [of s "set_data i x s" s'] by simp

lemma iupdate1_df [df]: "iupdate1 ip direct s = Inr (r, s') \<Longrightarrow> dframe s s'"
  by (cases direct) (auto simp: iupdate1_def bnd_eq_Inr Let_def split: option.splits dest!: df; meson dframe_trans)+

lemma bfreeref_df [df]: "bfreeref ip a s = Inr (r, s') \<Longrightarrow> dframe s s'"
  by (auto simp: bfreeref_def bnd_eq_Inr Let_def offset2real_def split: if_splits dest!: df) (meson dframe_trans)

lemma bmap_indirect_idents [idents_keep]: "bmap_indirect ip blkno s = Inr (r, s') \<Longrightarrow> idents s' = idents s"
  by (auto simp: bmap_indirect_def bnd_eq_Inr dframe_inodes split: if_splits dest!: df)

lemma bmap_entry_df [df]: "bmap_entry dev bp ptr s = Inr (r, s') \<Longrightarrow> dframe s s'"
  by (auto simp: bmap_entry_def bnd_eq_Inr split: if_splits dest!: df) (meson dframe_trans)

lemma bmap_g_idents [idents_keep]:
  "bmap_g ip bn create s = Inr (r, s') \<Longrightarrow> idents s' = idents s"
  by (auto simp: bmap_g_def bnd_eq_Inr Let_def offset2real_def dframe_inodes
      split: if_splits dest!: df bmap_indirect_idents)

lemma itrunc_loop_idents [idents_keep]: "itrunc_loop ip is s = Inr (r, s') \<Longrightarrow> idents s' = idents s"
  by (induction "is" arbitrary: s)
    (auto simp: bnd_eq_Inr dframe_inodes split: if_splits dest!: df bmap_g_idents)

lemma itrunc_idents [idents_keep]: "itrunc ip s = Inr (r, s') \<Longrightarrow> idents s' = idents s"
  by (auto simp: itrunc_def iupdate_def bnd_eq_Inr dframe_inodes dest!: df itrunc_loop_idents)

lemma ident_drop:
  assumes "idents s1 = idents s" "ip < length (inodes s)"
  shows "idents (upd_inode ip (\<lambda>x. x\<lparr>i_ref := i_ref x + n\<rparr>) s1)
    = (idents s)[ip := ((i_dev (inodes s ! ip), i_inum (inodes s ! ip)), i_ref (inodes s ! ip) + n)]"
proof -
  have "ip < length (inodes s1)" using assms by (metis length_map)
  then have "ident (inodes s1 ! ip) = ident (inodes s ! ip)" using assms by (metis nth_map)
  then show ?thesis using assms(1) by (simp add: map_update ident_def)
qed

lemma iput1_idents:
  assumes "iput1 ip direct s = Inr (r, s')" "ip < length (inodes s)"
  shows "idents s' = (idents s)[ip := ((i_dev (inodes s ! ip), i_inum (inodes s ! ip)), i_ref (inodes s ! ip) - 1)]"
proof -
  let ?x = "inodes s ! ip"
  obtain s1 where s1: "(if i_ref ?x = 1 \<and> i_valid ?x \<and> i_nlink ?x = 0
          then if i_busy ?x then Inl (Panic ''iput busy'')
            else bnd (itrunc ip (upd_inode ip (\<lambda>x. x\<lparr>i_busy := True\<rparr>) s)) (\<lambda>(_, s).
                 bnd (iupdate1 ip direct (upd_inode ip (\<lambda>x. x\<lparr>i_type := 0\<rparr>) s)) (\<lambda>(_, s).
                 Inr ((), wakeup (ChInode ip) (upd_inode ip (\<lambda>x. x\<lparr>i_busy := False, i_valid := False,
                   i_ismpoint := False, i_ismroot := False\<rparr>) s))))
          else Inr ((), s)) = Inr ((), s1)" and s': "s' = upd_inode ip (\<lambda>x. x\<lparr>i_ref := i_ref x - 1\<rparr>) s1"
    using assms(1) by (auto simp: iput1_def Let_def bnd_eq_Inr)
  have w: "inodes (wakeup c t) = inodes t" for c and t :: "'a fsst_scheme"
    by (simp add: wakeup_def wakeup1_def)
  have "idents s1 = idents s"
    using s1 by (auto simp: bnd_eq_Inr dframe_idents w simp del: upd_inode_sel(1) split: if_splits dest!: df itrunc_idents)
  then show ?thesis using ident_drop [OF _ assms(2), where n = "- 1"] s' by simp
qed

lemma ilock_idents: "ilock p s = Inr (r, s') \<Longrightarrow> idents s' = idents s"
  by (auto simp: ilock_def Let_def bnd_eq_Inr sleep_def dframe_idents simp del: upd_inode_sel(1)
      split: option.splits if_splits dest!: df)

lemma iunlock_idents: "idents (iunlock p s) = idents s"
  by (auto simp: iunlock_def wakeup_def wakeup1_def split: option.splits)

section \<open>The inode cache holds one entry per inode\<close>

text \<open>Each inode has at most one entry in use, and no count is negative.\<close>

definition icinv :: "((nat \<times> nat) \<times> int) list \<Rightarrow> bool" where
  "icinv xs \<longleftrightarrow> (\<forall>i < length xs. 0 \<le> snd (xs ! i))
     \<and> (\<forall>i < length xs. \<forall>j < length xs. fst (xs ! i) = fst (xs ! j) \<and> 0 < snd (xs ! i) \<and> 0 < snd (xs ! j) \<longrightarrow> i = j)"

lemma icinv_set:
  assumes "icinv xs" "i < length xs" "0 \<le> q"
    and "\<And>j. j < length xs \<Longrightarrow> j \<noteq> i \<Longrightarrow> fst (xs ! j) = k \<Longrightarrow> 0 < snd (xs ! j) \<Longrightarrow> False"
  shows "icinv (xs[i := (k, q)])"
  unfolding icinv_def
proof (intro conjI allI impI)
  fix j assume "j < length (xs[i := (k, q)])"
  then show "0 \<le> snd (xs[i := (k, q)] ! j)" using assms(1-3) by (simp add: nth_list_update icinv_def)
next
  fix j l assume "j < length (xs[i := (k, q)])" "l < length (xs[i := (k, q)])"
    "fst (xs[i := (k, q)] ! j) = fst (xs[i := (k, q)] ! l) \<and> 0 < snd (xs[i := (k, q)] ! j) \<and> 0 < snd (xs[i := (k, q)] ! l)"
  then show "j = l"
    using assms(1,2) assms(4) [of j] assms(4) [of l]
    by (auto simp: nth_list_update icinv_def split: if_splits)
qed

lemma icinv_ref:
  assumes "icinv xs" "i < length xs" "fst (xs ! i) = k" "0 < snd (xs ! i)" "0 \<le> q"
  shows "icinv (xs[i := (k, q)])"
  using assms by (intro icinv_set) (auto simp: icinv_def)

text \<open>The calls on the inode cache, and what a caller must respect: it passes pointers it holds a
  reference to, and an inode a disk is mounted on has its mounted root in use.\<close>

datatype icall = Iget nat nat | Idup nat | Iref nat | Iunref nat | Ilock nat | Iunlock nat
  | Iupdate nat bool | Itrunc nat | Iput nat bool

fun do_icall :: "icall \<Rightarrow> 'a fsst_scheme \<Rightarrow> ('a fsst_scheme, unit) outcome" where
  "do_icall (Iget d n) s = bnd (iget d n s) (\<lambda>(_, s). Inr ((), s))"
| "do_icall (Idup i) s = Inr ((), snd (idup (Some i) s))"
| "do_icall (Iref i) s = Inr ((), iref (Some i) s)"
| "do_icall (Iunref i) s = Inr ((), iunref (Some i) s)"
| "do_icall (Ilock i) s = ilock (Some i) s"
| "do_icall (Iunlock i) s = Inr ((), iunlock (Some i) s)"
| "do_icall (Iupdate i direct) s = iupdate1 i direct s"
| "do_icall (Itrunc i) s = itrunc i s"
| "do_icall (Iput i direct) s = iput1 i direct s"

fun legal :: "icall \<Rightarrow> 'a fsst_scheme \<Rightarrow> bool" where
  "legal (Iget d n) s \<longleftrightarrow> (\<forall>i r. i < length (inodes s) \<longrightarrow> i_match d n (inodes s ! i) \<longrightarrow> i_ismpoint (inodes s ! i) \<longrightarrow>
     i_mountroot (inodes s ! i) = Some r \<longrightarrow> r < length (inodes s) \<and> 0 < i_ref (inodes s ! r))"
| "legal (Idup i) s \<longleftrightarrow> i < length (inodes s) \<and> 0 < i_ref (inodes s ! i)"
| "legal (Iref i) s \<longleftrightarrow> i < length (inodes s) \<and> 0 < i_ref (inodes s ! i)"
| "legal (Iunref i) s \<longleftrightarrow> i < length (inodes s) \<and> 0 < i_ref (inodes s ! i)"
| "legal (Iput i direct) s \<longleftrightarrow> i < length (inodes s) \<and> 0 < i_ref (inodes s ! i)"
| "legal _ s \<longleftrightarrow> True"

inductive icrun :: "'a fsst_scheme \<Rightarrow> 'a fsst_scheme \<Rightarrow> bool" where
  icrun_refl: "icrun s s"
| icrun_step: "icrun s s1 \<Longrightarrow> legal c s1 \<Longrightarrow> do_icall c s1 = Inr ((), s2) \<Longrightarrow> icrun s s2"

lemma icinv_add:
  assumes "icinv (idents s)" "i < length (inodes s)" "0 < i_ref (inodes s ! i)" "0 \<le> i_ref (inodes s ! i) + n"
  shows "icinv (idents (upd_inode i (\<lambda>x. x\<lparr>i_ref := i_ref x + n\<rparr>) s))"
  unfolding ident_drop [OF refl assms(2)]
  using assms by (intro icinv_ref) (auto simp: ident_def)

lemma icinv_iget:
  assumes "icinv (idents s)" "legal (Iget d n) s" "iget d n s = Inr (r, s')"
  shows "icinv (idents s')"
proof (cases "find_index (i_match d n) (inodes s)")
  case None
  then have no: "\<forall>x \<in> set (inodes s). \<not> i_match d n x" by (simp add: find_index_None)
  obtain e where e: "e < length (inodes s)" "s' = upd_inode e (\<lambda>x. x\<lparr>i_dev := d, i_inum := n, i_ref := 1,
      i_busy := False, i_valid := False, i_ismpoint := False, i_ismroot := False\<rparr>) s"
    using assms(3) None by (auto simp: iget_def split: option.splits dest: find_index_SomeD)
  then have "idents s' = (idents s)[e := ((d, n), 1)]" by (simp add: map_update ident_def)
  moreover have "icinv ((idents s)[e := ((d, n), 1)])"
    using assms(1) e(1) no by (intro icinv_set) (auto simp: ident_def i_match_def)
  ultimately show ?thesis by simp
next
  case (Some i)
  note f = find_index_SomeD [OF Some]
  have m: "0 < i_ref (inodes s ! i)" using f(2) by (simp add: i_match_def)
  show ?thesis
  proof (cases "i_ismpoint (inodes s ! i)")
    case True
    then obtain q where q: "i_mountroot (inodes s ! i) = Some q" "s' = upd_inode q (\<lambda>x. x\<lparr>i_ref := i_ref x + 1\<rparr>) s"
      using assms(3) Some by (simp add: iget_def split: option.splits)
    have "q < length (inodes s)" "0 < i_ref (inodes s ! q)" using assms(2) f(1,2) True q(1) by simp_all
    then show ?thesis using icinv_add [OF assms(1), of q 1] q(2) by simp
  next
    case False
    then have "s' = upd_inode i (\<lambda>x. x\<lparr>i_ref := i_ref x + 1\<rparr>) s" using assms(3) Some by (auto simp: iget_def)
    then show ?thesis using icinv_add [OF assms(1) f(1) m, of 1] m by simp
  qed
qed

lemma icinv_step:
  assumes "icinv (idents s)" "legal c s" "do_icall c s = Inr ((), s')"
  shows "icinv (idents s')"
proof (cases c)
  case (Iget d n)
  then show ?thesis using assms icinv_iget [of s d n] by (auto simp: bnd_eq_Inr)
next
  case (Iput i direct)
  have "0 < i_ref (inodes s ! i)" "i < length (inodes s)" using assms(2) Iput by auto
  then show ?thesis
    using assms iput1_idents [of i direct s "()" s'] Iput icinv_ref [OF assms(1), of i] by (auto simp: ident_def)
next
  case (Iunref i)
  have "0 < i_ref (inodes s ! i)" "i < length (inodes s)" using assms(2) Iunref by auto
  then show ?thesis using assms icinv_add [OF assms(1), of i "- 1"] Iunref by (auto simp: iunref_def)
next
  case (Iupdate i direct)
  then show ?thesis using assms dframe_idents [OF iupdate1_df, of i direct s "()" s'] by simp
qed (use assms icinv_add [OF assms(1), of _ 1] in \<open>auto simp: idup_def iref_def iunlock_idents
    dest: ilock_idents itrunc_idents simp del: upd_inode_sel(1)\<close>)

lemma icrun_icinv: "icrun s s' \<Longrightarrow> icinv (idents s) \<Longrightarrow> icinv (idents s')"
  by (induction rule: icrun.induct) (auto intro: icinv_step)

text \<open>
  C18. The inode cache keeps one entry per inode: from a cache without duplicates, no sequence of calls
  of \<^verbatim>\<open>iget\<close>, \<^verbatim>\<open>idup\<close>, \<^verbatim>\<open>iref\<close>, \<^verbatim>\<open>iunref\<close>, \<^verbatim>\<open>ilock\<close>, \<^verbatim>\<open>iunlock\<close>, \<^verbatim>\<open>iupdate\<close>, \<^verbatim>\<open>itrunc\<close> and \<^verbatim>\<open>iput\<close> (direct
  or logged), made with pointers the caller holds a reference to, leads to two referenced entries
  for the same inode or to a negative count.
\<close>

theorem icache_unique:
  assumes "icrun s s'" "icinv (idents s)"
  shows "(\<forall>i < length (inodes s'). 0 \<le> i_ref (inodes s' ! i))
    \<and> (\<forall>i < length (inodes s'). \<forall>j < length (inodes s').
        0 < i_ref (inodes s' ! i) \<and> 0 < i_ref (inodes s' ! j)
        \<and> i_dev (inodes s' ! i) = i_dev (inodes s' ! j) \<and> i_inum (inodes s' ! i) = i_inum (inodes s' ! j) \<longrightarrow> i = j)"
  using icrun_icinv [OF assms] unfolding icinv_def by (simp add: ident_def)

lemma iget_cases:
  assumes "iget d n s = Inr (i, s1)" "\<forall>x \<in> set (inodes s). i_match d n x \<longrightarrow> \<not> i_ismpoint x"
  shows "\<exists>y. s1 = upd_inode i (\<lambda>_. y) s \<and> i < length (inodes s) \<and> i_match d n y \<and> \<not> i_ismpoint y
    \<and> i_ref y = (if i_match d n (inodes s ! i) then i_ref (inodes s ! i) + 1 else 1)
    \<and> (\<forall>j < i. \<not> i_match d n (inodes s ! j))"
proof (cases "find_index (i_match d n) (inodes s)")
  case None
  let ?y = "(inodes s ! i)\<lparr>i_dev := d, i_inum := n, i_ref := 1,
    i_busy := False, i_valid := False, i_ismpoint := False, i_ismroot := False\<rparr>"
  have e: "find_index i_free (inodes s) = Some i" "s1 = upd_inode i (\<lambda>_. ?y) s"
    using assms(1) None by (auto simp: iget_def upd_inode_def split: option.splits)
  have "\<forall>j < length (inodes s). \<not> i_match d n (inodes s ! j)" using None by (simp add: find_index_None)
  then show ?thesis
    using e(2) find_index_SomeD(1) [OF e(1)] by (intro exI [of _ ?y]) (simp add: i_match_def)
next
  case (Some k)
  note f = find_index_SomeD [OF Some]
  have k: "\<not> i_ismpoint (inodes s ! k)" using f(1,2) assms(2) by auto
  then have "k = i" "s1 = upd_inode i (\<lambda>x. x\<lparr>i_ref := i_ref x + 1\<rparr>) s"
    using assms(1) Some by (auto simp: iget_def)
  then show ?thesis
    using f k by (intro exI [of _ "(inodes s ! i)\<lparr>i_ref := i_ref (inodes s ! i) + 1\<rparr>"])
      (auto simp: upd_inode_def i_match_def)
qed

lemma iget_returns:
  assumes "\<exists>x \<in> set (inodes s). i_ref x = 0" "\<forall>x \<in> set (inodes s). i_match d n x \<longrightarrow> \<not> i_ismpoint x"
  shows "\<exists>i s'. iget d n s = Inr (i, s')"
proof -
  obtain e where "find_index i_free (inodes s) = Some e"
    using assms(1) find_index_exists [of _ "inodes s" i_free] by (auto simp: i_free_def)
  moreover have "\<not> i_ismpoint (inodes s ! k)" if "find_index (i_match d n) (inodes s) = Some k" for k
    using find_index_SomeD(1,2) [OF that] assms(2) by simp
  ultimately show ?thesis by (auto simp: iget_def split: option.split)
qed

text \<open>
  \<^verbatim>\<open>iget\<close> gives every caller the same pointer: after it has returned an entry for an inode no disk
  is mounted on, that entry is for this inode, and the next \<^verbatim>\<open>iget\<close> of the same inode returns the same
  entry and only counts one more reference.
\<close>

theorem iget_shares:
  assumes "iget d n s = Inr (i, s1)" "\<forall>x \<in> set (inodes s). i_match d n x \<longrightarrow> \<not> i_ismpoint x"
  shows "i < length (inodes s) \<and> i_match d n (inodes s1 ! i)
    \<and> i_ref (inodes s1 ! i) = (if i_match d n (inodes s ! i) then i_ref (inodes s ! i) + 1 else 1)
    \<and> iget d n s1 = Inr (i, upd_inode i (\<lambda>x. x\<lparr>i_ref := i_ref x + 1\<rparr>) s1)"
proof -
  obtain y where y: "s1 = upd_inode i (\<lambda>_. y) s" "i < length (inodes s)" "i_match d n y" "\<not> i_ismpoint y"
    "i_ref y = (if i_match d n (inodes s ! i) then i_ref (inodes s ! i) + 1 else 1)"
    "\<forall>j < i. \<not> i_match d n (inodes s ! j)" using iget_cases [OF assms] by blast
  have "find_index (i_match d n) (inodes s1) = Some i"
    unfolding find_index_Some using y by (simp add: nth_list_update)
  then show ?thesis using y by (auto simp: iget_def)
qed

text \<open>A cache of four entries, one of them in use, above the example disk.\<close>

definition zero_inode :: inode where
  "zero_inode = \<lparr>i_dev = 0, i_inum = 0, i_ref = 0, i_busy = False, i_valid = False, i_ismpoint = False,
     i_ismroot = False, i_mountroot = None, i_mountparent = None, i_mountpoint = None, i_type = 0,
     i_major = 0, i_minor = 0, i_owner = 0, i_perms = 0, i_attrib = 0, i_nlink = 0, i_size = 0,
     i_addrs = replicate NDIRECT 0\<rparr>"

definition fs_on :: "(nat \<Rightarrow> bytes) \<Rightarrow> inode list \<Rightarrow> fsst" where
  "fs_on m ins = dst.extend (mounted_on m sb1) \<lparr>inodes = ins, rootdir = Some 0, havesysfs = True, \<dots> = ()\<rparr>"

lemma inodes_fs_on [simp]: "inodes (fs_on m ins) = ins"
  by (simp add: fs_on_def dst.defs)

lemma fs_on_ok:
  assumes "\<And>b. length (m b) = BSIZE" "hdr_n (m 2) = 0"
  shows "tx 0 zone0 28 (fs_on m ins)" "held (fs_on m ins) = {}" "blk (fs_on m ins) 0 = m"
    "getsuperblock 0 (fs_on m ins) = Some sb1" "rd 0 (fs_on m ins)" "linv 0 log0 (fs_on m ins)"
proof -
  note d = dsame_extend [of "mounted_on m sb1" "\<lparr>inodes = ins, rootdir = Some 0, havesysfs = True, \<dots> = ()\<rparr>", folded fs_on_def]
  note m = mounted_on_ok [of m sb1, OF assms]
  show t: "tx 0 zone0 28 (fs_on m ins)" using dsame_cache(5) [OF d] m(1) by simp
  show "held (fs_on m ins) = {}" "blk (fs_on m ins) 0 = m" "getsuperblock 0 (fs_on m ins) = Some sb1"
    using dsame_views(1,6) [OF d] dsame_cache(1) [OF d] m by simp_all
  show "rd 0 (fs_on m ins)" by (rule tx_rd [OF t])
  show "linv 0 log0 (fs_on m ins)" using dsame_cache(4) [OF d] m(6) by simp
qed

definition ic1 :: "inode list" where
  "ic1 = [zero_inode\<lparr>i_inum := 1, i_ref := 1\<rparr>, zero_inode, zero_inode, zero_inode]"

theorem icache_unique_witness:
  "\<exists>s. icrun (fs_on img1 ic1) s \<and> length (inodes s) = 4 \<and> i_ref (inodes s ! 0) = 2 \<and> i_ref (inodes s ! 1) = 1
    \<and> (\<forall>j < length (inodes s). 0 < i_ref (inodes s ! 0) \<and> 0 < i_ref (inodes s ! j)
        \<and> i_dev (inodes s ! 0) = i_dev (inodes s ! j) \<and> i_inum (inodes s ! 0) = i_inum (inodes s ! j) \<longrightarrow> 0 = j)"
proof -
  let ?s = "fs_on img1 ic1"
  define s1 where "s1 = upd_inode 0 (\<lambda>x. x\<lparr>i_ref := i_ref x + 1\<rparr>) ?s"
  define s2 where "s2 = upd_inode 1 (\<lambda>x. x\<lparr>i_dev := 0, i_inum := 5, i_ref := 1, i_busy := False,
    i_valid := False, i_ismpoint := False, i_ismroot := False\<rparr>) s1"
  have i1: "inodes s1 = [zero_inode\<lparr>i_inum := 1, i_ref := 2\<rparr>, zero_inode, zero_inode, zero_inode]"
    by (simp add: s1_def ic1_def)
  have 1: "do_icall (Iget 0 1) ?s = Inr ((), s1)" "legal (Iget 0 1) ?s"
    by (simp_all add: iget_def s1_def ic1_def i_match_def zero_inode_def nth_Cons' upd_inode_def)
  have 2: "do_icall (Iget 0 5) s1 = Inr ((), s2)" "legal (Iget 0 5) s1"
    by (simp_all add: iget_def i1 s2_def i_match_def i_free_def zero_inode_def nth_Cons' upd_inode_def)
  have r: "icrun ?s s2" by (rule icrun_step [OF icrun_step [OF icrun_refl 1(2,1)] 2(2,1)])
  have "icinv (idents ?s)"
    by (auto simp: icinv_def ic1_def ident_def zero_inode_def nth_Cons' split: if_splits)
  note u = icache_unique [OF r this]
  have "inodes s2 = [zero_inode\<lparr>i_inum := 1, i_ref := 2\<rparr>, zero_inode\<lparr>i_inum := 5, i_ref := 1\<rparr>, zero_inode, zero_inode]"
    by (simp add: s2_def i1) (simp add: zero_inode_def)
  then have "length (inodes s2) = 4" "i_ref (inodes s2 ! 0) = 2" "i_ref (inodes s2 ! 1) = 1" by simp_all
  then show ?thesis using r u by (intro exI [of _ s2]) simp
qed

theorem iget_shares_witness:
  "\<exists>s1. iget 0 1 (fs_on img1 ic1) = Inr (0, s1) \<and> i_ref (inodes s1 ! 0) = 2
     \<and> iget 0 1 s1 = Inr (0, upd_inode 0 (\<lambda>x. x\<lparr>i_ref := i_ref x + 1\<rparr>) s1)"
proof -
  have e: "iget 0 1 (fs_on img1 ic1) = Inr (0, upd_inode 0 (\<lambda>x. x\<lparr>i_ref := i_ref x + 1\<rparr>) (fs_on img1 ic1))"
    by (simp add: iget_def ic1_def i_match_def zero_inode_def)
  show ?thesis
    using e iget_shares [OF e] by (simp add: ic1_def i_match_def zero_inode_def)
qed

end
