(* ===== verification/InodeDisk.thy ===== *)
theory InodeDisk
  imports Inode
begin

text \<open>
  Inodes between the cache and the disk: an inode written by \<^verbatim>\<open>iupdate\<close> is read back by \<^verbatim>\<open>ilock\<close>,
  \<^verbatim>\<open>ialloc\<close> takes the first free inode, and what \<^verbatim>\<open>itrunc\<close> and \<^verbatim>\<open>iput\<close> do to a file without links.
\<close>

section \<open>Update and load\<close>

text \<open>
  C31. An inode survives the trip to the disk: after \<^verbatim>\<open>iupdate\<close> in a transaction, locking any entry
  of the cache for the same inode whose fields are not loaded gives it the type, device numbers, owner,
  permissions, link count, size and block addresses the updated entry had, and the other inodes
  of the disk are unchanged.
\<close>

theorem iupdate_ilock_roundtrip:
  assumes t: "tx d lz (Suc k) s" and x: "x = inodes s ! ip" "i_dev x = d" "i_wf x"
    and sb: "getsuperblock d s = Some sb" "i_geom sb lz" "i_inum x < sb_ninodes sb"
    and h: "(d, IBLOCK (i_inum x) sb) \<notin> held s"
    and y: "jp < length (inodes s)" "i_match d (i_inum x) (inodes s ! jp)"
      "\<not> i_busy (inodes s ! jp)" "\<not> i_valid (inodes s ! jp)"
  shows "\<exists>s1 s2. iupdate ip s = Inr ((), s1) \<and> ilock (Some jp) s1 = Inr ((), s2)
    \<and> inodes s2 ! jp = (inodes s ! jp)\<lparr>i_busy := True, i_valid := True, i_type := i_type x, i_major := i_major x,
        i_minor := i_minor x, i_owner := i_owner x, i_perms := i_perms x, i_nlink := i_nlink x,
        i_size := i_size x, i_addrs := i_addrs x\<rparr>
    \<and> (\<forall>n. n \<noteq> i_inum x \<longrightarrow> dinode sb (blk s2 d) n = dinode sb (blk s d) n)"
proof -
  let ?n = "i_inum x" and ?y = "inodes s ! jp"
  let ?w = "di_put x (dinode sb (blk s d) ?n)"
  have l: "length (i_addrs x) = NDIRECT" using x(3) by (simp add: i_wf_def)
  have lb: "length (blk s d b) = BSIZE" for b by (rule length_blk [OF txD(1) [OF t]])
  obtain s1 where s1: "iupdate ip s = Inr ((), s1)" "tx d lz k s1"
    "lstep d [(IBLOCK ?n sb, di_set ?n ?w (blk s d (IBLOCK ?n sb)))] s s1"
    using iupdate_ok [OF t x(1,2) l sb h] by blast
  note st = lstepD [OF s1(3)]
  have in1: "inodes s1 = inodes s" by (rule lstep_inodes [OF s1(3)])
  have lw: "length ?w = 64" by (simp add: length_di_put l dinode_def lb)
  have "blk s1 d = (blk s d)(IBLOCK ?n sb := di_set ?n ?w (blk s d (IBLOCK ?n sb)))" unfolding st(4) by simp
  then have dn: "dinode sb (blk s1 d) n = (if n = ?n then ?w else dinode sb (blk s d) n)" for n
    using dinode_set [of "blk s d" ?w sb ?n n] lb lw by simp
  have yy: "i_dev ?y = d" "1 \<le> i_ref ?y" "i_inum ?y = ?n" using y(2) by (auto simp: i_match_def)
  have B: "IBLOCK (i_inum ?y) sb < FSSIZE" "(d, IBLOCK (i_inum ?y) sb) \<notin> held s1"
    using sb(2,3) h yy(3) st(5) by (auto simp: i_geom_def)
  have sb1: "getsuperblock d s1 = Some sb" using lstep_superblock [OF s1(3) txD(3) [OF t]] sb(1) by simp
  obtain s2 where s2: "ilock (Some jp) s1 = Inr ((), s2)"
    "fstep d [] ((inodes s)[jp := (di_load (dinode sb (blk s1 d) ?n) ?y)\<lparr>i_busy := True, i_valid := True\<rparr>]) s1 s2"
    using ilock_load [OF tx_rd [OF s1(2)], of ?y jp sb] yy y B sb1 by (auto simp: in1)
  have "inodes s2 ! jp = (di_load ?w ?y)\<lparr>i_busy := True, i_valid := True\<rparr>"
    using fstepD(1) [OF s2(2)] y(1) dn by simp
  moreover have "blk s2 d = blk s1 d" using fstepD(2) [OF s2(2)] by simp
  ultimately show ?thesis
    using s1(1) s2(1) dn di_load_put [OF x(3), of "dinode sb (blk s d) ?n" ?y] lb
    by (intro exI [of _ s1] exI [of _ s2]) (simp add: dinode_def)
qed

theorem iupdate_ilock_roundtrip_witness:
  "\<exists>s1 s2. iupdate 0 (fs_on img1 [zero_inode\<lparr>i_inum := 3, i_type := 2, i_nlink := -1, i_size := 700\<rparr>, zero_inode\<lparr>i_inum := 3, i_ref := 1\<rparr>])
      = Inr ((), s1) \<and> ilock (Some 1) s1 = Inr ((), s2)
    \<and> i_type (inodes s2 ! 1) = 2 \<and> i_nlink (inodes s2 ! 1) = -1 \<and> i_size (inodes s2 ! 1) = 700"
proof -
  let ?x = "zero_inode\<lparr>i_inum := 3, i_type := 2, i_nlink := -1, i_size := 700\<rparr>"
  let ?s = "fs_on img1 [?x, zero_inode\<lparr>i_inum := 3, i_ref := 1\<rparr>]"
  note f = fs_on_ok [of img1, OF img1_ok(1,2)]
  have t: "tx 0 zone0 (Suc 27) ?s" using f(1) by simp
  have w: "i_wf ?x" by (simp add: i_wf_def short_def zero_inode_def NDIRECT_def)
  have g: "i_geom sb1 zone0" by (auto simp: i_geom_def sb1_def IBLOCK_def IPB_def FSSIZE_def zone0_def)
  have "\<exists>s1 s2. iupdate 0 ?s = Inr ((), s1) \<and> ilock (Some 1) s1 = Inr ((), s2)
    \<and> inodes s2 ! 1 = (inodes ?s ! 1)\<lparr>i_busy := True, i_valid := True, i_type := i_type ?x, i_major := i_major ?x,
        i_minor := i_minor ?x, i_owner := i_owner ?x, i_perms := i_perms ?x, i_nlink := i_nlink ?x,
        i_size := i_size ?x, i_addrs := i_addrs ?x\<rparr>
    \<and> (\<forall>n. n \<noteq> i_inum ?x \<longrightarrow> dinode sb1 (blk s2 0) n = dinode sb1 (blk ?s 0) n)"
    by (rule iupdate_ilock_roundtrip [OF t _ _ w f(4) g])
      (simp_all add: f(2) i_match_def, simp_all add: zero_inode_def sb1_def)
  then show ?thesis by auto
qed

section \<open>Allocation\<close>

definition i_unheld :: "nat \<Rightarrow> superblock \<Rightarrow> 'a dst_scheme \<Rightarrow> bool" where
  "i_unheld d sb s \<longleftrightarrow> (\<forall>i < sb_ninodes sb. (d, IBLOCK i sb) \<notin> held s)"

definition i_alloced :: "superblock \<Rightarrow> (nat \<Rightarrow> bytes) \<Rightarrow> nat \<Rightarrow> bool" where
  "i_alloced sb m i \<longleftrightarrow> di_type (dinode sb m i) \<noteq> 0"

text \<open>The cache has a free entry, and disks are mounted on inodes that exist.\<close>

definition ic_ready :: "nat \<Rightarrow> superblock \<Rightarrow> 'a fsst_scheme \<Rightarrow> bool" where
  "ic_ready d sb s \<longleftrightarrow> (\<exists>x \<in> set (inodes s). i_ref x = 0)
     \<and> (\<forall>x \<in> set (inodes s). 0 < i_ref x \<and> i_dev x = d \<and> i_ismpoint x \<longrightarrow> i_alloced sb (blk s d) (i_inum x))"

definition ialloc_post :: "nat \<Rightarrow> int \<Rightarrow> superblock \<Rightarrow> 'a fsst_scheme \<Rightarrow> nat option \<Rightarrow> 'a fsst_scheme \<Rightarrow> bool" where
  "ialloc_post d ty sb s r s' \<longleftrightarrow> (case r of
     None \<Rightarrow> (\<forall>i. 1 \<le> i \<and> i < sb_ninodes sb \<longrightarrow> i_alloced sb (blk s d) i) \<and> blk s' = blk s
   | Some ip \<Rightarrow> (\<exists>n. 1 \<le> n \<and> n < sb_ninodes sb \<and> \<not> i_alloced sb (blk s d) n
       \<and> (\<forall>i. 1 \<le> i \<and> i < n \<longrightarrow> i_alloced sb (blk s d) i)
       \<and> ip < length (inodes s') \<and> i_match d n (inodes s' ! ip)
       \<and> dinode sb (blk s' d) n = patch 0 (le_s16 ty) (replicate 64 0)
       \<and> (\<forall>i. i \<noteq> n \<longrightarrow> dinode sb (blk s' d) i = dinode sb (blk s d) i)
       \<and> (\<forall>e b. (e, b) \<noteq> (d, IBLOCK n sb) \<longrightarrow> blk s' e b = blk s e b)))"

lemma length_new_dinode [simp]: "length (patch 0 (le_s16 ty) (replicate 64 0)) = 64"
  by simp

lemma ialloc_found:
  assumes l: "\<And>b. length (blk s d b) = BSIZE" and st: "lstep d [(IBLOCK n sb,
      di_set n (patch 0 (le_s16 ty) (replicate 64 0)) (blk s d (IBLOCK n sb)))] s s1"
    and n: "1 \<le> n" "n < sb_ninodes sb" "\<not> i_alloced sb (blk s d) n"
    and lt: "\<And>i. 1 \<le> i \<Longrightarrow> i < n \<Longrightarrow> i_alloced sb (blk s d) i" and r: "ic_ready d sb s"
  shows "\<exists>ip s2. iget d n s1 = Inr (ip, s2) \<and> ialloc_post d ty sb s (Some ip) s2"
proof -
  let ?new = "patch 0 (le_s16 ty) (replicate 64 0)"
  have i1: "inodes s1 = inodes s" by (rule lstep_inodes [OF st])
  have nm: "\<forall>x \<in> set (inodes s1). i_match d n x \<longrightarrow> \<not> i_ismpoint x"
    using r n(3) by (auto simp: ic_ready_def i1 i_match_def)
  have "\<exists>x \<in> set (inodes s1). i_ref x = 0" using r by (auto simp: ic_ready_def i1)
  then obtain ip s2 where ip: "iget d n s1 = Inr (ip, s2)" using iget_returns [OF _ nm] by blast
  then obtain y where y: "s2 = upd_inode ip (\<lambda>_. y) s1" "ip < length (inodes s1)" "i_match d n y"
    using iget_cases [OF ip nm] by blast
  have b: "blk s2 = (blk s)(d := (blk s d)(IBLOCK n sb := di_set n ?new (blk s d (IBLOCK n sb))))"
    using lstepD(4) [OF st] y(1) by simp
  have "dinode sb (blk s2 d) i = (if i = n then ?new else dinode sb (blk s d) i)" for i
    using dinode_set [of "blk s d" ?new sb n i] l b by simp
  then show ?thesis
    using ip y n lt b unfolding ialloc_post_def by (intro exI [of _ ip] exI [of _ s2]) auto
qed

lemma ialloc_loop_ok:
  assumes "tx d lz (Suc k) s" "i_geom sb lz" "i_unheld d sb s" "ic_ready d sb s" "1 \<le> j"
    and "\<And>i. 1 \<le> i \<Longrightarrow> i < j \<Longrightarrow> i_alloced sb (blk s d) i"
  shows "\<exists>r s'. ialloc_loop d ty sb [j..<sb_ninodes sb] s = Inr (r, s') \<and> ialloc_post d ty sb s r s'"
  using assms
proof (induction "sb_ninodes sb - j" arbitrary: j s)
  case 0
  then have "[j..<sb_ninodes sb] = []" by simp
  then show ?case using 0 by (simp add: ialloc_post_def)
next
  case (Suc n)
  have j: "j < sb_ninodes sb" "n = sb_ninodes sb - Suc j" using Suc.hyps(2) by simp_all
  have B: "IBLOCK j sb < FSSIZE" "\<not> lz (IBLOCK j sb)" "(d, IBLOCK j sb) \<notin> held s"
    using Suc.prems(2,3) j(1) by (auto simp: i_geom_def i_unheld_def)
  have l: "length (blk s d b) = BSIZE" for b by (rule length_blk [OF txD(1) [OF Suc.prems(1)]])
  from tx_rmw [OF Suc.prems(1) B(1,3)] B(2) obtain i s1 s2 where
    r: "bread d (IBLOCK j sb) s = Inr (i, s1)" "b_data (bufs s1 ! i) = blk s d (IBLOCK j sb)"
      "brelse i s1 = Inr ((), s2)" "lstep d [] s s2" "tx d lz (Suc k) s2"
    and w: "\<forall>x. length x = BSIZE \<longrightarrow> (\<exists>s2 s3. log_write i (set_data i x s1) = Inr ((), s2)
      \<and> brelse i s2 = Inr ((), s3) \<and> lstep d [(IBLOCK j sb, x)] s s3 \<and> tx d lz k s3)"
    by (metis (no_types, lifting))
  have up: "[j..<sb_ninodes sb] = j # [Suc j..<sb_ninodes sb]" using j by (simp add: upt_conv_Cons)
  show ?case
  proof (cases "i_alloced sb (blk s d) j")
    case True
    have e: "blk s2 = blk s" "held s2 = held s" "inodes s2 = inodes s"
      using lstepD(4,5) [OF r(4)] lstep_inodes(1) [OF r(4)] by auto
    have p: "ialloc_post d ty sb s2 = ialloc_post d ty sb s" unfolding ialloc_post_def e(1) ..
    have "\<exists>r s'. ialloc_loop d ty sb [Suc j..<sb_ninodes sb] s2 = Inr (r, s') \<and> ialloc_post d ty sb s2 r s'"
      by (rule Suc.hyps(1) [OF j(2) r(5) Suc.prems(2)])
        (use Suc.prems(3-6) True e in \<open>auto simp: i_unheld_def ic_ready_def less_Suc_eq\<close>)
    then show ?thesis
      unfolding up p using r(1-3) True by (simp add: i_alloced_def dinode_def)
  next
    case False
    obtain s3 s4 where s34: "log_write i (set_data i (di_set j (patch 0 (le_s16 ty) (replicate 64 0)) (blk s d (IBLOCK j sb))) s1) = Inr ((), s3)"
      "brelse i s3 = Inr ((), s4)"
      "lstep d [(IBLOCK j sb, di_set j (patch 0 (le_s16 ty) (replicate 64 0)) (blk s d (IBLOCK j sb)))] s s4"
      using w [rule_format, of "di_set j (patch 0 (le_s16 ty) (replicate 64 0)) (blk s d (IBLOCK j sb))"] l by auto
    then show ?thesis
      unfolding up using ialloc_found [OF l s34(3) Suc.prems(5) j(1) False Suc.prems(6,4)] r(1,2) False
      by (auto simp: i_alloced_def dinode_def)
  qed
qed

text \<open>
  C32. \<^verbatim>\<open>ialloc\<close> takes the first free inode: in a transaction with room for one more block it returns; if
  all inodes from 1 on are in use it returns nil and the disk is unchanged; otherwise it returns a
  referenced entry for the lowest free inode, which on disk is zero but for its type, every other
  inode and every other block being unchanged.
\<close>

theorem ialloc_correct:
  assumes "tx d lz (Suc k) s" "getsuperblock d s = Some sb" "i_geom sb lz" "i_unheld d sb s" "ic_ready d sb s" "short ty"
  shows "\<exists>r s'. ialloc d ty s = Inr (r, s') \<and> (case r of
     None \<Rightarrow> (\<forall>i. 1 \<le> i \<and> i < sb_ninodes sb \<longrightarrow> i_alloced sb (blk s d) i) \<and> blk s' = blk s
   | Some ip \<Rightarrow> (\<exists>n. 1 \<le> n \<and> n < sb_ninodes sb \<and> \<not> i_alloced sb (blk s d) n
       \<and> (\<forall>i. 1 \<le> i \<and> i < n \<longrightarrow> i_alloced sb (blk s d) i)
       \<and> ip < length (inodes s') \<and> i_match d n (inodes s' ! ip)
       \<and> di_type (dinode sb (blk s' d) n) = ty \<and> drop 2 (dinode sb (blk s' d) n) = replicate 62 0
       \<and> (\<forall>i. i \<noteq> n \<longrightarrow> dinode sb (blk s' d) i = dinode sb (blk s d) i)
       \<and> (\<forall>e b. (e, b) \<noteq> (d, IBLOCK n sb) \<longrightarrow> blk s' e b = blk s e b)))"
proof -
  obtain r s' where r: "ialloc d ty s = Inr (r, s')" "ialloc_post d ty sb s r s'"
    using ialloc_loop_ok [OF assms(1,3-5), of 1 ty] assms(2) by (auto simp: ialloc_def)
  have "di_type (patch 0 (le_s16 ty) (replicate 64 0)) = ty" "drop 2 (patch 0 (le_s16 ty) (replicate 64 0)) = replicate 62 0"
    using assms(6) s16_le_s16 [of ty "[]"] by (simp_all add: di_type_def slice_def patch_def short_def)
  then show ?thesis using r by (intro exI [of _ r] exI [of _ s']) (auto simp: ialloc_post_def split: option.splits)
qed

lemma dinode_zero: "m (IBLOCK n sb) = replicate BSIZE 0 \<Longrightarrow> \<not> i_alloced sb m n"
  using di_slot [of n] by (simp add: i_alloced_def dinode_def di_at_def di_type_def slice_def s16_def unle16_def BSIZE_def)

theorem ialloc_correct_witness:
  "\<exists>ip s'. ialloc 0 2 (fs_on img1 ic1) = Inr (Some ip, s') \<and> i_match 0 1 (inodes s' ! ip)
     \<and> di_type (dinode sb1 (blk s' 0) 1) = 2"
proof -
  let ?s = "fs_on img1 ic1"
  note f = fs_on_ok [of img1 ic1, OF img1_ok(1,2)]
  have t: "tx 0 zone0 (Suc 27) ?s" using f(1) by simp
  have g: "i_geom sb1 zone0" by (auto simp: i_geom_def sb1_def IBLOCK_def IPB_def FSSIZE_def zone0_def)
  have u: "i_unheld 0 sb1 ?s" by (simp add: i_unheld_def f(2))
  have r: "ic_ready 0 sb1 ?s" by (simp add: ic_ready_def ic1_def zero_inode_def)
  have na: "\<not> i_alloced sb1 (blk ?s 0) 1"
    unfolding f(3) by (rule dinode_zero) (simp add: img1_def IBLOCK_def IPB_def sb1_def)
  have sh: "short 2" by (simp add: short_def)
  have n: "1 < sb_ninodes sb1" by (simp add: sb1_def)
  obtain r' s' where r: "ialloc 0 2 ?s = Inr (r', s')" "case r' of
     None \<Rightarrow> (\<forall>i. 1 \<le> i \<and> i < sb_ninodes sb1 \<longrightarrow> i_alloced sb1 (blk ?s 0) i) \<and> blk s' = blk ?s
   | Some ip \<Rightarrow> (\<exists>n. 1 \<le> n \<and> n < sb_ninodes sb1 \<and> \<not> i_alloced sb1 (blk ?s 0) n
       \<and> (\<forall>i. 1 \<le> i \<and> i < n \<longrightarrow> i_alloced sb1 (blk ?s 0) i)
       \<and> ip < length (inodes s') \<and> i_match 0 n (inodes s' ! ip)
       \<and> di_type (dinode sb1 (blk s' 0) n) = 2 \<and> drop 2 (dinode sb1 (blk s' 0) n) = replicate 62 0
       \<and> (\<forall>i. i \<noteq> n \<longrightarrow> dinode sb1 (blk s' 0) i = dinode sb1 (blk ?s 0) i)
       \<and> (\<forall>e b. (e, b) \<noteq> (0, IBLOCK n sb1) \<longrightarrow> blk s' e b = blk ?s e b))"
    using ialloc_correct [OF t f(4) g u r sh] by blast
  show ?thesis
  proof (cases r')
    case None
    then show ?thesis using r(2) na n by auto
  next
    case (Some ip)
    then obtain m where m: "1 \<le> m" "\<forall>i. 1 \<le> i \<and> i < m \<longrightarrow> i_alloced sb1 (blk ?s 0) i" "i_match 0 m (inodes s' ! ip)"
      "di_type (dinode sb1 (blk s' 0) m) = 2" using r(2) by auto
    have "m = 1" using m(1,2) na by (cases "m = 1") auto
    then show ?thesis using r(1) Some m by auto
  qed
qed

section \<open>Truncation and release\<close>

lemma itrunc_loop_noop: "\<forall>i \<in> set is. i < MAXFILE \<Longrightarrow> itrunc_loop ip is s = Inr ((), s)"
  by (induction "is") (simp_all add: bmap_g_def)

lemma itrunc_scan:
  assumes "i_size (inodes s ! ip) \<le> MAXFILE * BSIZE"
  shows "itrunc ip s = iupdate ip (upd_inode ip (\<lambda>x. x\<lparr>i_size := 0\<rparr>) s)"
proof -
  have "i_size (inodes s ! ip) div BSIZE \<le> MAXFILE" using div_le_mono [OF assms, of BSIZE] by (simp add: BSIZE_def)
  then have "itrunc_loop ip [0..<i_size (inodes s ! ip) div BSIZE] s = Inr ((), s)"
    by (intro itrunc_loop_noop) simp
  then show ?thesis by (simp add: itrunc_def)
qed

text \<open>
  C33. \<^verbatim>\<open>itrunc\<close> frees no block: \<^verbatim>\<open>bmap_g\<close> without \<^verbatim>\<open>create\<close> always answers \<open>-1\<close>, so the loop skips
  every block. After \<^verbatim>\<open>itrunc\<close> of any inode the size is 0, but its block addresses are still there, no
  block but the inode's own has changed, and every block of the bitmap that was in use is still in use.
\<close>

theorem itrunc_frees_nothing:
  assumes t: "tx d lz (Suc k) s" and x: "x = inodes s ! ip" "ip < length (inodes s)" "i_dev x = d"
      "length (i_addrs x) = NDIRECT" "i_size x \<le> MAXFILE * BSIZE"
    and sb: "getsuperblock d s = Some sb" "i_geom sb lz" "i_inum x < sb_ninodes sb"
    and h: "(d, IBLOCK (i_inum x) sb) \<notin> held s" and dj: "\<forall>b. BBLOCK b sb \<noteq> IBLOCK (i_inum x) sb"
  shows "\<exists>s'. itrunc ip s = Inr ((), s') \<and> inodes s' ! ip = x\<lparr>i_size := 0\<rparr>
    \<and> (\<forall>b. used sb (blk s' d) b = used sb (blk s d) b)
    \<and> (\<forall>e b. (e, b) \<noteq> (d, IBLOCK (i_inum x) sb) \<longrightarrow> blk s' e b = blk s e b)"
proof -
  let ?s = "upd_inode ip (\<lambda>x. x\<lparr>i_size := 0\<rparr>) s" and ?x = "x\<lparr>i_size := 0\<rparr>"
  have t1: "tx d lz (Suc k) ?s" using t by simp
  have p: "?x = inodes ?s ! ip" "i_dev ?x = d" "length (i_addrs ?x) = NDIRECT"
    "getsuperblock d ?s = Some sb" "i_inum ?x < sb_ninodes sb" "(d, IBLOCK (i_inum ?x) sb) \<notin> held ?s"
    using x sb h by simp_all
  from iupdate_ok [OF t1 p(1-4) sb(2) p(5,6)] obtain s' y where
    s': "iupdate ip ?s = Inr ((), s')" "lstep d [(IBLOCK (i_inum x) sb, y)] ?s s'" by auto
  have "itrunc ip s = Inr ((), s')" using itrunc_scan [of s ip] x(1,5) s'(1) by simp
  moreover have "inodes s' ! ip = ?x" using lstep_inodes(1) [OF s'(2)] p(1) by simp
  moreover have b: "blk s' = (blk s)(d := (blk s d)(IBLOCK (i_inum x) sb := y))" using lstepD(4) [OF s'(2)] by simp
  moreover have "used sb (blk s' d) b = used sb (blk s d) b" for b using dj by (simp add: used_def b)
  ultimately show ?thesis by auto
qed

theorem itrunc_frees_nothing_witness:
  "\<exists>s'. itrunc 0 (fs_on img1 [zero_inode\<lparr>i_inum := 3, i_type := 2, i_ref := 1, i_size := 2000, i_addrs := 55 # replicate 11 0\<rparr>]) = Inr ((), s')
     \<and> i_size (inodes s' ! 0) = 0 \<and> i_addrs (inodes s' ! 0) ! 0 = 55 \<and> used sb1 (blk s' 0) 55"
proof -
  let ?x = "zero_inode\<lparr>i_inum := 3, i_type := 2, i_ref := 1, i_size := 2000, i_addrs := 55 # replicate 11 0\<rparr>"
  let ?s = "fs_on img1 [?x]"
  note f = fs_on_ok [of img1 "[?x]", OF img1_ok(1,2)]
  have t: "tx 0 zone0 (Suc 27) ?s" using f(1) by simp
  have g: "i_geom sb1 zone0" by (auto simp: i_geom_def sb1_def IBLOCK_def IPB_def FSSIZE_def zone0_def)
  have "\<exists>s'. itrunc 0 ?s = Inr ((), s') \<and> inodes s' ! 0 = ?x\<lparr>i_size := 0\<rparr>
    \<and> (\<forall>b. used sb1 (blk s' 0) b = used sb1 (blk ?s 0) b)
    \<and> (\<forall>e b. (e, b) \<noteq> (0, IBLOCK (i_inum ?x) sb1) \<longrightarrow> blk s' e b = blk ?s e b)"
    by (rule itrunc_frees_nothing [OF t _ _ _ _ _ f(4) g])
      (simp_all add: f(2), simp_all add: zero_inode_def NDIRECT_def MAXFILE_def NINDIRECT_def BSIZE_def sb1_def
        IBLOCK_def BBLOCK_def IPB_def)
  then show ?thesis unfolding f(3) using used1 [of img1 55, OF img1_ok(3)] by auto
qed

text \<open>
  C34. \<^verbatim>\<open>iput_direct\<close> is for callers outside a transaction, but \<^verbatim>\<open>itrunc\<close> logs the inode with \<^verbatim>\<open>iupdate\<close>
  whatever the caller asked for: releasing the last reference to an inode without links outside a
  transaction panics the kernel.
\<close>

theorem iput_direct_panics:
  assumes l: "linv d lg s" "lg_outstanding lg = 0" "lg_n lg < LOGSIZE" "lg_n lg + 1 < lg_size lg" "buf_room 1 s"
    and x: "x = inodes s ! ip" "ip < length (inodes s)" "i_dev x = d" "i_size x \<le> MAXFILE * BSIZE"
      "i_ref x = 1" "i_valid x" "i_nlink x = 0" "\<not> i_busy x"
    and sb: "getsuperblock d s = Some sb" "IBLOCK (i_inum x) sb < FSSIZE" "(d, IBLOCK (i_inum x) sb) \<notin> held s"
  shows "iput_direct ip s = Inl (Panic ''log_write outside of trans'')"
proof -
  let ?s1 = "upd_inode ip (\<lambda>x. x\<lparr>i_busy := True\<rparr>) s"
  let ?s = "upd_inode ip (\<lambda>x. x\<lparr>i_size := 0\<rparr>) ?s1" and ?B = "IBLOCK (i_inum x) sb"
  have l1: "linv d lg ?s" using dsame_cache(4) [OF dsame_inodes(2)] l(1) by metis
  have "card (held ?s \<union> dirtyb ?s) < NBUF" using l(5) by (simp add: buf_room_def)
  then obtain i s2 where r: "bread d ?B ?s = Inr (i, s2)" "bread_post ?s d ?B i s2"
    using bread_spec [OF linvD(1,2) [OF l1] sb(2)] sb(3) by auto
  note p = bread_postD [OF r(2)]
  have g: "getlog d (set_data i y s2) = Some lg" for y
    using getlog_disks [of "set_data i y s2" ?s d] p(3) linvD(3) [OF l1] by (simp add: set_data_def upd_buf_def)
  have b: "b_dev (bufs (set_data i y s2) ! i) = d" for y
    using p(7) binvD(1) [OF p(1)] by (simp add: owns_def set_data_def upd_buf_def)
  have "log_write i (set_data i y s2) = Inl (Panic ''log_write outside of trans'')" for y
    using g b l(2-4) by (simp add: log_write_def Let_def)
  moreover have "inodes ?s ! ip = x\<lparr>i_busy := True, i_size := 0\<rparr>" using x(1,2) by simp
  ultimately have "iupdate ip ?s = Inl (Panic ''log_write outside of trans'')"
    using r(1) sb(1) x(3) by (simp add: iupdate_def iupdate1_def Let_def)
  moreover have "itrunc ip ?s1 = iupdate ip ?s" by (rule itrunc_scan) (use x in simp)
  ultimately show ?thesis using x by (simp add: iput_direct_def iput1_def Let_def)
qed

theorem iput_direct_panics_witness:
  "iput_direct 0 (upd_log 0 (\<lambda>lg. lg\<lparr>lg_outstanding := 0\<rparr>) (fs_on img1 [zero_inode\<lparr>i_inum := 3, i_type := 2, i_ref := 1, i_valid := True\<rparr>]))
    = Inl (Panic ''log_write outside of trans'')"
proof -
  let ?f = "\<lambda>lg. lg\<lparr>lg_outstanding := 0\<rparr>"
  let ?x = "zero_inode\<lparr>i_inum := 3, i_type := 2, i_ref := 1, i_valid := True\<rparr>"
  let ?t = "fs_on img1 [?x]"
  note f = fs_on_ok [of img1 "[?x]", OF img1_ok(1,2)]
  have l: "linv 0 (?f log0) (upd_log 0 ?f ?t)" by (rule linv_counters [OF f(6)]) simp
  note u = upd_log_cache [OF linvD(7) [OF f(6)], where f = ?f]
  have i: "inodes (upd_log 0 ?f ?t) = [?x]" by (simp add: upd_log_def upd_disk_def)
  have sb: "getsuperblock 0 (upd_log 0 ?f ?t) = Some sb1"
    using f(4) bframe_getsuperblock(1) [OF u(1) linvD(7) [OF f(6)]] by simp
  have b: "buf_room 1 (upd_log 0 ?f ?t)" using u txD(4) [OF f(1)] by (simp add: buf_room_def)
  show ?thesis
    by (rule iput_direct_panics [OF l _ _ _ b _ _ _ _ _ _ _ _ sb, of ?x])
      (use u f(2) in \<open>simp_all add: i\<close>, simp_all add: zero_inode_def log0_def zero_log_def LOGSIZE_def sb1_def
        IBLOCK_def IPB_def FSSIZE_def)
qed

end
