(* ===== verification/FileData.thy ===== *)
theory FileData
  imports InodeDisk
begin

text \<open>
  The contents of files: \<^verbatim>\<open>readi\<close> and \<^verbatim>\<open>writei\<close> of \<^verbatim>\<open>fs.c\<close> over \<^verbatim>\<open>bmap\<close>. \<open>fblk\<close> is the disk block of the
  \<open>k\<close>-th block of a file, \<open>contents\<close> the bytes of a file; \<open>fwf\<close> says that the blocks of a file are in use,
  belong to it alone and are no metadata.
\<close>

section \<open>Operations\<close>

definition NDEV :: nat where "NDEV = 256"

text \<open>An unsigned word read as an \<^verbatim>\<open>int\<close>.\<close>

definition s32 :: "nat \<Rightarrow> int" where
  "s32 n = (if n \<ge> 2 ^ 31 then int n - 2 ^ 32 else int n)"

text \<open>\<^verbatim>\<open>struct devsw\<close>: the read and the write routine of a device, if it has them. Arguments: inode, (data,)
  count and offset.\<close>

type_synonym 's devread = "nat \<Rightarrow> int \<Rightarrow> int \<Rightarrow> 's \<Rightarrow> ('s, int \<times> bytes) outcome"
type_synonym 's devwrite = "nat \<Rightarrow> bytes \<Rightarrow> int \<Rightarrow> int \<Rightarrow> 's \<Rightarrow> ('s, int) outcome"

record 's devsw =
  dv_read :: "'s devread option"
  dv_write :: "'s devwrite option"

function readi_loop :: "nat \<Rightarrow> nat \<Rightarrow> nat \<Rightarrow> bytes \<Rightarrow> 'a fsst_scheme \<Rightarrow> ('a fsst_scheme, bytes) outcome" where
  "readi_loop ip off r acc s =
    (if r = 0 then Inr (acc, s)
     else bnd (bmap ip (off div BSIZE) s) (\<lambda>(addr, s).
          bnd (bread (i_dev (inodes s ! ip)) addr s) (\<lambda>(bp, s).
            let m = min r (BSIZE - off mod BSIZE);
                acc = acc @ slice (off mod BSIZE) m (b_data (bufs s ! bp)) in
            bnd (brelse bp s) (\<lambda>(_, s). readi_loop ip (off + m) (r - m) acc s))))"
  by pat_completeness auto
termination
  by (relation "measure (\<lambda>(ip, off, r, acc, s). r)") (auto simp: BSIZE_def)

definition readi :: "'a fsst_scheme devsw list \<Rightarrow> nat \<Rightarrow> nat \<Rightarrow> nat \<Rightarrow> 'a fsst_scheme
    \<Rightarrow> ('a fsst_scheme, int \<times> bytes) outcome" where
  "readi devsw ip off n s =
    (let x = inodes s ! ip in
     if i_type x = T_DEV
     then if i_major x < 0 \<or> i_major x \<ge> int NDEV then Inr ((-1, []), s)
          else case dv_read (devsw ! nat (i_major x)) of
                 None \<Rightarrow> Inr ((-1, []), s)
               | Some f \<Rightarrow> f ip (s32 n) (s32 off) s
     else if off > i_size x \<or> u32add off n < off then Inr ((-1, []), s)
     else let n = (if u32add off n > i_size x then i_size x - off else n) in
       bnd (readi_loop ip off n [] s) (\<lambda>(bs, s). Inr ((s32 n, bs), s)))"

function writei_loop :: "nat \<Rightarrow> nat \<Rightarrow> nat \<Rightarrow> bytes \<Rightarrow> 'a fsst_scheme \<Rightarrow> ('a fsst_scheme, bool \<times> nat) outcome" where
  "writei_loop ip off r src s =
    (if r = 0 then Inr ((True, off), s)
     else bnd (bmap ip (off div BSIZE) s) (\<lambda>(bnum, s).
       if s32 bnum < 0 then Inr ((False, off), s)
       else bnd (bread (i_dev (inodes s ! ip)) bnum s) (\<lambda>(bp, s).
            let m = min r (BSIZE - off mod BSIZE) in
            bnd (log_write bp (set_data bp (patch (off mod BSIZE) (take m src) (b_data (bufs s ! bp))) s)) (\<lambda>(_, s).
            bnd (brelse bp s) (\<lambda>(_, s). writei_loop ip (off + m) (r - m) (drop m src) s)))))"
  by pat_completeness auto
termination
  by (relation "measure (\<lambda>(ip, off, r, src, s). r)") (auto simp: BSIZE_def)

definition writei :: "'a fsst_scheme devsw list \<Rightarrow> nat \<Rightarrow> bytes \<Rightarrow> nat \<Rightarrow> nat \<Rightarrow> 'a fsst_scheme
    \<Rightarrow> ('a fsst_scheme, int) outcome" where
  "writei devsw ip src off n s =
    (let x = inodes s ! ip in
     if i_type x = T_DEV
     then if i_major x < 0 \<or> i_major x \<ge> int NDEV then Inr (-1, s)
          else case dv_write (devsw ! nat (i_major x)) of
                 None \<Rightarrow> Inr (-1, s)
               | Some f \<Rightarrow> f ip src (s32 n) (s32 off) s
     else if off > i_size x \<or> u32add off n < off then Inr (-1, s)
     else if u32add off n > MAXFILE * BSIZE then Inr (-1, s)
     else bnd (writei_loop ip off n src s) (\<lambda>((ok, off), s).
       let n = (if ok then n else 2 ^ 32 - 2) in
       bnd (if (n > 0 \<or> n = 2 ^ 32 - 2) \<and> off > i_size (inodes s ! ip)
            then iupdate ip (upd_inode ip (\<lambda>x. x\<lparr>i_size := off\<rparr>) s)
            else Inr ((), s)) (\<lambda>(_, s). Inr (s32 n, s))))"

declare readi_loop.simps [simp del] writei_loop.simps [simp del]

section \<open>Holding a block in a transaction\<close>

lemma tx_hold:
  assumes "tx d lz (Suc k) s" "bread_post s d b i s1"
  shows "tx d lz k s1"
proof -
  note p = bread_postD [OF assms(2)]
  obtain lg where lg: "linv d lg s" "log_room lg (Suc k)" "buf_room (Suc k + 2) s" "in_log lg = lz"
    using assms(1) by (auto simp: tx_def)
  have "card (held s1 \<union> dirtyb s1) \<le> Suc (card (held s \<union> dirtyb s))"
    unfolding p(8,9) by (simp add: card_insert_if)
  then have "buf_room (k + 2) s1" using lg(3) by (simp add: buf_room_def)
  moreover have "log_room lg k" using lg(2) by (auto simp: log_room_def)
  ultimately show ?thesis using linv_bread [OF lg(1) assms(2)] lg(4) by (auto simp: tx_def)
qed

lemma tx_log_held:
  assumes "tx d lz (Suc k) s" "owns s i d b" "length x = BSIZE" "b < FSSIZE" "\<not> lz b"
  shows "\<exists>s'. log_write i (set_data i x s) = Inr ((), s') \<and> lstep d [(b, x)] s s' \<and> tx d lz k s'"
proof -
  obtain lg where lg: "linv d lg s" "log_room lg (Suc k)" "buf_room (Suc k + 2) s" "in_log lg = lz"
    using assms(1) by (auto simp: tx_def)
  have r: "lg_n lg < LOGSIZE" "lg_n lg + 1 < lg_size lg" "1 \<le> lg_outstanding lg"
    using lg(2) by (auto simp: log_room_def)
  obtain s' where s': "log_write i (set_data i x s) = Inr ((), s')" "log_write_post s d b x lg s'"
    using log_write_spec [OF lg(1) assms(2-4) _ r] assms(5) lg(4) by blast
  show ?thesis using s'(1) tx_log_write [OF lg(1-3) s'(2) assms(4)] lg(4) assms(5) by auto
qed

lemma tx_release:
  assumes "tx d lz k s" "owns s i d b"
  shows "\<exists>s'. brelse i s = Inr ((), s') \<and> brelse_post s d b s' \<and> tx d lz k s'"
proof -
  obtain s' where s': "brelse i s = Inr ((), s')" "brelse_post s d b s'"
    using brelse_spec [OF txD(1) [OF assms(1)] assms(2)] by blast
  note p = brelse_postD [OF s'(2)]
  have "card (held s' \<union> dirtyb s') \<le> card (held s \<union> dirtyb s)"
    unfolding p(7,8) by (intro card_mono) auto
  then have "buf_room j s \<Longrightarrow> buf_room j s'" for j by (simp add: buf_room_def)
  then have "tx d lz k s'" using assms(1) linv_brelse [OF _ s'(2)] unfolding tx_def by blast
  then show ?thesis using s' by blast
qed

lemma lstep_hold:
  assumes "bread_post s d b i s1" "lstep d ws s1 s2" "brelse_post s2 d b s3" "(d, b) \<notin> held s"
  shows "lstep d ws s s3"
proof -
  note 1 = bread_postD [OF assms(1)] and 2 = lstepD [OF assms(2)] and 3 = brelse_postD [OF assms(3)]
  have f: "bframe s s3" using 1(2) 2(1) 3(2) by (meson bframe_trans)
  have h: "held s3 = held s" unfolding 3(7) 2(5) 1(8) using assms(4) by blast
  have ow: "owns s3 j e c" if "owns s j e c" for j e c
  proof -
    have "(e, c) \<noteq> (d, b)" using owns_held [OF that] assms(4) by blast
    then show ?thesis using 3(9) [OF 2(7) [OF 1(10) [OF that]]] by blast
  qed
  show ?thesis
    unfolding lstep_def using f h ow 1(3-6,9) 2(2-4,6,8) 3(3-6,8) by simp
qed

section \<open>The blocks of a file\<close>

definition fblk :: "(nat \<Rightarrow> bytes) \<Rightarrow> inode \<Rightarrow> nat \<Rightarrow> nat" where
  "fblk m x k = (let a = i_addrs x ! (k div NINDIRECT) in if a = 0 then 0 else id_get (k mod NINDIRECT) (m a))"

definition meta :: "superblock \<Rightarrow> nat \<Rightarrow> bool" where
  "meta sb b \<longleftrightarrow> (\<exists>c < sb_size sb. b = BBLOCK c sb) \<or> (\<exists>i < sb_ninodes sb. b = IBLOCK i sb)"

text \<open>A block that a file may have, and that the bitmap marks.\<close>

definition datab :: "superblock \<Rightarrow> (nat \<Rightarrow> bool) \<Rightarrow> (nat \<Rightarrow> bytes) \<Rightarrow> nat \<Rightarrow> bool" where
  "datab sb lz m b \<longleftrightarrow> b < sb_size sb \<and> used sb m b \<and> \<not> lz b \<and> \<not> meta sb b"

definition fwf :: "superblock \<Rightarrow> (nat \<Rightarrow> bool) \<Rightarrow> (nat \<Rightarrow> bytes) \<Rightarrow> inode \<Rightarrow> bool" where
  "fwf sb lz m x \<longleftrightarrow> length (i_addrs x) = NDIRECT
     \<and> (\<forall>i < NDIRECT. i_addrs x ! i \<noteq> 0 \<longrightarrow> datab sb lz m (i_addrs x ! i))
     \<and> (\<forall>k < MAXFILE. fblk m x k \<noteq> 0 \<longrightarrow> datab sb lz m (fblk m x k))
     \<and> (\<forall>i < NDIRECT. \<forall>j < NDIRECT. i_addrs x ! i \<noteq> 0 \<and> i_addrs x ! i = i_addrs x ! j \<longrightarrow> i = j)
     \<and> (\<forall>k < MAXFILE. \<forall>l < MAXFILE. fblk m x k \<noteq> 0 \<and> fblk m x k = fblk m x l \<longrightarrow> k = l)
     \<and> (\<forall>i < NDIRECT. \<forall>k < MAXFILE. fblk m x k \<noteq> 0 \<longrightarrow> i_addrs x ! i \<noteq> fblk m x k)"

lemma fwfD:
  assumes "fwf sb lz m x"
  shows "length (i_addrs x) = NDIRECT"
    "i < NDIRECT \<Longrightarrow> i_addrs x ! i \<noteq> 0 \<Longrightarrow> datab sb lz m (i_addrs x ! i)"
    "k < MAXFILE \<Longrightarrow> fblk m x k \<noteq> 0 \<Longrightarrow> datab sb lz m (fblk m x k)"
    "i < NDIRECT \<Longrightarrow> j < NDIRECT \<Longrightarrow> i_addrs x ! i \<noteq> 0 \<Longrightarrow> i_addrs x ! i = i_addrs x ! j \<Longrightarrow> i = j"
    "k < MAXFILE \<Longrightarrow> l < MAXFILE \<Longrightarrow> fblk m x k \<noteq> 0 \<Longrightarrow> fblk m x k = fblk m x l \<Longrightarrow> k = l"
    "i < NDIRECT \<Longrightarrow> k < MAXFILE \<Longrightarrow> fblk m x k \<noteq> 0 \<Longrightarrow> i_addrs x ! i \<noteq> fblk m x k"
  using assms unfolding fwf_def by blast+

lemma div_NINDIRECT: "k < MAXFILE \<Longrightarrow> k div NINDIRECT < NDIRECT"
  by (simp add: MAXFILE_def NINDIRECT_def NDIRECT_def less_mult_imp_div_less)

text \<open>A change that keeps the indirect blocks of the file keeps its map.\<close>

lemma fblk_cong:
  assumes "\<And>a. a \<noteq> 0 \<Longrightarrow> a = i_addrs x ! (k div NINDIRECT) \<Longrightarrow> m' a = m a" "i_addrs x' = i_addrs x"
  shows "fblk m' x' k = fblk m x k"
  using assms by (simp add: fblk_def Let_def)

lemma fwf_cong:
  assumes "fwf sb lz m x" "i_addrs x' = i_addrs x"
    and "\<And>i. i < NDIRECT \<Longrightarrow> i_addrs x ! i \<noteq> 0 \<Longrightarrow> m' (i_addrs x ! i) = m (i_addrs x ! i)"
    and "\<And>b. b < sb_size sb \<Longrightarrow> used sb m b \<Longrightarrow> used sb m' b"
  shows "fwf sb lz m' x'" "\<And>k. k < MAXFILE \<Longrightarrow> fblk m' x' k = fblk m x k"
proof -
  show f: "fblk m' x' k = fblk m x k" if "k < MAXFILE" for k
    using fblk_cong [of x k m' m x'] assms(2,3) div_NINDIRECT [OF that] by simp
  have "datab sb lz m b \<Longrightarrow> datab sb lz m' b" for b using assms(4) by (simp add: datab_def)
  then show "fwf sb lz m' x'"
    using assms(1) f unfolding fwf_def assms(2) by simp
qed

section \<open>Growing a file\<close>

text \<open>The blocks no file may have are marked.\<close>

definition fs_marked :: "superblock \<Rightarrow> (nat \<Rightarrow> bool) \<Rightarrow> (nat \<Rightarrow> bytes) \<Rightarrow> bool" where
  "fs_marked sb lz m \<longleftrightarrow> (\<forall>b < sb_size sb. b = 0 \<or> lz b \<or> meta sb b \<longrightarrow> used sb m b)"

lemma fs_marked_bm: "fs_marked sb lz m \<Longrightarrow> bm_marked sb lz m"
  by (auto simp: fs_marked_def bm_marked_def meta_def)

text \<open>The disk after \<^verbatim>\<open>balloc\<close> returned \<open>r\<close>.\<close>

definition allocd :: "superblock \<Rightarrow> nat \<Rightarrow> (nat \<Rightarrow> bytes) \<Rightarrow> nat \<Rightarrow> bytes" where
  "allocd sb r m = (m(BBLOCK r sb := bm_set (r mod BPB) (m (BBLOCK r sb))))(r := replicate BSIZE 0)"

definition fresh :: "superblock \<Rightarrow> (nat \<Rightarrow> bool) \<Rightarrow> (nat \<Rightarrow> bytes) \<Rightarrow> nat \<Rightarrow> bool" where
  "fresh sb lz m r \<longleftrightarrow> r < sb_size sb \<and> \<not> used sb m r \<and> r \<noteq> 0 \<and> \<not> lz r \<and> \<not> meta sb r"

lemma allocd_ok:
  assumes "fresh sb lz m r" "\<And>b. length (m b) = BSIZE"
  shows "allocd sb r m r = replicate BSIZE 0" "b < sb_size sb \<Longrightarrow> used sb (allocd sb r m) b \<longleftrightarrow> b = r \<or> used sb m b"
    "datab sb lz m b \<Longrightarrow> allocd sb r m b = m b" "datab sb lz m b \<Longrightarrow> datab sb lz (allocd sb r m) b"
    "datab sb lz (allocd sb r m) r" "\<And>b. length (allocd sb r m b) = BSIZE" "datab sb lz m b \<Longrightarrow> b \<noteq> r"
proof -
  have r: "r < sb_size sb" "\<not> used sb m r" "\<not> meta sb r" "\<not> lz r" using assms(1) by (auto simp: fresh_def)
  show "allocd sb r m r = replicate BSIZE 0" by (simp add: allocd_def)
  show u: "used sb (allocd sb r m) b \<longleftrightarrow> b = r \<or> used sb m b" if "b < sb_size sb" for b
  proof -
    have "BBLOCK b sb \<noteq> r" using r(3) that by (auto simp: meta_def)
    then have "used sb (allocd sb r m) b = used sb (m(BBLOCK r sb := bm_set (r mod BPB) (m (BBLOCK r sb)))) b"
      by (simp add: used_def allocd_def)
    then show ?thesis using used_bm_set [of m r sb b] assms(2) by simp
  qed
  show n: "b \<noteq> r" if "datab sb lz m b" for b using that r(2) by (auto simp: datab_def)
  show "allocd sb r m b = m b" if "datab sb lz m b" for b
  proof -
    have "b \<noteq> BBLOCK r sb" using that r(1) by (auto simp: datab_def meta_def)
    then show ?thesis using n [OF that] by (simp add: allocd_def)
  qed
  show "datab sb lz m b \<Longrightarrow> datab sb lz (allocd sb r m) b" for b using u by (auto simp: datab_def)
  show "datab sb lz (allocd sb r m) r" using u r by (auto simp: datab_def)
  show "length (allocd sb r m b) = BSIZE" for b using assms(2) by (simp add: allocd_def)
qed

lemma id_get_put:
  assumes "p < NINDIRECT" "q < NINDIRECT" "length x = BSIZE" "a < 2 ^ 32"
  shows "id_get q (id_put p a x) = (if q = p then a else id_get q x)" "length (id_put p a x) = BSIZE"
proof -
  have le: "4 * p + 4 \<le> length x" "4 * q + 4 \<le> length x" using assms by (simp_all add: NINDIRECT_def BSIZE_def)
  show "length (id_put p a x) = BSIZE" using le assms(3) by (simp add: id_put_def)
  have "4 * q + 4 \<le> 4 * p \<or> 4 * p + 4 \<le> 4 * q" if "q \<noteq> p" using that by arith
  then show "id_get q (id_put p a x) = (if q = p then a else id_get q x)"
    using le assms(4) slice_patch_disjoint [of "4 * p" "le32 a" x "4 * q" 4] by (simp add: id_get_def id_put_def)
qed

lemma id_get_zero: "p < NINDIRECT \<Longrightarrow> id_get p (replicate BSIZE 0) = 0"
  by (simp add: id_get_def slice_def unle32_def NINDIRECT_def BSIZE_def)

lemma fwf_indirect:
  assumes f: "fwf sb lz m x" "\<And>b. length (m b) = BSIZE" and r: "fresh sb lz m r" and i: "i < NDIRECT" "i_addrs x ! i = 0"
  defines "x' \<equiv> x\<lparr>i_addrs := (i_addrs x)[i := r]\<rparr>"
  shows "fwf sb lz (allocd sb r m) x'" "\<And>k. k < MAXFILE \<Longrightarrow> fblk (allocd sb r m) x' k = fblk m x k"
proof -
  note a = allocd_ok [OF r f(2)] and F = fwfD [OF f(1)]
  have r0: "r \<noteq> 0" using r by (simp add: fresh_def)
  have ad: "i_addrs x' ! j = (if j = i then r else i_addrs x ! j)" for j
    using i F(1) by (auto simp: x'_def nth_list_update)
  have old: "i_addrs x ! j \<noteq> r" if "j < NDIRECT" for j using F(2) [OF that] a(7) r0 by metis
  show fb: "fblk (allocd sb r m) x' k = fblk m x k" if "k < MAXFILE" for k
  proof -
    have k: "k div NINDIRECT < NDIRECT" "k mod NINDIRECT < NINDIRECT"
      using div_NINDIRECT [OF that] by (simp_all add: NINDIRECT_def)
    then show ?thesis
      using r0 i(2) id_get_zero [of "k mod NINDIRECT"] a(1) a(3) [OF F(2), of "k div NINDIRECT"]
      by (simp add: fblk_def ad Let_def)
  qed
  have "fblk m x k \<noteq> r" if "k < MAXFILE" for k using F(3) [OF that] a(7) r0 by metis
  moreover have "j = l" if "j < NDIRECT" "l < NDIRECT" "i_addrs x' ! j \<noteq> 0" "i_addrs x' ! j = i_addrs x' ! l" for j l
    using that ad old [of j] old [of l] F(4) [of j l] by (metis (full_types))
  moreover have "length (i_addrs x') = NDIRECT" using F(1) by (simp add: x'_def)
  ultimately show "fwf sb lz (allocd sb r m) x'"
    unfolding fwf_def using F(2,3,5,6) a(4,5) fb ad old r0 by auto
qed

lemma fwf_data:
  assumes f: "fwf sb lz m x" "\<And>b. length (m b) = BSIZE" and r: "fresh sb lz m r" "sb_size sb \<le> FSSIZE"
    and k: "k < MAXFILE" "i_addrs x ! (k div NINDIRECT) = a" "a \<noteq> 0" "fblk m x k = 0"
  defines "m' \<equiv> (allocd sb r m)(a := id_put (k mod NINDIRECT) r (m a))"
  shows "fwf sb lz m' x" "\<And>j. j < MAXFILE \<Longrightarrow> fblk m' x j = (if j = k then r else fblk m x j)"
    "\<And>b. b < sb_size sb \<Longrightarrow> used sb m' b \<longleftrightarrow> b = r \<or> used sb m b" "\<And>b. length (m' b) = BSIZE" "m' r = replicate BSIZE 0"
    "\<And>b. datab sb lz m b \<Longrightarrow> b \<noteq> a \<Longrightarrow> m' b = m b"
proof -
  note A = allocd_ok [OF r(1) f(2)] and F = fwfD [OF f(1)]
  have r0: "r \<noteq> 0" "r < 2 ^ 32" using r by (auto simp: fresh_def FSSIZE_def)
  have da: "datab sb lz m a" using F(2) [OF div_NINDIRECT [OF k(1)]] k(2,3) by simp
  have p: "k mod NINDIRECT < NINDIRECT" by (simp add: NINDIRECT_def)
  show u: "used sb m' b \<longleftrightarrow> b = r \<or> used sb m b" if "b < sb_size sb" for b
  proof -
    have "BBLOCK b sb \<noteq> a" using da that by (auto simp: datab_def meta_def)
    then have "used sb m' b = used sb (allocd sb r m) b" by (simp add: used_def m'_def)
    then show ?thesis using A(2) [OF that] by simp
  qed
  show "length (m' b) = BSIZE" for b using A(6) id_get_put(2) [OF p p f(2) r0(2)] by (simp add: m'_def)
  show "m' r = replicate BSIZE 0" using A(1) A(7) [OF da] by (simp add: m'_def)
  show mb: "m' b = m b" if "datab sb lz m b" "b \<noteq> a" for b using A(3) [OF that(1)] that(2) by (simp add: m'_def)
  show fb: "fblk m' x j = (if j = k then r else fblk m x j)" if j: "j < MAXFILE" for j
  proof (cases "j div NINDIRECT = k div NINDIRECT")
    case True
    moreover have "j mod NINDIRECT < NINDIRECT" by (simp add: NINDIRECT_def)
    moreover have "j mod NINDIRECT = k mod NINDIRECT \<longleftrightarrow> j = k" using True by (metis div_mult_mod_eq)
    ultimately show ?thesis using k(2,3) id_get_put(1) [OF p _ f(2) r0(2)] by (simp add: fblk_def Let_def m'_def)
  next
    case False
    have "i_addrs x ! (j div NINDIRECT) \<noteq> a" if "i_addrs x ! (j div NINDIRECT) \<noteq> 0"
      using F(4) [OF div_NINDIRECT [OF j] div_NINDIRECT [OF k(1)] that] k(2) False by auto
    then show ?thesis using mb F(2) [OF div_NINDIRECT [OF j]] False by (auto simp: fblk_def Let_def)
  qed
  have "i_addrs x ! j \<noteq> r" if "j < NDIRECT" for j using F(2) [OF that] A(7) r0(1) by metis
  moreover have "fblk m x j \<noteq> r" if "j < MAXFILE" for j using F(3) [OF that] A(7) r0(1) by metis
  moreover have "datab sb lz m b \<Longrightarrow> datab sb lz m' b" for b using u by (auto simp: datab_def)
  moreover have "datab sb lz m' r" using u r(1) by (auto simp: datab_def fresh_def)
  ultimately show "fwf sb lz m' x" unfolding fwf_def using F fb r0(1) by (auto split: if_splits)
qed

section \<open>The map from file blocks to disk blocks\<close>

definition nfree :: "superblock \<Rightarrow> (nat \<Rightarrow> bytes) \<Rightarrow> nat" where
  "nfree sb m = card {b. b < sb_size sb \<and> \<not> used sb m b}"

lemma nfree_alloc:
  assumes "r < sb_size sb" "\<not> used sb m r" "\<And>b. b < sb_size sb \<Longrightarrow> used sb m' b \<longleftrightarrow> b = r \<or> used sb m b"
  shows "nfree sb m = Suc (nfree sb m')"
proof -
  have "{b. b < sb_size sb \<and> \<not> used sb m b} = insert r {b. b < sb_size sb \<and> \<not> used sb m' b}"
    using assms by auto
  moreover have "r \<notin> {b. b < sb_size sb \<and> \<not> used sb m' b}" using assms by simp
  ultimately show ?thesis by (simp add: nfree_def)
qed

text \<open>A mounted disk no buffer of which is locked.\<close>

definition fsready :: "nat \<Rightarrow> (nat \<Rightarrow> bool) \<Rightarrow> superblock \<Rightarrow> 'a dst_scheme \<Rightarrow> bool" where
  "fsready d lz sb s \<longleftrightarrow> getsuperblock d s = Some sb \<and> bm_geom sb lz \<and> fs_marked sb lz (blk s d) \<and> (\<forall>b. (d, b) \<notin> held s)"

text \<open>The blocks a file has.\<close>

definition own :: "(nat \<Rightarrow> bytes) \<Rightarrow> inode \<Rightarrow> nat \<Rightarrow> bool" where
  "own m x b \<longleftrightarrow> b \<noteq> 0 \<and> ((\<exists>i < NDIRECT. i_addrs x ! i = b) \<or> (\<exists>k < MAXFILE. fblk m x k = b))"

text \<open>\<open>grown sb lz m x n m' x'\<close>: the inode \<open>x\<close> and the disk \<open>m\<close> became \<open>x'\<close> and \<open>m'\<close> by allocating at most \<open>n\<close>
  blocks for the file; the blocks of other files are untouched.\<close>

definition grown :: "superblock \<Rightarrow> (nat \<Rightarrow> bool) \<Rightarrow> (nat \<Rightarrow> bytes) \<Rightarrow> inode \<Rightarrow> nat \<Rightarrow> (nat \<Rightarrow> bytes) \<Rightarrow> inode \<Rightarrow> bool" where
  "grown sb lz m x n m' x' \<longleftrightarrow> fwf sb lz m' x' \<and> fs_marked sb lz m' \<and> x' = x\<lparr>i_addrs := i_addrs x'\<rparr>
     \<and> (\<forall>b < sb_size sb. used sb m b \<longrightarrow> used sb m' b) \<and> nfree sb m \<le> nfree sb m' + n
     \<and> (\<forall>b. datab sb lz m b \<longrightarrow> \<not> own m x b \<longrightarrow> m' b = m b \<and> \<not> own m' x' b)"

lemma grown_refl: "fwf sb lz m x \<Longrightarrow> fs_marked sb lz m \<Longrightarrow> grown sb lz m x n m x"
  by (simp add: grown_def)

lemma grownD:
  assumes "grown sb lz m x n m' x'"
  shows "fwf sb lz m' x'" "fs_marked sb lz m'" "x' = x\<lparr>i_addrs := i_addrs x'\<rparr>"
    "b < sb_size sb \<Longrightarrow> used sb m b \<Longrightarrow> used sb m' b" "nfree sb m \<le> nfree sb m' + n"
    "datab sb lz m b \<Longrightarrow> \<not> own m x b \<Longrightarrow> m' b = m b" "datab sb lz m b \<Longrightarrow> \<not> own m x b \<Longrightarrow> \<not> own m' x' b"
    "datab sb lz m b \<Longrightarrow> datab sb lz m' b"
  using assms unfolding grown_def datab_def by blast+

lemma grown_trans:
  assumes "grown sb lz m x n m1 x1" "grown sb lz m1 x1 k m2 x2"
  shows "grown sb lz m x (n + k) m2 x2"
proof -
  note 1 = grownD [OF assms(1)] and 2 = grownD [OF assms(2)]
  have "x2 = x1\<lparr>i_addrs := i_addrs x2\<rparr>" by (rule 2(3))
  also have "\<dots> = x\<lparr>i_addrs := i_addrs x1\<rparr>\<lparr>i_addrs := i_addrs x2\<rparr>" using 1(3) by simp
  finally have "x2 = x\<lparr>i_addrs := i_addrs x2\<rparr>" by simp
  then show ?thesis
    unfolding grown_def using 2(1,2) 1(4-8) 2(4-7) by (intro conjI allI impI) (auto intro: order_trans)
qed

lemma grown_indirect:
  assumes f: "fwf sb lz m x" "\<And>b. length (m b) = BSIZE" "fs_marked sb lz m" and r: "fresh sb lz m r"
    and i: "i < NDIRECT" "i_addrs x ! i = 0"
  shows "grown sb lz m x 1 (allocd sb r m) (x\<lparr>i_addrs := (i_addrs x)[i := r]\<rparr>)"
proof -
  note a = allocd_ok [OF r f(2)] and F = fwfD [OF f(1)] and w = fwf_indirect [OF f(1,2) r i]
  have r': "r < sb_size sb" "\<not> used sb m r" using r by (auto simp: fresh_def)
  have "nfree sb m = Suc (nfree sb (allocd sb r m))" by (rule nfree_alloc [OF r' a(2)])
  moreover have "fs_marked sb lz (allocd sb r m)" using f(3) a(2) by (simp add: fs_marked_def)
  moreover have "\<not> own (allocd sb r m) (x\<lparr>i_addrs := (i_addrs x)[i := r]\<rparr>) b" if "datab sb lz m b" "\<not> own m x b" for b
    using that w(2) a(7) [OF that(1)] i F(1) by (auto simp: own_def nth_list_update)
  ultimately show ?thesis
    unfolding grown_def using w(1) a(2,3) by (intro conjI allI impI) auto
qed

lemma grown_data:
  assumes f: "fwf sb lz m x" "\<And>b. length (m b) = BSIZE" "fs_marked sb lz m" and r: "fresh sb lz m r" "sb_size sb \<le> FSSIZE"
    and k: "k < MAXFILE" "i_addrs x ! (k div NINDIRECT) = a" "a \<noteq> 0" "fblk m x k = 0"
  shows "grown sb lz m x 1 ((allocd sb r m)(a := id_put (k mod NINDIRECT) r (m a))) x"
proof -
  let ?m = "(allocd sb r m)(a := id_put (k mod NINDIRECT) r (m a))"
  note w = fwf_data [OF f(1,2) r k]
  have r': "r < sb_size sb" "\<not> used sb m r" using r by (auto simp: fresh_def)
  have "nfree sb m = Suc (nfree sb ?m)" by (rule nfree_alloc [OF r' w(3)])
  moreover have "fs_marked sb lz ?m" using f(3) w(3) by (simp add: fs_marked_def)
  moreover have "b \<noteq> a" if "\<not> own m x b" for b
    using that k(2,3) div_NINDIRECT [OF k(1)] by (auto simp: own_def)
  moreover have "\<not> own ?m x b" if "datab sb lz m b" "\<not> own m x b" for b
    using that w(2) r' by (auto simp: own_def datab_def split: if_splits)
  ultimately show ?thesis
    unfolding grown_def using w(1,3,6) by (intro conjI allI impI) auto
qed

lemma balloc_fresh:
  assumes t: "tx d lz (k + 2) s" and sb: "getsuperblock d s = Some sb" "bm_geom sb lz"
    and m: "fs_marked sb lz (blk s d)" and u: "bm_unheld d sb s" and n: "1 \<le> nfree sb (blk s d)"
  shows "\<exists>r ws s'. balloc d s = Inr (r, s') \<and> fresh sb lz (blk s d) r \<and> lstep d ws s s'
    \<and> blk s' d = allocd sb r (blk s d) \<and> tx d lz k s'"
proof -
  from balloc_ok [OF t sb fs_marked_bm [OF m] u] obtain r s' where
    b: "balloc d s = Inr (r, s')" "balloc_post d lz k sb s r s'" by blast
  have nf: "\<not> (\<forall>b < sb_size sb. used sb (blk s d) b)"
  proof
    assume "\<forall>b < sb_size sb. used sb (blk s d) b"
    then have e: "{b. b < sb_size sb \<and> \<not> used sb (blk s d) b} = {}" by blast
    show False using n [unfolded nfree_def e] by simp
  qed
  have p: "r < sb_size sb" "\<not> used sb (blk s d) r" "tx d lz k s'"
    "lstep d [(BBLOCK r sb, bm_set (r mod BPB) (blk s d (BBLOCK r sb))), (r, replicate BSIZE 0)] s s'"
    using b(2) unfolding balloc_post_def if_not_P [OF nf] by blast+
  have "fresh sb lz (blk s d) r" using p(1,2) m [unfolded fs_marked_def, rule_format, OF p(1)] unfolding fresh_def by metis
  moreover have "blk s' d = allocd sb r (blk s d)" unfolding lstepD(4) [OF p(4)] by (simp add: allocd_def)
  ultimately show ?thesis using b(1) p(3,4) by blast
qed

lemma fsready_unheld: "fsready d lz sb s \<Longrightarrow> bm_unheld d sb s"
  by (simp add: fsready_def bm_unheld_def)

lemma bmap_indirect_ok:
  assumes t: "tx d lz (k + 2) s" and R: "fsready d lz sb s"
    and x: "x = inodes s ! ip" "ip < length (inodes s)" "i_dev x = d" and f: "fwf sb lz (blk s d) x"
    and i: "i < NDIRECT" and n: "1 \<le> nfree sb (blk s d)"
  shows "\<exists>ws x1 s1. bmap_indirect ip i s = Inr (True, s1) \<and> fstep d ws ((inodes s)[ip := x1]) s s1 \<and> tx d lz k s1
    \<and> grown sb lz (blk s d) x 1 (blk s1 d) x1 \<and> i_addrs x1 ! i \<noteq> 0
    \<and> (\<forall>j < MAXFILE. fblk (blk s1 d) x1 j = fblk (blk s d) x j)
    \<and> (\<forall>b. datab sb lz (blk s d) b \<longrightarrow> blk s1 d b = blk s d b)"
proof (cases "i_addrs x ! i = 0")
  case False
  have "(inodes s)[ip := x] = inodes s" using x(1) by simp
  then have "fstep d [] ((inodes s)[ip := x]) s s" using fstep_lstep [OF lstep_refl, of d s] by simp
  moreover have "bmap_indirect ip i s = Inr (True, s)" using False x(1) by (simp add: bmap_indirect_def)
  moreover have "grown sb lz (blk s d) x 1 (blk s d) x" using grown_refl f R by (simp add: fsready_def)
  ultimately show ?thesis using False tx_less [OF t] by (intro exI [of _ "[]"] exI [of _ x] exI [of _ s]) simp
next
  case True
  have l: "length (blk s d b) = BSIZE" for b by (rule length_blk [OF txD(1) [OF t]])
  have R': "getsuperblock d s = Some sb" "bm_geom sb lz" "fs_marked sb lz (blk s d)" using R by (auto simp: fsready_def)
  from balloc_fresh [OF t R' fsready_unheld [OF R] n] obtain r ws s' where
    b: "balloc d s = Inr (r, s')" "fresh sb lz (blk s d) r" "lstep d ws s s'"
    "blk s' d = allocd sb r (blk s d)" "tx d lz k s'" by blast
  let ?x = "x\<lparr>i_addrs := (i_addrs x)[i := r]\<rparr>"
  let ?s = "upd_inode ip (\<lambda>x. x\<lparr>i_addrs := (i_addrs x)[i := r]\<rparr>) s'"
  have r0: "r \<noteq> 0" using b(2) by (simp add: fresh_def)
  have i1: "inodes s' = inodes s" by (rule lstep_inodes [OF b(3)])
  have "bmap_indirect ip i s = Inr (True, ?s)" using True b(1) r0 x(1,3) by (simp add: bmap_indirect_def)
  moreover have "fstep d ws ((inodes s)[ip := ?x]) s ?s"
    using fstep_trans [OF fstep_lstep [OF b(3)] fstep_upd [of d s' ip "\<lambda>x. x\<lparr>i_addrs := (i_addrs x)[i := r]\<rparr>"]] x(1)
    by (simp add: i1)
  moreover have "grown sb lz (blk s d) x 1 (blk ?s d) ?x"
    using grown_indirect [OF f l R'(3) b(2) i True] b(4) by simp
  moreover have "\<forall>j < MAXFILE. fblk (blk ?s d) ?x j = fblk (blk s d) x j"
    using fwf_indirect(2) [OF f l b(2) i True] b(4) by simp
  moreover have "\<forall>b. datab sb lz (blk s d) b \<longrightarrow> blk ?s d b = blk s d b"
    using allocd_ok(3) [OF b(2) l] b(4) by simp
  moreover have "i_addrs ?x ! i \<noteq> 0" using fwfD(1) [OF f] i r0 by simp
  ultimately show ?thesis using b(5) by (intro exI [of _ ws] exI [of _ ?x] exI [of _ ?s]) simp
qed

lemma bmap_entry_ok:
  assumes t: "tx d lz (k + 4) s" and R: "fsready d lz sb s" and f: "fwf sb lz (blk s d) x"
    and bn: "bn < MAXFILE" and a: "i_addrs x ! (bn div NINDIRECT) = a" "a \<noteq> 0" and n: "1 \<le> nfree sb (blk s d)"
  shows "\<exists>bp s1 s2 s3 ws. bread d a s = Inr (bp, s1) \<and> bmap_entry d bp (bn mod NINDIRECT) s1 = Inr (True, s2)
    \<and> id_get (bn mod NINDIRECT) (b_data (bufs s2 ! bp)) = fblk (blk s3 d) x bn \<and> brelse bp s2 = Inr ((), s3)
    \<and> lstep d ws s s3 \<and> tx d lz k s3 \<and> grown sb lz (blk s d) x 1 (blk s3 d) x \<and> fblk (blk s3 d) x bn \<noteq> 0
    \<and> (\<forall>j < MAXFILE. j \<noteq> bn \<longrightarrow> fblk (blk s3 d) x j = fblk (blk s d) x j)
    \<and> (if fblk (blk s d) x bn = 0 then blk s3 d (fblk (blk s3 d) x bn) = replicate BSIZE 0
       else fblk (blk s3 d) x bn = fblk (blk s d) x bn)
    \<and> (\<forall>b. datab sb lz (blk s d) b \<longrightarrow> b \<noteq> a \<longrightarrow> blk s3 d b = blk s d b)"
proof -
  let ?p = "bn mod NINDIRECT" and ?m = "blk s d"
  have R': "getsuperblock d s = Some sb" "bm_geom sb lz" "fs_marked sb lz ?m" "\<And>b. (d, b) \<notin> held s"
    using R by (auto simp: fsready_def)
  have l: "length (?m b) = BSIZE" for b by (rule length_blk [OF txD(1) [OF t]])
  have da: "datab sb lz ?m a" using fwfD(2) [OF f div_NINDIRECT [OF bn]] a by simp
  then have A: "a < FSSIZE" "\<not> lz a" "used sb ?m a" "\<not> meta sb a" using R'(2) by (auto simp: datab_def bm_geom_def)
  from tx_read_hold [OF t A(1) R'(4)] obtain bp s1 where
    1: "bread d a s = Inr (bp, s1)" "bread_post s d a bp s1" "b_data (bufs s1 ! bp) = ?m a" by blast
  note p1 = bread_postD [OF 1(2)]
  have t1: "tx d lz (k + 3) s1" using tx_hold [OF _ 1(2), of lz "k + 3"] t by (simp add: eval_nat_numeral)
  have fb: "fblk ?m x bn = id_get ?p (?m a)" using a by (simp add: fblk_def Let_def)
  show ?thesis
  proof (cases "fblk ?m x bn = 0")
    case False
    have e: "bmap_entry d bp ?p s1 = Inr (True, s1)" using False fb 1(3) by (simp add: bmap_entry_def)
    from tx_release [OF t1 p1(7)] obtain s3 where 3: "brelse bp s1 = Inr ((), s3)" "brelse_post s1 d a s3" "tx d lz (k + 3) s3"
      by blast
    have st: "lstep d [] s s3" by (rule lstep_hold [OF 1(2) lstep_refl 3(2) R'(4)])
    have m3: "blk s3 = blk s" using lstepD(4) [OF st] by simp
    show ?thesis
      using 1(1,3) e 3(1) st tx_less [OF 3(3), of k] grown_refl [OF f R'(3), of 1] False fb
      by (intro exI [of _ bp] exI [of _ s1] exI [of _ s1] exI [of _ s3] exI [of _ "[]"]) (simp add: m3)
  next
    case True
    have sb1: "getsuperblock d s1 = Some sb"
      using bframe_getsuperblock(1) [OF p1(2) txD(3) [OF t]] R'(1) by simp
    have u1: "bm_unheld d sb s1"
      unfolding bm_unheld_def p1(6,8) using R'(4) A(3,4) by (auto simp: meta_def)
    have "tx d lz (Suc k + 2) s1" using t1 by (simp add: eval_nat_numeral)
    from balloc_fresh [OF this sb1 R'(2) _ u1] R'(3) n p1(6) obtain r ws s2 where
      2: "balloc d s1 = Inr (r, s2)" "fresh sb lz ?m r" "lstep d ws s1 s2" "blk s2 d = allocd sb r ?m" "tx d lz (Suc k) s2"
      by auto
    have r0: "r \<noteq> 0" "r < 2 ^ 32" using 2(2) R'(2) by (auto simp: fresh_def bm_geom_def FSSIZE_def)
    have ow2: "owns s2 bp d a" by (rule lstepD(7) [OF 2(3) p1(7)])
    have d2: "b_data (bufs s2 ! bp) = ?m a"
      using owns_bdata [OF txD(1) [OF 2(5)] ow2] 2(4) allocd_ok(3) [OF 2(2) l da] by (simp add: bdata_def)
    let ?y = "id_put ?p r (?m a)"
    have p: "?p < NINDIRECT" by (simp add: NINDIRECT_def)
    note y = id_get_put [OF p p l r0(2), of a]
    from tx_log_held [OF 2(5) ow2 y(2) A(1,2)] obtain s3 where
      3: "log_write bp (set_data bp ?y s2) = Inr ((), s3)" "lstep d [(a, ?y)] s2 s3" "tx d lz k s3" by blast
    have ow3: "owns s3 bp d a" by (rule lstepD(7) [OF 3(2) ow2])
    from tx_release [OF 3(3) ow3] obtain s4 where 4: "brelse bp s3 = Inr ((), s4)" "brelse_post s3 d a s4" "tx d lz k s4" by blast
    have e: "bmap_entry d bp ?p s1 = Inr (True, s3)"
      using True fb 1(3) 2(1) r0(1) d2 3(1) by (simp add: bmap_entry_def)
    have st: "lstep d (ws @ [(a, ?y)]) s s4"
      by (rule lstep_hold [OF 1(2) lstep_trans [OF 2(3) 3(2)] 4(2) R'(4)])
    have m3: "blk s3 d = (allocd sb r ?m)(a := ?y)" using lstepD(4) [OF 3(2)] 2(4) by simp
    then have m4: "blk s4 d = (allocd sb r ?m)(a := ?y)" using brelse_postD(6) [OF 4(2)] by simp
    have sz: "sb_size sb \<le> FSSIZE" using R'(2) by (simp add: bm_geom_def)
    note w = fwf_data [OF f l 2(2) sz bn a True, folded m4] and g = grown_data [OF f l R'(3) 2(2) sz bn a True, folded m4]
    have "id_get ?p (b_data (bufs s3 ! bp)) = r"
      using owns_bdata [OF txD(1) [OF 3(3)] ow3] m3 y(1) by (simp add: bdata_def)
    then show ?thesis
      using 1(1) e 4(1) st 4(3) g w(2) [OF bn] w(2,5,6) r0(1) True
      by (intro exI [of _ bp] exI [of _ s1] exI [of _ s3] exI [of _ s4] exI [of _ "ws @ [(a, ?y)]"]) simp
  qed
qed

lemma bmap_ok:
  assumes t: "tx d lz (k + 6) s" and R: "fsready d lz sb s"
    and x: "x = inodes s ! ip" "ip < length (inodes s)" "i_dev x = d" and f: "fwf sb lz (blk s d) x"
    and bn: "bn < MAXFILE" and n: "2 \<le> nfree sb (blk s d)"
  shows "\<exists>ws x' s'. bmap ip bn s = Inr (fblk (blk s' d) x' bn, s') \<and> fstep d ws ((inodes s)[ip := x']) s s'
    \<and> tx d lz k s' \<and> grown sb lz (blk s d) x 2 (blk s' d) x' \<and> fblk (blk s' d) x' bn \<noteq> 0
    \<and> (\<forall>j < MAXFILE. j \<noteq> bn \<longrightarrow> fblk (blk s' d) x' j = fblk (blk s d) x j)
    \<and> (if fblk (blk s d) x bn = 0 then blk s' d (fblk (blk s' d) x' bn) = replicate BSIZE 0
       else fblk (blk s' d) x' bn = fblk (blk s d) x bn)
    \<and> (\<forall>j < MAXFILE. fblk (blk s d) x j \<noteq> 0 \<longrightarrow> blk s' d (fblk (blk s d) x j) = blk s d (fblk (blk s d) x j))"
proof -
  let ?i = "bn div NINDIRECT" and ?m = "blk s d"
  have i: "?i < NDIRECT" by (rule div_NINDIRECT [OF bn])
  have t4: "tx d lz (k + 4 + 2) s" using t by (simp add: eval_nat_numeral)
  from bmap_indirect_ok [OF t4 R x f i] n obtain ws x1 s1 where
    1: "bmap_indirect ip ?i s = Inr (True, s1)" "fstep d ws ((inodes s)[ip := x1]) s s1" "tx d lz (k + 4) s1"
      "grown sb lz ?m x 1 (blk s1 d) x1" "i_addrs x1 ! ?i \<noteq> 0"
      "\<forall>j < MAXFILE. fblk (blk s1 d) x1 j = fblk ?m x j" "\<forall>b. datab sb lz ?m b \<longrightarrow> blk s1 d b = ?m b"
    by auto
  note g = grownD [OF 1(4)]
  have sb1: "getsuperblock d s1 = Some sb"
    using fstep_superblock [OF 1(2) txD(3) [OF t]] R by (simp add: fsready_def)
  have R1: "fsready d lz sb s1"
    using R g(2) sb1 fstepD(3) [OF 1(2)] by (simp add: fsready_def)
  from bmap_entry_ok [OF 1(3) R1 g(1) bn refl 1(5)] g(5) n obtain bp s2 s3 s4 vs where
    2: "bread d (i_addrs x1 ! ?i) s1 = Inr (bp, s2)" "bmap_entry d bp (bn mod NINDIRECT) s2 = Inr (True, s3)"
      "id_get (bn mod NINDIRECT) (b_data (bufs s3 ! bp)) = fblk (blk s4 d) x1 bn" "brelse bp s3 = Inr ((), s4)"
      "lstep d vs s1 s4" "tx d lz k s4" "grown sb lz (blk s1 d) x1 1 (blk s4 d) x1" "fblk (blk s4 d) x1 bn \<noteq> 0"
      "\<forall>j < MAXFILE. j \<noteq> bn \<longrightarrow> fblk (blk s4 d) x1 j = fblk (blk s1 d) x1 j"
      "if fblk (blk s1 d) x1 bn = 0 then blk s4 d (fblk (blk s4 d) x1 bn) = replicate BSIZE 0
       else fblk (blk s4 d) x1 bn = fblk (blk s1 d) x1 bn"
      "\<forall>b. datab sb lz (blk s1 d) b \<longrightarrow> b \<noteq> i_addrs x1 ! ?i \<longrightarrow> blk s4 d b = blk s1 d b"
    by auto
  have in1: "inodes s1 ! ip = x1" using fstepD(1) [OF 1(2)] x(2) by simp
  have "bmap ip bn s = Inr (fblk (blk s4 d) x1 bn, s4)"
    using bn 1(1) 2(1-4) in1 x(1,3) by (simp add: bmap_def bmap_g_def offset2real_def Let_def)
  moreover have "fstep d (ws @ vs) ((inodes s)[ip := x1]) s s4"
    using fstep_trans [OF 1(2) fstep_lstep [OF 2(5)]] fstepD(1) [OF 1(2)] by simp
  moreover have "grown sb lz ?m x 2 (blk s4 d) x1" using grown_trans [OF 1(4) 2(7)] by (simp add: numeral_2_eq_2)
  moreover have "blk s4 d (fblk ?m x j) = ?m (fblk ?m x j)" if j: "j < MAXFILE" "fblk ?m x j \<noteq> 0" for j
  proof -
    have b: "datab sb lz ?m (fblk ?m x j)" by (rule fwfD(3) [OF f j])
    have "i_addrs x1 ! ?i \<noteq> fblk ?m x j" using fwfD(6) [OF g(1) i j(1)] 1(6) j by simp
    then show ?thesis using b g(8) 1(7) 2(11) by simp
  qed
  ultimately show ?thesis
    using 2(6,8-10) 1(6) bn by (intro exI [of _ "ws @ vs"] exI [of _ x1] exI [of _ s4]) simp
qed

section \<open>The bytes of a file\<close>

text \<open>Byte \<open>p\<close> of a file; a block that is not there reads as zeros.\<close>

definition fbyte :: "(nat \<Rightarrow> bytes) \<Rightarrow> inode \<Rightarrow> nat \<Rightarrow> u8" where
  "fbyte m x p = (let b = fblk m x (p div BSIZE) in if b = 0 then 0 else m b ! (p mod BSIZE))"

lemma div_BSIZE: "p < MAXFILE * BSIZE \<Longrightarrow> p div BSIZE < MAXFILE"
  by (simp add: less_mult_imp_div_less)

lemma mod_BSIZE [simp]: "p mod BSIZE < BSIZE"
  by (simp add: BSIZE_def)

lemma bmap_fbyte:
  assumes bn: "bn < MAXFILE" and o: "\<forall>j < MAXFILE. j \<noteq> bn \<longrightarrow> fblk m' x' j = fblk m x j"
    and n: "if fblk m x bn = 0 then m' (fblk m' x' bn) = replicate BSIZE 0 else fblk m' x' bn = fblk m x bn"
    and c: "\<forall>j < MAXFILE. fblk m x j \<noteq> 0 \<longrightarrow> m' (fblk m x j) = m (fblk m x j)"
    and p: "p < MAXFILE * BSIZE"
  shows "fbyte m' x' p = fbyte m x p"
proof (cases "p div BSIZE = bn")
  case True
  then show ?thesis using n c bn by (auto simp: fbyte_def Let_def split: if_splits)
next
  case False
  then show ?thesis using o c div_BSIZE [OF p] by (simp add: fbyte_def Let_def)
qed

lemma block_offset:
  assumes "p div BSIZE = off div BSIZE"
  shows "off \<le> p \<longleftrightarrow> off mod BSIZE \<le> p mod BSIZE" "p < off + n \<longleftrightarrow> p mod BSIZE < off mod BSIZE + n"
    "p - off = p mod BSIZE - off mod BSIZE"
  using div_mult_mod_eq [of off BSIZE] div_mult_mod_eq [of p BSIZE] unfolding assms by linarith+

lemma block_range:
  assumes "off \<le> p" "p < off + n" "off mod BSIZE + n \<le> BSIZE"
  shows "p div BSIZE = off div BSIZE"
proof -
  have "p < off div BSIZE * BSIZE + BSIZE" using assms div_mult_mod_eq [of off BSIZE] by linarith
  moreover have "off div BSIZE * BSIZE \<le> p" using assms div_times_less_eq_dividend [of off BSIZE] by linarith
  ultimately show ?thesis by (intro div_nat_eqI) (simp_all add: algebra_simps)
qed

text \<open>Writing into one block of the file.\<close>

lemma put_block:
  assumes f: "fwf sb lz m x" "\<And>b. length (m b) = BSIZE" "fs_marked sb lz m"
    and k: "off div BSIZE < MAXFILE" "fblk m x (off div BSIZE) = b" "b \<noteq> 0"
    and ys: "off mod BSIZE + length ys \<le> BSIZE"
  defines "m' \<equiv> m(b := patch (off mod BSIZE) ys (m b))"
  shows "grown sb lz m x 0 m' x" "\<And>j. j < MAXFILE \<Longrightarrow> fblk m' x j = fblk m x j" "\<And>b. length (m' b) = BSIZE"
    "\<And>p. p < MAXFILE * BSIZE \<Longrightarrow>
      fbyte m' x p = (if off \<le> p \<and> p < off + length ys then ys ! (p - off) else fbyte m x p)"
proof -
  note F = fwfD [OF f(1)]
  have db: "datab sb lz m b" using F(3) [OF k(1)] k(2,3) by simp
  have u: "used sb m' c = used sb m c" if "c < sb_size sb" for c
  proof -
    have "BBLOCK c sb \<noteq> b" using db that by (auto simp: datab_def meta_def)
    then show ?thesis by (simp add: used_def m'_def)
  qed
  have a: "m' (i_addrs x ! i) = m (i_addrs x ! i)" if "i < NDIRECT" for i
    using F(6) [OF that k(1)] k(2,3) by (auto simp: m'_def)
  have fw: "fwf sb lz m' x" by (rule fwf_cong(1) [OF f(1)]) (use a u in auto)
  show fb: "fblk m' x j = fblk m x j" if "j < MAXFILE" for j
    by (rule fwf_cong(2) [OF f(1)]) (use a u that in auto)
  show lm: "length (m' c) = BSIZE" for c using ys f(2) by (simp add: m'_def)
  have "nfree sb m' = nfree sb m" using u by (auto simp: nfree_def intro!: arg_cong [where f = card])
  moreover have "fs_marked sb lz m'" using f(3) u by (simp add: fs_marked_def)
  moreover have ow: "own m' x c = own m x c" for c using fb by (auto simp: own_def)
  moreover have "own m x b" using k by (auto simp: own_def)
  ultimately show "grown sb lz m x 0 m' x"
    unfolding grown_def using fw u by (auto simp: m'_def)
  show "fbyte m' x p = (if off \<le> p \<and> p < off + length ys then ys ! (p - off) else fbyte m x p)"
    if p: "p < MAXFILE * BSIZE" for p
  proof (cases "p div BSIZE = off div BSIZE")
    case True
    have "fbyte m' x p = patch (off mod BSIZE) ys (m b) ! (p mod BSIZE)"
      using True fb [OF k(1)] k(2,3) by (simp add: fbyte_def m'_def)
    also have "\<dots> = (if off mod BSIZE \<le> p mod BSIZE \<and> p mod BSIZE < off mod BSIZE + length ys
        then ys ! (p mod BSIZE - off mod BSIZE) else m b ! (p mod BSIZE))"
      using ys f(2) by (intro nth_patch) simp_all
    also have "\<dots> = (if off \<le> p \<and> p < off + length ys then ys ! (p - off) else m b ! (p mod BSIZE))"
      by (simp add: block_offset [OF True])
    finally show ?thesis using True k(2,3) by (simp add: fbyte_def)
  next
    case False
    have "\<not> (off \<le> p \<and> p < off + length ys)" using block_range [of off p "length ys"] ys False by blast
    moreover have "fblk m x (p div BSIZE) = b \<Longrightarrow> False" using F(5) [OF div_BSIZE [OF p] k(1)] k(2,3) False by auto
    ultimately show ?thesis using fb [OF div_BSIZE [OF p]] by (auto simp: fbyte_def Let_def m'_def)
  qed
qed

section \<open>Writing\<close>

text \<open>What a part of \<^verbatim>\<open>writei\<close> that wrote \<open>ys\<close> at \<open>off\<close> has done, with at most \<open>n\<close> blocks allocated.\<close>

definition wrote_at :: "nat \<Rightarrow> (nat \<Rightarrow> bool) \<Rightarrow> superblock \<Rightarrow> nat \<Rightarrow> inode \<Rightarrow> nat \<Rightarrow> nat \<Rightarrow> bytes \<Rightarrow> 'a fsst_scheme
    \<Rightarrow> inode \<Rightarrow> 'a fsst_scheme \<Rightarrow> bool" where
  "wrote_at d lz sb ip x n off ys s x' s' \<longleftrightarrow> (\<exists>ws. fstep d ws ((inodes s)[ip := x']) s s')
     \<and> fsready d lz sb s' \<and> grown sb lz (blk s d) x n (blk s' d) x'
     \<and> (\<forall>p < MAXFILE * BSIZE. fbyte (blk s' d) x' p =
          (if off \<le> p \<and> p < off + length ys then ys ! (p - off) else fbyte (blk s d) x p))
     \<and> (\<forall>j < MAXFILE. fblk (blk s d) x j \<noteq> 0 \<longrightarrow> fblk (blk s' d) x' j \<noteq> 0)
     \<and> (\<forall>p < MAXFILE * BSIZE. off \<le> p \<and> p < off + length ys \<longrightarrow> fblk (blk s' d) x' (p div BSIZE) \<noteq> 0)"

lemma wrote_atD:
  assumes "wrote_at d lz sb ip x n off ys s x' s'"
  shows "\<exists>ws. fstep d ws ((inodes s)[ip := x']) s s'" "fsready d lz sb s'" "grown sb lz (blk s d) x n (blk s' d) x'"
    "p < MAXFILE * BSIZE \<Longrightarrow> fbyte (blk s' d) x' p =
          (if off \<le> p \<and> p < off + length ys then ys ! (p - off) else fbyte (blk s d) x p)"
    "j < MAXFILE \<Longrightarrow> fblk (blk s d) x j \<noteq> 0 \<Longrightarrow> fblk (blk s' d) x' j \<noteq> 0"
    "p < MAXFILE * BSIZE \<Longrightarrow> off \<le> p \<Longrightarrow> p < off + length ys \<Longrightarrow> fblk (blk s' d) x' (p div BSIZE) \<noteq> 0"
  using assms unfolding wrote_at_def by blast+

lemma fwf_block:
  assumes "fsready d lz sb s" "fwf sb lz (blk s d) x" "j < MAXFILE" "fblk (blk s d) x j \<noteq> 0"
  shows "fblk (blk s d) x j < FSSIZE" "\<not> lz (fblk (blk s d) x j)" "(d, fblk (blk s d) x j) \<notin> held s"
    "\<not> s32 (fblk (blk s d) x j) < 0"
  using fwfD(3) [OF assms(2-4)] assms(1) by (auto simp: datab_def fsready_def bm_geom_def s32_def FSSIZE_def)

lemma writei_block:
  assumes t: "tx d lz (k + 7) s" and R: "fsready d lz sb s"
    and x: "x = inodes s ! ip" "ip < length (inodes s)" "i_dev x = d" and f: "fwf sb lz (blk s d) x"
    and bn: "off div BSIZE < MAXFILE" and n: "2 \<le> nfree sb (blk s d)"
    and ys: "0 < length ys" "off mod BSIZE + length ys \<le> BSIZE"
  shows "\<exists>b s1 bp s2 s3 s' x'. bmap ip (off div BSIZE) s = Inr (b, s1) \<and> \<not> s32 b < 0
    \<and> bread (i_dev (inodes s1 ! ip)) b s1 = Inr (bp, s2)
    \<and> log_write bp (set_data bp (patch (off mod BSIZE) ys (b_data (bufs s2 ! bp))) s2) = Inr ((), s3)
    \<and> brelse bp s3 = Inr ((), s') \<and> tx d lz k s' \<and> wrote_at d lz sb ip x 2 off ys s x' s'"
proof -
  let ?k = "off div BSIZE" and ?m = "blk s d"
  have t1: "tx d lz (Suc k + 6) s" using t by (simp add: eval_nat_numeral)
  from bmap_ok [OF t1 R x f bn n] obtain ws x' s1 where
    1: "bmap ip ?k s = Inr (fblk (blk s1 d) x' ?k, s1)" "fstep d ws ((inodes s)[ip := x']) s s1"
      "tx d lz (Suc k) s1" "grown sb lz ?m x 2 (blk s1 d) x'" "fblk (blk s1 d) x' ?k \<noteq> 0"
      "\<forall>j < MAXFILE. j \<noteq> ?k \<longrightarrow> fblk (blk s1 d) x' j = fblk ?m x j"
      "if fblk ?m x ?k = 0 then blk s1 d (fblk (blk s1 d) x' ?k) = replicate BSIZE 0
       else fblk (blk s1 d) x' ?k = fblk ?m x ?k"
      "\<forall>j < MAXFILE. fblk ?m x j \<noteq> 0 \<longrightarrow> blk s1 d (fblk ?m x j) = ?m (fblk ?m x j)" by blast
  note g = grownD [OF 1(4)]
  let ?b = "fblk (blk s1 d) x' ?k"
  have l1: "length (blk s1 d b) = BSIZE" for b by (rule length_blk [OF txD(1) [OF 1(3)]])
  have R1: "fsready d lz sb s1"
    using R g(2) fstep_superblock [OF 1(2) txD(3) [OF t]] fstepD(3) [OF 1(2)] by (simp add: fsready_def)
  note B = fwf_block [OF R1 g(1) bn 1(5)]
  let ?y = "patch (off mod BSIZE) ys (blk s1 d ?b)"
  from tx_rmw [OF 1(3) B(1,3)] obtain bp s2 where
    2: "bread d ?b s1 = Inr (bp, s2)" "b_data (bufs s2 ! bp) = blk s1 d ?b"
    and w: "\<forall>x j. \<not> lz ?b \<longrightarrow> Suc k = Suc j \<longrightarrow> length x = BSIZE \<longrightarrow>
        (\<exists>s3 s4. log_write bp (set_data bp x s2) = Inr ((), s3) \<and> brelse bp s3 = Inr ((), s4)
          \<and> lstep d [(?b, x)] s1 s4 \<and> tx d lz j s4)" by blast
  obtain s3 s4 where 3: "log_write bp (set_data bp ?y s2) = Inr ((), s3)" "brelse bp s3 = Inr ((), s4)"
    "lstep d [(?b, ?y)] s1 s4" "tx d lz k s4" using w [THEN spec [of _ ?y], THEN spec [of _ k]] B(2) l1 ys(2) by auto
  have m4: "blk s4 d = (blk s1 d)(?b := ?y)" using lstepD(4) [OF 3(3)] by simp
  note P = put_block [OF g(1) l1 g(2) bn refl 1(5) ys(2), folded m4]
  have i1: "inodes s1 = (inodes s)[ip := x']" by (rule fstepD(1) [OF 1(2)])
  have st: "fstep d (ws @ [(?b, ?y)]) ((inodes s)[ip := x']) s s4"
    using fstep_trans [OF 1(2) fstep_lstep [OF 3(3)]] i1 by simp
  have R4: "fsready d lz sb s4"
    using R1 lstep_superblock [OF 3(3) txD(3) [OF 1(3)]] lstepD(5) [OF 3(3)] grownD(2) [OF P(1)] by (simp add: fsready_def)
  have fb: "fbyte (blk s4 d) x' p = (if off \<le> p \<and> p < off + length ys then ys ! (p - off) else fbyte ?m x p)"
    if "p < MAXFILE * BSIZE" for p
    using P(4) [OF that] bmap_fbyte [OF bn 1(6-8) that] by simp
  have nz: "fblk (blk s4 d) x' j \<noteq> 0" if "j < MAXFILE" "fblk ?m x j \<noteq> 0" for j
    using P(2) [OF that(1)] 1(5,6) that by (cases "j = ?k") auto
  have rg: "fblk (blk s4 d) x' (p div BSIZE) \<noteq> 0" if "off \<le> p" "p < off + length ys" for p
    using block_range [OF that ys(2)] P(2) [OF bn] 1(5) by simp
  have "wrote_at d lz sb ip x 2 off ys s x' s4"
    unfolding wrote_at_def using st R4 grown_trans [OF 1(4) P(1)] fb nz rg by auto
  moreover have "i_dev (inodes s1 ! ip) = d" using i1 x(2,3) arg_cong [OF g(3), of i_dev] by simp
  ultimately show ?thesis
    using 1(1) B(4) 2 3 by (intro exI [of _ ?b] exI [of _ s1] exI [of _ bp] exI [of _ s2] exI [of _ s3]
        exI [of _ s4] exI [of _ x']) simp
qed

text \<open>The number of blocks that \<open>r\<close> bytes at \<open>off\<close> touch.\<close>

definition nblk :: "nat \<Rightarrow> nat \<Rightarrow> nat" where
  "nblk off r = (if r = 0 then 0 else (off mod BSIZE + r + BSIZE - 1) div BSIZE)"

lemma nblk_step:
  assumes "0 < r"
  shows "nblk off r = Suc (nblk (off + min r (BSIZE - off mod BSIZE)) (r - min r (BSIZE - off mod BSIZE)))"
proof (cases "r \<le> BSIZE - off mod BSIZE")
  case True
  have "(off mod BSIZE + r + BSIZE - 1) div BSIZE = 1"
    by (rule div_nat_eqI) (use assms True in \<open>auto simp: BSIZE_def\<close>)
  then show ?thesis using assms True by (simp add: nblk_def)
next
  case False
  let ?m = "BSIZE - off mod BSIZE"
  have "off + ?m = (off div BSIZE + 1) * BSIZE"
    using div_mult_mod_eq [of off BSIZE] mod_BSIZE [of off] unfolding add_mult_distrib by linarith
  then have "(off + ?m) mod BSIZE = 0" by simp
  moreover have "off mod BSIZE + r + BSIZE - 1 = (r - ?m + BSIZE - 1) + BSIZE"
    using False by (simp add: BSIZE_def)
  then have "(off mod BSIZE + r + BSIZE - 1) div BSIZE = Suc ((r - ?m + BSIZE - 1) div BSIZE)"
    by (simp add: BSIZE_def)
  ultimately show ?thesis using False by (simp add: nblk_def)
qed

lemma wrote_at_nil:
  assumes "fsready d lz sb s" "fwf sb lz (blk s d) x" "x = inodes s ! ip"
  shows "wrote_at d lz sb ip x n off [] s x s"
proof -
  have "fstep d [] ((inodes s)[ip := x]) s s" using fstep_lstep [OF lstep_refl, of d s] assms(3) by simp
  then show ?thesis using assms grown_refl unfolding wrote_at_def by (auto simp: fsready_def)
qed

lemma wrote_at_trans:
  assumes "wrote_at d lz sb ip x n off ys s x1 s1" "wrote_at d lz sb ip x1 k (off + length ys) zs s1 x2 s2"
  shows "wrote_at d lz sb ip x (n + k) off (ys @ zs) s x2 s2"
proof -
  note 1 = wrote_atD [OF assms(1)] and 2 = wrote_atD [OF assms(2)]
  obtain ws vs where st: "fstep d ws ((inodes s)[ip := x1]) s s1" "fstep d vs ((inodes s1)[ip := x2]) s1 s2"
    using 1(1) 2(1) by blast
  have "fstep d (ws @ vs) ((inodes s)[ip := x2]) s s2"
    using fstep_trans [OF st] fstepD(1) [OF st(1)] by simp
  moreover have "fbyte (blk s2 d) x2 p = (if off \<le> p \<and> p < off + length (ys @ zs) then (ys @ zs) ! (p - off) else fbyte (blk s d) x p)"
    if "p < MAXFILE * BSIZE" for p
    using 1(4) [OF that] 2(4) [OF that] by (auto simp: nth_append)
  moreover have "fblk (blk s2 d) x2 (p div BSIZE) \<noteq> 0"
    if "p < MAXFILE * BSIZE" "off \<le> p" "p < off + length (ys @ zs)" for p
    using 1(6) [OF that(1,2)] 2(5) [OF div_BSIZE [OF that(1)]] 2(6) [OF that(1)] that(3)
    by (cases "p < off + length ys") auto
  ultimately show ?thesis
    unfolding wrote_at_def using 2(2,5) 1(5) grown_trans [OF 1(3) 2(3)] by blast
qed

lemma writei_loop_ok:
  assumes "tx d lz (k + 7 * nblk off r) s" "fsready d lz sb s"
    and "x = inodes s ! ip" "ip < length (inodes s)" "i_dev x = d" "fwf sb lz (blk s d) x"
    and "off + r \<le> MAXFILE * BSIZE" "2 * nblk off r \<le> nfree sb (blk s d)" "r \<le> length src"
  shows "\<exists>x' s'. writei_loop ip off r src s = Inr ((True, off + r), s') \<and> tx d lz k s'
    \<and> wrote_at d lz sb ip x (2 * nblk off r) off (take r src) s x' s'"
  using assms
proof (induction r arbitrary: off src s x rule: less_induct)
  case (less r)
  show ?case
  proof (cases "r = 0")
    case True
    then show ?thesis
      using less.prems(1) wrote_at_nil [OF less.prems(2,6,3)] by (simp add: writei_loop.simps nblk_def) blast
  next
    case False
    let ?m = "min r (BSIZE - off mod BSIZE)"
    let ?n = "nblk (off + ?m) (r - ?m)"
    have nb: "nblk off r = Suc ?n" by (rule nblk_step) (use False in simp)
    have m: "0 < ?m" "off mod BSIZE + ?m \<le> BSIZE" "?m \<le> r" using False mod_BSIZE [of off] by linarith+
    have ys: "length (take ?m src) = ?m" using less.prems(9) m(3) by simp
    have bn: "off div BSIZE < MAXFILE" using less.prems(7) False by (intro div_BSIZE) simp
    have t: "tx d lz (k + 7 * ?n + 7) s" using less.prems(1) by (simp add: nb algebra_simps)
    have n2: "2 \<le> nfree sb (blk s d)" using less.prems(8) by (simp add: nb)
    have y0: "0 < length (take ?m src)" "off mod BSIZE + length (take ?m src) \<le> BSIZE" using ys m by simp_all
    from writei_block [OF t less.prems(2-6) bn n2 y0] obtain b s1 bp s2 s3 s4 x4 where
      w: "bmap ip (off div BSIZE) s = Inr (b, s1)" "\<not> s32 b < 0" "bread (i_dev (inodes s1 ! ip)) b s1 = Inr (bp, s2)"
        "log_write bp (set_data bp (patch (off mod BSIZE) (take ?m src) (b_data (bufs s2 ! bp))) s2) = Inr ((), s3)"
        "brelse bp s3 = Inr ((), s4)" "tx d lz (k + 7 * ?n) s4"
        "wrote_at d lz sb ip x 2 off (take ?m src) s x4 s4" by blast
    note W = wrote_atD [OF w(7)]
    note g = grownD [OF W(3)]
    obtain ws where st: "fstep d ws ((inodes s)[ip := x4]) s s4" using W(1) by blast
    have i4: "x4 = inodes s4 ! ip" "ip < length (inodes s4)" "i_dev x4 = d"
      using fstepD(1) [OF st] less.prems(3-5) arg_cong [OF g(3), of i_dev] by simp_all
    have lt: "r - ?m < r" using m by simp
    have q: "off + ?m + (r - ?m) \<le> MAXFILE * BSIZE" "2 * ?n \<le> nfree sb (blk s4 d)" "r - ?m \<le> length (drop ?m src)"
      using less.prems(7-9) g(5) m(3) by (simp_all add: nb diff_le_mono)
    from less.IH [OF lt w(6) W(2) i4 g(1) q] obtain x5 s5 where
      v: "writei_loop ip (off + ?m) (r - ?m) (drop ?m src) s4 = Inr ((True, off + ?m + (r - ?m)), s5)" "tx d lz k s5"
        "wrote_at d lz sb ip x4 (2 * ?n) (off + ?m) (take (r - ?m) (drop ?m src)) s4 x5 s5" by blast
    have tk: "take ?m src @ take (r - ?m) (drop ?m src) = take r src"
      using take_add [of ?m "r - ?m" src] m(3) by simp
    have "writei_loop ip off r src s = Inr ((True, off + r), s5)"
      using False w(1-5) v(1) m(3) by (subst writei_loop.simps) (simp add: Let_def)
    moreover have "wrote_at d lz sb ip x (2 * nblk off r) off (take r src) s x5 s5"
      using wrote_at_trans [OF w(7), unfolded ys, OF v(3)] unfolding tk nb by simp
    ultimately show ?thesis using v(2) by blast
  qed
qed

section \<open>Reading\<close>

lemma bmap_mapped:
  assumes r: "rd d s" and x: "x = inodes s ! ip" "i_dev x = d" and bn: "bn < MAXFILE"
    and a: "i_addrs x ! (bn div NINDIRECT) \<noteq> 0" "i_addrs x ! (bn div NINDIRECT) < FSSIZE"
      "(d, i_addrs x ! (bn div NINDIRECT)) \<notin> held s" and f: "fblk (blk s d) x bn \<noteq> 0"
  shows "\<exists>s'. bmap ip bn s = Inr (fblk (blk s d) x bn, s') \<and> lstep d [] s s' \<and> rd d s'"
proof -
  let ?a = "i_addrs x ! (bn div NINDIRECT)"
  from rd_read [OF r a(2,3)] obtain i s1 s2 where
    1: "bread d ?a s = Inr (i, s1)" "b_data (bufs s1 ! i) = blk s d ?a" "brelse i s1 = Inr ((), s2)"
      "lstep d [] s s2" "rd d s2" by blast
  have fb: "fblk (blk s d) x bn = id_get (bn mod NINDIRECT) (blk s d ?a)" using a(1) by (simp add: fblk_def)
  then have "bmap ip bn s = Inr (fblk (blk s d) x bn, s2)"
    using 1(1-3) bn x a(1) f
    by (simp add: bmap_def bmap_g_def offset2real_def bmap_indirect_def bmap_entry_def Let_def)
  then show ?thesis using 1(4,5) by blast
qed

text \<open>All bytes up to \<open>n\<close> are in blocks of the file that can be read.\<close>

definition readable :: "nat \<Rightarrow> 'a dst_scheme \<Rightarrow> inode \<Rightarrow> nat \<Rightarrow> bool" where
  "readable d s x n \<longleftrightarrow> (\<forall>k. k * BSIZE < n \<longrightarrow> k < MAXFILE \<and> i_addrs x ! (k div NINDIRECT) \<noteq> 0
     \<and> i_addrs x ! (k div NINDIRECT) < FSSIZE \<and> (d, i_addrs x ! (k div NINDIRECT)) \<notin> held s
     \<and> fblk (blk s d) x k \<noteq> 0 \<and> fblk (blk s d) x k < FSSIZE \<and> (d, fblk (blk s d) x k) \<notin> held s)"

lemma slice_fbyte:
  assumes "length (m (fblk m x (off div BSIZE))) = BSIZE" "fblk m x (off div BSIZE) \<noteq> 0" "off mod BSIZE + n \<le> BSIZE"
  shows "slice (off mod BSIZE) n (m (fblk m x (off div BSIZE))) = map (fbyte m x) [off..<off + n]"
proof (rule nth_equalityI)
  show "length (slice (off mod BSIZE) n (m (fblk m x (off div BSIZE)))) = length (map (fbyte m x) [off..<off + n])"
    using assms(1,3) by simp
  fix i assume "i < length (slice (off mod BSIZE) n (m (fblk m x (off div BSIZE))))"
  then have i: "i < n" using assms(1,3) by simp
  have q: "(off + i) div BSIZE = off div BSIZE" by (rule block_range [of _ _ n]) (use i assms(3) in simp_all)
  then have "(off + i) mod BSIZE = off mod BSIZE + i" using block_offset(3) [OF q] block_offset(1) [OF q] by simp
  then show "slice (off mod BSIZE) n (m (fblk m x (off div BSIZE))) ! i = map (fbyte m x) [off..<off + n] ! i"
    using i assms q by (simp add: nth_slice fbyte_def)
qed

lemma readi_loop_ok:
  assumes "rd d s" "x = inodes s ! ip" "i_dev x = d" "readable d s x (off + r)"
  shows "\<exists>s'. readi_loop ip off r acc s = Inr (acc @ map (fbyte (blk s d) x) [off..<off + r], s') \<and> lstep d [] s s' \<and> rd d s'"
  using assms
proof (induction r arbitrary: off acc s rule: less_induct)
  case (less r)
  show ?case
  proof (cases "r = 0")
    case True
    then show ?thesis using less.prems(1) lstep_refl by (simp add: readi_loop.simps) blast
  next
    case False
    let ?m = "min r (BSIZE - off mod BSIZE)" and ?k = "off div BSIZE"
    let ?b = "fblk (blk s d) x ?k"
    have m: "0 < ?m" "off mod BSIZE + ?m \<le> BSIZE" "?m \<le> r" using False mod_BSIZE [of off] by linarith+
    have "?k * BSIZE < off + r" using False div_times_less_eq_dividend [of off BSIZE] by linarith
    then have k: "?k < MAXFILE" "i_addrs x ! (?k div NINDIRECT) \<noteq> 0" "i_addrs x ! (?k div NINDIRECT) < FSSIZE"
      "(d, i_addrs x ! (?k div NINDIRECT)) \<notin> held s" "?b \<noteq> 0" "?b < FSSIZE" "(d, ?b) \<notin> held s"
      using less.prems(4) unfolding readable_def by blast+
    from bmap_mapped [OF less.prems(1-3) k(1-5)] obtain s1 where
      1: "bmap ip ?k s = Inr (?b, s1)" "lstep d [] s s1" "rd d s1" by blast
    have e1: "blk s1 = blk s" "held s1 = held s" "inodes s1 = inodes s"
      using lstepD(4,5) [OF 1(2)] lstep_inodes(1) [OF 1(2)] by auto
    from rd_read [OF 1(3) k(6)] k(7) e1 obtain bp s2 s3 where
      2: "bread d ?b s1 = Inr (bp, s2)" "b_data (bufs s2 ! bp) = blk s d ?b" "brelse bp s2 = Inr ((), s3)"
        "lstep d [] s1 s3" "rd d s3" by auto
    have st: "lstep d [] s s3" using lstep_trans [OF 1(2) 2(4)] by simp
    have e3: "blk s3 = blk s" "held s3 = held s" "inodes s3 = inodes s"
      using lstepD(4,5) [OF st] lstep_inodes(1) [OF st] by auto
    have lb: "length (blk s d ?b) = BSIZE" using less.prems(1) by (intro length_blk) (simp add: rd_def)
    have lt: "r - ?m < r" using m by simp
    have q: "x = inodes s3 ! ip" "readable d s3 x (off + ?m + (r - ?m))"
      using less.prems(2,4) e3 m(3) by (simp_all add: readable_def)
    let ?acc = "acc @ slice (off mod BSIZE) ?m (blk s d ?b)"
    from less.IH [OF lt 2(5) q(1) less.prems(3) q(2), of ?acc] obtain s4 where
      3: "readi_loop ip (off + ?m) (r - ?m) ?acc s3
        = Inr (?acc @ map (fbyte (blk s d) x) [off + ?m..<off + ?m + (r - ?m)], s4)" "lstep d [] s3 s4" "rd d s4"
      using e3(1) by auto
    have ap: "map (fbyte (blk s d) x) [off..<off + ?m] @ map (fbyte (blk s d) x) [off + ?m..<off + ?m + (r - ?m)]
      = map (fbyte (blk s d) x) [off..<off + r]"
      using upt_add_eq_append [of off "off + ?m" "r - ?m"] m(3) by simp
    have "readi_loop ip off r acc s = Inr (acc @ map (fbyte (blk s d) x) [off..<off + r], s4)"
      using False 1(1) 2(1-3) 3(1) e1(3) less.prems(2,3) slice_fbyte [OF lb k(5) m(2)] ap
      by (subst readi_loop.simps) (simp add: Let_def)
    then show ?thesis using lstep_trans [OF st 3(2)] 3(3) by auto
  qed
qed

lemma s32_small: "n < 2 ^ 31 \<Longrightarrow> s32 n = int n"
  by (simp add: s32_def)

lemma MAXSIZE: "MAXFILE * BSIZE = 786432"
  by (simp add: MAXFILE_def NINDIRECT_def BSIZE_def)

lemma readable_mono: "readable d s x n \<Longrightarrow> k \<le> n \<Longrightarrow> readable d s x k"
  by (auto simp: readable_def)

lemma readi_ok:
  assumes r: "rd d s" and x: "x = inodes s ! ip" "i_dev x = d" "i_type x \<noteq> T_DEV" "i_size x \<le> MAXFILE * BSIZE"
    and a: "readable d s x (i_size x)" and o: "off < 2 ^ 32" "n < 2 ^ 32"
  shows "\<exists>s'. readi devsw ip off n s = Inr (if off > i_size x \<or> 2 ^ 32 \<le> off + n then (-1, [])
      else (int (min n (i_size x - off)), map (fbyte (blk s d) x) [off..<off + min n (i_size x - off)]), s')
    \<and> lstep d [] s s' \<and> rd d s'"
proof (cases "off > i_size x \<or> 2 ^ 32 \<le> off + n")
  case True
  then have "off > i_size x \<or> u32add off n < off" using u32add_less_iff [of off n] o by auto
  then have "readi devsw ip off n s = Inr ((-1, []), s)" using x(1,3) by (simp add: readi_def Let_def)
  then show ?thesis using True r lstep_refl by simp
next
  case False
  let ?k = "min n (i_size x - off)"
  have u: "u32add off n = off + n" "\<not> u32add off n < off" using False u32add_less_iff [of off n] o by (auto simp: u32add_def)
  have k: "(if u32add off n > i_size x then i_size x - off else n) = ?k" using False u(1) by auto
  have "off + ?k \<le> i_size x" using False by linarith
  then obtain s' where s': "readi_loop ip off ?k [] s = Inr (map (fbyte (blk s d) x) [off..<off + ?k], s')" "lstep d [] s s'" "rd d s'"
    using readi_loop_ok [OF r x(1,2) readable_mono [OF a], of off ?k "[]"] by auto
  have "?k < 2 ^ 31" using x(4) MAXSIZE by simp
  then have "s32 ?k = int ?k" by (rule s32_small)
  moreover have "readi devsw ip off n s = bnd (readi_loop ip off ?k [] s) (\<lambda>(bs, s). Inr ((s32 ?k, bs), s))"
    unfolding readi_def Let_def x(1) [symmetric] k using False u(2) x(3) by simp
  ultimately have "readi devsw ip off n s = Inr ((int ?k, map (fbyte (blk s d) x) [off..<off + ?k]), s')"
    unfolding s'(1) by (simp only: bnd_Inr prod.case)
  then show ?thesis using False s'(2,3) by (intro exI [of _ s']) simp
qed


section \<open>Write and read back\<close>

definition fs_geom :: "superblock \<Rightarrow> (nat \<Rightarrow> bool) \<Rightarrow> bool" where
  "fs_geom sb lz \<longleftrightarrow> i_geom sb lz \<and> (\<forall>i < sb_ninodes sb. \<forall>b < sb_size sb. IBLOCK i sb \<noteq> BBLOCK b sb)"

text \<open>Writing an inode block leaves the files alone.\<close>

lemma inode_block_grown:
  assumes "fwf sb lz m x" "fs_marked sb lz m" "fs_geom sb lz" "i < sb_ninodes sb" "x' = x\<lparr>i_size := n\<rparr>"
  shows "fwf sb lz (m(IBLOCK i sb := y)) x'" "fs_marked sb lz (m(IBLOCK i sb := y))"
    "j < MAXFILE \<Longrightarrow> fblk (m(IBLOCK i sb := y)) x' j = fblk m x j"
    "p < MAXFILE * BSIZE \<Longrightarrow> fbyte (m(IBLOCK i sb := y)) x' p = fbyte m x p"
    "\<And>b. datab sb lz m b \<Longrightarrow> (m(IBLOCK i sb := y)) b = m b"
proof -
  let ?m = "m(IBLOCK i sb := y)"
  note F = fwfD [OF assms(1)]
  have u: "used sb ?m b = used sb m b" if "b < sb_size sb" for b
  proof -
    have "IBLOCK i sb \<noteq> BBLOCK b sb" using assms(3,4) that unfolding fs_geom_def by blast
    then show ?thesis by (auto simp: used_def)
  qed
  show d: "?m b = m b" if "datab sb lz m b" for b using that assms(4) by (auto simp: datab_def meta_def)
  have a: "?m (i_addrs x ! j) = m (i_addrs x ! j)" if "j < NDIRECT" "i_addrs x ! j \<noteq> 0" for j by (rule d [OF F(2) [OF that]])
  have ad: "i_addrs x' = i_addrs x" using assms(5) by simp
  show "fwf sb lz ?m x'" by (rule fwf_cong(1) [OF assms(1) ad]) (use a u in auto)
  show fb: "fblk ?m x' j = fblk m x j" if "j < MAXFILE" for j
    by (rule fwf_cong(2) [OF assms(1) ad]) (use a u that in auto)
  show "fs_marked sb lz ?m" using assms(2) u by (simp add: fs_marked_def)
  show "fbyte ?m x' p = fbyte m x p" if "p < MAXFILE * BSIZE" for p
    using fb [OF div_BSIZE [OF that]] d [OF F(3) [OF div_BSIZE [OF that]]] by (simp add: fbyte_def Let_def)
qed

text \<open>The whole file.\<close>

definition fcontents :: "(nat \<Rightarrow> bytes) \<Rightarrow> inode \<Rightarrow> bytes" where
  "fcontents m x = map (fbyte m x) [0..<i_size x]"

definition fallocated :: "(nat \<Rightarrow> bytes) \<Rightarrow> inode \<Rightarrow> bool" where
  "fallocated m x \<longleftrightarrow> (\<forall>p < i_size x. fblk m x (p div BSIZE) \<noteq> 0)"

lemma fcontents_patch:
  assumes "\<And>p. p < n \<Longrightarrow> fbyte m' x' p = (if off \<le> p \<and> p < off + length ys then ys ! (p - off) else fbyte m x p)"
    and "off \<le> i_size x" "i_size x' = max (i_size x) (off + length ys)" "i_size x' \<le> n"
  shows "fcontents m' x' = patch off ys (fcontents m x)"
proof (rule nth_equalityI)
  show "length (fcontents m' x') = length (patch off ys (fcontents m x))"
    using assms(2,3) by (simp add: fcontents_def patch_def)
  fix p assume "p < length (fcontents m' x')"
  then have p: "p < i_size x'" by (simp add: fcontents_def)
  then show "fcontents m' x' ! p = patch off ys (fcontents m x) ! p"
    using assms(1) [of p] assms(2-4) by (auto simp: fcontents_def patch_def nth_append)
qed

lemma fallocated_readable:
  assumes "fallocated m x" "fwf sb lz m x" "fsready d lz sb s" "m = blk s d" "i_size x \<le> MAXFILE * BSIZE"
  shows "readable d s x (i_size x)"
  unfolding readable_def
proof (intro allI impI)
  fix k assume k: "k * BSIZE < i_size x"
  have "k * BSIZE div BSIZE = k" by (simp add: BSIZE_def)
  then have nz: "fblk (blk s d) x k \<noteq> 0" using assms(1,4) k unfolding fallocated_def by metis
  have kM: "k < MAXFILE" using k assms(5) by (simp add: MAXFILE_def NINDIRECT_def BSIZE_def)
  have ad: "i_addrs x ! (k div NINDIRECT) \<noteq> 0" using nz by (auto simp: fblk_def Let_def split: if_splits)
  have "datab sb lz m (i_addrs x ! (k div NINDIRECT))" by (rule fwfD(2) [OF assms(2) div_NINDIRECT [OF kM] ad])
  moreover have "sb_size sb \<le> FSSIZE" "\<And>b. (d, b) \<notin> held s" using assms(3) by (auto simp: fsready_def bm_geom_def)
  ultimately show "k < MAXFILE \<and> i_addrs x ! (k div NINDIRECT) \<noteq> 0
     \<and> i_addrs x ! (k div NINDIRECT) < FSSIZE \<and> (d, i_addrs x ! (k div NINDIRECT)) \<notin> held s
     \<and> fblk (blk s d) x k \<noteq> 0 \<and> fblk (blk s d) x k < FSSIZE \<and> (d, fblk (blk s d) x k) \<notin> held s"
    using kM ad nz fwf_block(1) [OF assms(3) assms(2) [unfolded assms(4)] kM nz] by (auto simp: datab_def)
qed

definition writei_post :: "nat \<Rightarrow> (nat \<Rightarrow> bool) \<Rightarrow> superblock \<Rightarrow> nat \<Rightarrow> inode \<Rightarrow> nat \<Rightarrow> bytes \<Rightarrow> 'a fsst_scheme
    \<Rightarrow> inode \<Rightarrow> 'a fsst_scheme \<Rightarrow> bool" where
  "writei_post d lz sb ip x off src s x1 s1 \<longleftrightarrow> inodes s1 = (inodes s)[ip := x1]
     \<and> x1 = x\<lparr>i_addrs := i_addrs x1, i_size := i_size x1\<rparr> \<and> i_size x1 = max (i_size x) (off + length src)
     \<and> fwf sb lz (blk s1 d) x1 \<and> fallocated (blk s1 d) x1 \<and> fsready d lz sb s1
     \<and> fcontents (blk s1 d) x1 = patch off src (fcontents (blk s d) x)
     \<and> (\<forall>b. datab sb lz (blk s d) b \<longrightarrow> \<not> own (blk s d) x b \<longrightarrow> blk s1 d b = blk s d b)"

lemma writei_alloc:
  assumes w: "wrote_at d lz sb ip x n off src s x' s'" and a: "fallocated (blk s d) x" and sz: "off \<le> i_size x"
    "i_size x \<le> MAXFILE * BSIZE" "off + length src \<le> MAXFILE * BSIZE"
    and p: "p < max (i_size x) (off + length src)"
  shows "fblk (blk s' d) x' (p div BSIZE) \<noteq> 0"
proof -
  have pM: "p < MAXFILE * BSIZE" using p sz by linarith
  note W = wrote_atD [OF w]
  show ?thesis
  proof (cases "p < i_size x")
    case True
    then show ?thesis using W(5) [OF div_BSIZE [OF pM]] a by (simp add: fallocated_def)
  next
    case False
    then show ?thesis using W(6) [OF pM] p sz(1) by linarith
  qed
qed

lemma writei_ok:
  assumes t: "tx d lz (Suc (k + 7 * nblk off (length src))) s" and R: "fsready d lz sb s" and g: "fs_geom sb lz"
    and x: "x = inodes s ! ip" "ip < length (inodes s)" "i_dev x = d" "i_type x \<noteq> T_DEV" "i_inum x < sb_ninodes sb"
    and f: "fwf sb lz (blk s d) x" "fallocated (blk s d) x"
    and sz: "off \<le> i_size x" "i_size x \<le> MAXFILE * BSIZE" "off + length src \<le> MAXFILE * BSIZE"
    and n: "2 * nblk off (length src) \<le> nfree sb (blk s d)"
  shows "\<exists>x1 s1. writei devsw ip src off (length src) s = Inr (int (length src), s1) \<and> tx d lz k s1
    \<and> writei_post d lz sb ip x off src s x1 s1"
proof -
  let ?n = "length src" and ?m = "blk s d"
  have t1: "tx d lz (Suc k + 7 * nblk off ?n) s" using t by simp
  from writei_loop_ok [OF t1 R x(1-3) f(1) sz(3) n order_refl] obtain x' s' where
    w: "writei_loop ip off ?n src s = Inr ((True, off + ?n), s')" "tx d lz (Suc k) s'"
      "wrote_at d lz sb ip x (2 * nblk off ?n) off src s x' s'" by auto
  note W = wrote_atD [OF w(3)]
  note G = grownD [OF W(3)]
  obtain ws where st: "fstep d ws ((inodes s)[ip := x']) s s'" using W(1) by blast
  have i': "inodes s' ! ip = x'" "ip < length (inodes s')" using fstepD(1) [OF st] x(2) by simp_all
  have fx: "i_size x' = i_size x" "i_dev x' = d" "i_inum x' = i_inum x" "i_type x' = i_type x"
    using x(3) arg_cong [OF G(3), of i_size] arg_cong [OF G(3), of i_dev] arg_cong [OF G(3), of i_inum]
      arg_cong [OF G(3), of i_type] by simp_all
  have u: "u32add off ?n = off + ?n" using sz(3) MAXSIZE by simp
  have s32: "s32 ?n = int ?n" by (rule s32_small) (use sz(3) MAXSIZE in simp)
  have lr: "?n \<noteq> 2 ^ 32 - 2" using sz(3) MAXSIZE by simp
  have wr: "writei devsw ip src off ?n s = bnd (if 0 < ?n \<and> off + ?n > i_size x
        then iupdate ip (upd_inode ip (\<lambda>x. x\<lparr>i_size := off + ?n\<rparr>) s') else Inr ((), s')) (\<lambda>(_, s). Inr (int ?n, s))"
    using x(1,4) sz w(1) u lr s32 i' fx by (simp add: writei_def Let_def)
  have al: "fblk (blk s' d) x' (p div BSIZE) \<noteq> 0" if "p < max (i_size x) (off + ?n)" for p
    by (rule writei_alloc [OF w(3) f(2) sz that])
  show ?thesis
  proof (cases "off + ?n > i_size x")
    case False
    have mx: "max (i_size x) (off + ?n) = i_size x" using False by simp
    have "fcontents (blk s' d) x' = patch off src (fcontents ?m x)"
      by (rule fcontents_patch [of "MAXFILE * BSIZE"]) (use W(4) sz fx mx in simp_all)
    moreover have "x' = x\<lparr>i_addrs := i_addrs x', i_size := i_size x'\<rparr>"
      by (subst G(3), rule inode.equality) (simp_all add: fx(1))
    ultimately have "writei_post d lz sb ip x off src s x' s'"
      unfolding writei_post_def using fstepD(1) [OF st] G(1,6) W(2) al fx mx by (simp add: fallocated_def)
    then show ?thesis using wr False tx_less [OF w(2), of k] by (intro exI [of _ x'] exI [of _ s']) simp
  next
    case True
    let ?x = "x'\<lparr>i_size := off + ?n\<rparr>" and ?s = "upd_inode ip (\<lambda>x. x\<lparr>i_size := off + ?n\<rparr>) s'"
    let ?B = "IBLOCK (i_inum x) sb"
    have n0: "0 < ?n" using True sz(1) by linarith
    have t2: "tx d lz (Suc k) ?s" using w(2) by simp
    have p: "?x = inodes ?s ! ip" "i_dev ?x = d" "length (i_addrs ?x) = NDIRECT" "getsuperblock d ?s = Some sb"
      "i_geom sb lz" "i_inum ?x < sb_ninodes sb" "(d, IBLOCK (i_inum ?x) sb) \<notin> held ?s"
      using i' fx fwfD(1) [OF G(1)] W(2) g x(5) by (simp_all add: fsready_def fs_geom_def)
    from iupdate_ok [OF t2 p] fx(3) obtain s1 y where
      v: "iupdate ip ?s = Inr ((), s1)" "tx d lz k s1" "lstep d [(?B, y)] ?s s1" by auto
    have m1: "blk s1 d = (blk s' d)(?B := y)" using lstepD(4) [OF v(3)] by simp
    note I = inode_block_grown [OF G(1,2) g x(5) refl [of ?x], where y = y, folded m1]
    have i1: "inodes s1 = (inodes s)[ip := ?x]" using lstep_inodes(1) [OF v(3)] fstepD(1) [OF st] x(2) by simp
    have R1: "fsready d lz sb s1"
      using W(2) I(2) lstep_superblock [OF v(3)] lstepD(5) [OF v(3)] txD(3) [OF t2] by (simp add: fsready_def)
    have mx: "max (i_size x) (off + ?n) = off + ?n" using True by simp
    have "fcontents (blk s1 d) ?x = patch off src (fcontents ?m x)"
      by (rule fcontents_patch [of "MAXFILE * BSIZE"]) (use W(4) I(4) sz mx in simp_all)
    moreover have "?x = x\<lparr>i_addrs := i_addrs ?x, i_size := i_size ?x\<rparr>" using arg_cong [OF G(3), of "i_size_update (\<lambda>_. off + ?n)"] by simp
    moreover have "fallocated (blk s1 d) ?x"
      unfolding fallocated_def
    proof (intro allI impI)
      fix q assume "q < i_size ?x"
      then have q: "q < max (i_size x) (off + ?n)" "q < MAXFILE * BSIZE" using mx sz(3) by simp_all
      show "fblk (blk s1 d) ?x (q div BSIZE) \<noteq> 0" using al [OF q(1)] I(3) [OF div_BSIZE [OF q(2)]] by simp
    qed
    moreover have "blk s1 d b = ?m b" if "datab sb lz ?m b" "\<not> own ?m x b" for b
      using I(5) [OF G(8) [OF that(1)]] G(6) [OF that] by simp
    ultimately have "writei_post d lz sb ip x off src s ?x s1"
      unfolding writei_post_def using i1 I(1) R1 mx by simp
    then show ?thesis using wr True n0 v(1,2) by (intro exI [of _ ?x] exI [of _ s1]) simp
  qed
qed

text \<open>
  C3. What \<^verbatim>\<open>writei\<close> writes, \<^verbatim>\<open>readi\<close> reads. In a transaction with room for it and with enough free blocks, writing
  bytes at an offset inside a file or at its end, inside the maximal file size, returns their number; the file is then
  its old contents with these bytes patched in (and longer if they reach beyond the old end), its
  size and block map are consistent, the blocks of every other file are unchanged, and \<^verbatim>\<open>readi\<close> of the whole file returns exactly these contents.
\<close>

theorem writei_readi_roundtrip:
  assumes t: "tx d lz (Suc (k + 7 * nblk off (length src))) s" and R: "fsready d lz sb s" and g: "fs_geom sb lz"
    and x: "x = inodes s ! ip" "ip < length (inodes s)" "i_dev x = d" "i_type x \<noteq> T_DEV" "i_inum x < sb_ninodes sb"
    and f: "fwf sb lz (blk s d) x" "fallocated (blk s d) x"
    and sz: "off \<le> i_size x" "i_size x \<le> MAXFILE * BSIZE" "off + length src \<le> MAXFILE * BSIZE"
    and n: "2 * nblk off (length src) \<le> nfree sb (blk s d)"
  shows "\<exists>x1 s1 s2. writei devsw ip src off (length src) s = Inr (int (length src), s1)
    \<and> inodes s1 = (inodes s)[ip := x1] \<and> i_size x1 = max (i_size x) (off + length src)
    \<and> fcontents (blk s1 d) x1 = patch off src (fcontents (blk s d) x)
    \<and> fwf sb lz (blk s1 d) x1 \<and> fallocated (blk s1 d) x1
    \<and> (\<forall>b. datab sb lz (blk s d) b \<longrightarrow> \<not> own (blk s d) x b \<longrightarrow> blk s1 d b = blk s d b)
    \<and> readi devsw ip 0 (i_size x1) s1 = Inr ((int (i_size x1), patch off src (fcontents (blk s d) x)), s2)"
proof -
  from writei_ok [OF t R g x f sz n] obtain x1 s1 where
    w: "writei devsw ip src off (length src) s = Inr (int (length src), s1)" "tx d lz k s1"
      "writei_post d lz sb ip x off src s x1 s1" by blast
  have p: "inodes s1 = (inodes s)[ip := x1]" "x1 = x\<lparr>i_addrs := i_addrs x1, i_size := i_size x1\<rparr>"
    "i_size x1 = max (i_size x) (off + length src)"
    "fwf sb lz (blk s1 d) x1" "fallocated (blk s1 d) x1" "fsready d lz sb s1"
    "fcontents (blk s1 d) x1 = patch off src (fcontents (blk s d) x)"
    "\<forall>b. datab sb lz (blk s d) b \<longrightarrow> \<not> own (blk s d) x b \<longrightarrow> blk s1 d b = blk s d b"
    using w(3) unfolding writei_post_def by blast+
  have sM: "i_size x1 \<le> MAXFILE * BSIZE" using p(3) sz by simp
  have x1: "x1 = inodes s1 ! ip" "i_dev x1 = d" "i_type x1 \<noteq> T_DEV"
    using p(1) x arg_cong [OF p(2), of i_dev] arg_cong [OF p(2), of i_type] by simp_all
  have "\<exists>s2. readi devsw ip 0 (i_size x1) s1 = Inr ((int (i_size x1), map (fbyte (blk s1 d) x1) [0..<i_size x1]), s2)"
    using readi_ok [OF tx_rd [OF w(2)] x1 sM fallocated_readable [OF p(5,4,6) refl sM], of 0 "i_size x1" devsw] sM MAXSIZE by auto
  then show ?thesis using w(1) p by (auto simp: fcontents_def)
qed

text \<open>An empty file of the example disk.\<close>

definition file1 :: inode where
  "file1 = zero_inode\<lparr>i_inum := 3, i_type := 2, i_ref := 1, i_valid := True, i_nlink := 1\<rparr>"

lemma file1_ok:
  "fsready 0 zone0 sb1 (fs_on img1 [file1])" "fs_geom sb1 zone0" "fwf sb1 zone0 img1 file1" "fallocated img1 file1"
  "nfree sb1 img1 = 44"
proof -
  note f = fs_on_ok [of img1 "[file1]", OF img1_ok(1,2)]
  have m: "meta sb1 b \<Longrightarrow> b < 56" for b
    by (auto simp: meta_def sb1_def BBLOCK_def IBLOCK_def BPB_def IPB_def)
  have "fs_marked sb1 zone0 img1"
    using used1 [of img1, OF img1_ok(3)] m by (auto simp: fs_marked_def zone0_def) (auto simp: sb1_def)
  then show "fsready 0 zone0 sb1 (fs_on img1 [file1])" using f sb1_ok(1) by (simp add: fsready_def)
  show "fs_geom sb1 zone0"
    by (auto simp: fs_geom_def i_geom_def sb1_def IBLOCK_def BBLOCK_def IPB_def BPB_def FSSIZE_def zone0_def)
  have z: "i_addrs file1 ! i = 0" if "i < NDIRECT" for i using that by (simp add: file1_def zero_inode_def)
  then have "fblk img1 file1 k = 0" if "k < MAXFILE" for k using div_NINDIRECT [OF that] by (simp add: fblk_def)
  then show "fwf sb1 zone0 img1 file1" using z by (simp add: fwf_def) (simp add: file1_def zero_inode_def)
  show "fallocated img1 file1" by (simp add: fallocated_def file1_def zero_inode_def)
  have "{b. b < 100 \<and> \<not> used sb1 img1 b} = {56..<100}" using used1 [of img1, OF img1_ok(3)] by auto
  then show "nfree sb1 img1 = 44" by (simp add: nfree_def sb1_def)
qed

theorem writei_readi_roundtrip_witness:
  "\<exists>s1 s2. writei [] 0 (replicate 700 7) 0 700 (fs_on img1 [file1]) = Inr (700, s1)
     \<and> readi [] 0 0 700 s1 = Inr ((700, replicate 700 7), s2)"
proof -
  let ?s = "fs_on img1 [file1]" and ?src = "replicate 700 (7 :: u8)"
  note f = fs_on_ok [of img1 "[file1]", OF img1_ok(1,2)]
  have nb: "nblk 0 (length ?src) = 2" by (simp add: nblk_def BSIZE_def)
  have t: "tx 0 zone0 (Suc (13 + 7 * nblk 0 (length ?src))) ?s" unfolding nb using f(1) by simp
  have e: "fcontents (blk ?s 0) file1 = []" "i_size file1 = 0" by (simp_all add: fcontents_def file1_def zero_inode_def)
  have i: "file1 = inodes ?s ! 0" "0 < length (inodes ?s)" "i_dev file1 = 0" "i_type file1 \<noteq> T_DEV" "i_inum file1 < sb_ninodes sb1"
    by (simp_all add: file1_def zero_inode_def T_DEV_def sb1_def)
  have w: "fwf sb1 zone0 (blk ?s 0) file1" "fallocated (blk ?s 0) file1" "2 * nblk 0 (length ?src) \<le> nfree sb1 (blk ?s 0)"
    using file1_ok(3-5) unfolding f(3) nb by simp_all
  have z: "0 \<le> i_size file1" "i_size file1 \<le> MAXFILE * BSIZE" "0 + length ?src \<le> MAXFILE * BSIZE" using e(2) MAXSIZE by simp_all
  from writei_readi_roundtrip [OF t file1_ok(1,2) i w(1,2) z w(3), of "[]"] obtain x1 :: inode and s1 s2 where
    r: "writei [] 0 ?src 0 (length ?src) ?s = Inr (int (length ?src), s1)" "i_size x1 = max (i_size file1) (0 + length ?src)"
      "readi [] 0 0 (i_size x1) s1 = Inr ((int (i_size x1), patch 0 ?src (fcontents (blk ?s 0) file1)), s2)"
    by blast
  have "i_size x1 = 700" using r(2) e(2) by simp
  moreover have "patch 0 ?src (fcontents (blk ?s 0) file1) = ?src" unfolding e by (simp add: patch_def)
  ultimately show ?thesis using r(1,3) by (intro exI [of _ s1] exI [of _ s2]) simp
qed


end
