(* ===== verification/Dir.thy ===== *)
theory Dir
  imports FileData
begin

text \<open>
  Directories, path names and mounting (\<^verbatim>\<open>fs.c\<close>): the directory entry, \<^verbatim>\<open>dirlookup\<close> and \<^verbatim>\<open>dirlink\<close>,
  \<^verbatim>\<open>skipelem\<close>, \<^verbatim>\<open>namex\<close> and its four wrappers, \<^verbatim>\<open>imount\<close>, \<^verbatim>\<open>iunmount\<close> and \<^verbatim>\<open>fsinit\<close>. The lemmas of this
  theory read a directory as the list of its entries; a lookup and an insertion are then functions
  on that list.
\<close>

section \<open>Directories\<close>

definition DIRSIZ :: nat where "DIRSIZ = 14"

text \<open>\<^verbatim>\<open>struct dirent\<close>, 16 bytes.\<close>

definition de_inum :: "bytes \<Rightarrow> nat" where
  "de_inum e = unle16 (slice 0 2 e)"

definition de_name :: "bytes \<Rightarrow> bytes" where
  "de_name e = slice 2 DIRSIZ e"

definition de_make :: "bytes \<Rightarrow> nat \<Rightarrow> bytes" where
  "de_make name inum = le16 inum @ strncpy name DIRSIZ"

definition namecmp :: "bytes \<Rightarrow> bytes \<Rightarrow> int" where
  "namecmp s t = strncmp s t DIRSIZ"

text \<open>The offsets a loop over a directory visits, and the step of \<^verbatim>\<open>dirlookup\<close> at a matching entry.
  The result is the inode and the offset of the entry (\<^verbatim>\<open>*poff\<close>).\<close>

definition dir_offs :: "nat \<Rightarrow> nat list" where
  "dir_offs sz = map ((*) 16) [0..<(sz + 15) div 16]"

definition dir_found :: "nat \<Rightarrow> bytes \<Rightarrow> nat \<Rightarrow> 'a fsst_scheme \<Rightarrow> ('a fsst_scheme, (nat \<times> nat) option) outcome" where
  "dir_found dp de off s =
    (if namecmp (bytes_of ''..'') (de_name de) = 0 \<and> i_ismroot (inodes s ! dp)
     then case i_mountparent (inodes s ! dp) of
            None \<Rightarrow> Inl (Fault ''dirlookup: nil mountparent'')
          | Some p \<Rightarrow> bnd (iget (i_dev (inodes s ! p)) (i_inum (inodes s ! p)) s) (\<lambda>(ip, s). Inr (Some (ip, off), s))
     else bnd (iget (i_dev (inodes s ! dp)) (de_inum de) s) (\<lambda>(ip, s). Inr (Some (ip, off), s)))"

fun dirlookup_loop :: "'a fsst_scheme devsw list \<Rightarrow> nat \<Rightarrow> bytes \<Rightarrow> nat list \<Rightarrow> 'a fsst_scheme
    \<Rightarrow> ('a fsst_scheme, (nat \<times> nat) option) outcome" where
  "dirlookup_loop devsw dp name [] s = Inr (None, s)"
| "dirlookup_loop devsw dp name (off # offs) s = bnd (readi devsw dp off 16 s) (\<lambda>((n, de), s).
     if n \<noteq> 16 then Inl (Panic ''dirlink read'')
     else if de_inum de = 0 then dirlookup_loop devsw dp name offs s
     else if namecmp name (de_name de) = 0 then dir_found dp de off s
     else dirlookup_loop devsw dp name offs s)"

definition dirlookup :: "'a fsst_scheme devsw list \<Rightarrow> nat \<Rightarrow> bytes \<Rightarrow> 'a fsst_scheme
    \<Rightarrow> ('a fsst_scheme, (nat \<times> nat) option) outcome" where
  "dirlookup devsw dp name s =
    (if i_type (inodes s ! dp) \<noteq> T_DIR then Inl (Panic ''dirlookup not DIR'')
     else dirlookup_loop devsw dp name (dir_offs (i_size (inodes s ! dp))) s)"

text \<open>The search of \<^verbatim>\<open>dirlink\<close> for an empty entry: its offset, or the end of the directory.\<close>

fun dirlink_loop :: "'a fsst_scheme devsw list \<Rightarrow> nat \<Rightarrow> nat list \<Rightarrow> nat \<Rightarrow> 'a fsst_scheme \<Rightarrow> ('a fsst_scheme, nat) outcome" where
  "dirlink_loop devsw dp [] end s = Inr (end, s)"
| "dirlink_loop devsw dp (off # offs) end s = bnd (readi devsw dp off 16 s) (\<lambda>((n, de), s).
     if n \<noteq> 16 then Inl (Panic ''dirlink read'')
     else if de_inum de = 0 then Inr (off, s)
     else dirlink_loop devsw dp offs end s)"

definition dirlink :: "'a fsst_scheme devsw list \<Rightarrow> nat \<Rightarrow> bytes \<Rightarrow> nat \<Rightarrow> 'a fsst_scheme \<Rightarrow> ('a fsst_scheme, int) outcome" where
  "dirlink devsw dp name inum s = bnd (dirlookup devsw dp name s) (\<lambda>(r, s).
     case r of
       Some (ip, _) \<Rightarrow> bnd (iput ip s) (\<lambda>(_, s). Inr (-1, s))
     | None \<Rightarrow>
         let offs = dir_offs (i_size (inodes s ! dp)) in
         bnd (dirlink_loop devsw dp offs (16 * length offs) s) (\<lambda>(off, s).
         bnd (writei devsw dp (de_make name (inum mod 65536)) off 16 s) (\<lambda>(n, s).
           if n \<noteq> 16 then Inl (Panic ''dirlink'') else Inr (0, s))))"

section \<open>Paths\<close>

text \<open>A path is the bytes from a pointer on; it ends at a NUL or at the end of the list. \<open>name\<close> is the
  buffer of \<^verbatim>\<open>DIRSIZ\<close> bytes. The result is the rest of the path and the buffer.\<close>

definition slash :: u8 where "slash = 47"

definition skipelem :: "bytes \<Rightarrow> bytes \<Rightarrow> (bytes \<times> bytes) option" where
  "skipelem path name =
    (let path = dropWhile (\<lambda>c. c = slash) path in
     if hd0 path = 0 then None
     else let e = takeWhile (\<lambda>c. c \<noteq> slash \<and> c \<noteq> 0) path;
              rest = dropWhile (\<lambda>c. c \<noteq> slash \<and> c \<noteq> 0) path;
              name = (if length e \<ge> DIRSIZ then patch 0 (take DIRSIZ e) name
                      else patch 0 (e @ [0]) name) in
          Some (dropWhile (\<lambda>c. c = slash) rest, name))"

lemma skipelem_shorter: "skipelem path name = Some (rest, name') \<Longrightarrow> length rest < length path"
proof -
  assume a: "skipelem path name = Some (rest, name')"
  let ?p = "dropWhile (\<lambda>c. c = slash) path"
  have h: "hd0 ?p \<noteq> 0" using a by (auto simp: skipelem_def Let_def split: if_splits)
  then obtain c cs where p: "?p = c # cs" by (cases ?p) auto
  have c: "c \<noteq> slash \<and> c \<noteq> 0" using h p dropWhile_eq_Cons_conv [of "\<lambda>c. c = slash" path c cs] by simp
  have "rest = dropWhile (\<lambda>c. c = slash) (dropWhile (\<lambda>c. c \<noteq> slash \<and> c \<noteq> 0) (c # cs))"
    using a h p by (simp add: skipelem_def Let_def)
  also have "\<dots> = dropWhile (\<lambda>c. c = slash) (dropWhile (\<lambda>c. c \<noteq> slash \<and> c \<noteq> 0) cs)" using c by simp
  finally have "length rest \<le> length cs"
    by (simp add: le_trans [OF length_dropWhile_le length_dropWhile_le])
  then show ?thesis using length_dropWhile_le [of "\<lambda>c. c = slash" path] p by simp
qed

definition iunlockput1 :: "nat \<Rightarrow> bool \<Rightarrow> 'a fsst_scheme \<Rightarrow> ('a fsst_scheme, unit) outcome" where
  "iunlockput1 ip direct s = (if direct then iunlockput_direct ip s else iunlockput ip s)"

text \<open>The loop of \<^verbatim>\<open>namex\<close>. A nil \<open>ip\<close> (a process without a working directory) is dereferenced as soon
  as there is an element.\<close>

function namex_loop :: "'a fsst_scheme devsw list \<Rightarrow> nat option \<Rightarrow> bytes \<Rightarrow> bool \<Rightarrow> bytes \<Rightarrow> bool \<Rightarrow> 'a fsst_scheme
    \<Rightarrow> ('a fsst_scheme, nat option \<times> bytes) outcome" where
  "namex_loop devsw p path parent name direct s =
    (case skipelem path name of
       None \<Rightarrow>
         (if parent
          then case p of None \<Rightarrow> Inl (Fault ''namex: nil inode'')
            | Some ip \<Rightarrow> bnd (iput1 ip direct s) (\<lambda>(_, s). Inr ((None, name), s))
          else Inr ((p, name), s))
     | Some (path', name) \<Rightarrow>
         (case p of None \<Rightarrow> Inl (Fault ''namex: nil inode'')
          | Some ip \<Rightarrow>
              bnd (ilock (Some ip) s) (\<lambda>(_, s).
                if i_type (inodes s ! ip) \<noteq> T_DIR
                then bnd (iunlockput1 ip direct s) (\<lambda>(_, s). Inr ((None, name), s))
                else if parent \<and> hd0 path' = 0 then Inr ((Some ip, name), iunlock (Some ip) s)
                else bnd (dirlookup devsw ip name s) (\<lambda>(r, s).
                  case r of
                    None \<Rightarrow> bnd (iunlockput1 ip direct s) (\<lambda>(_, s). Inr ((None, name), s))
                  | Some (next, _) \<Rightarrow> bnd (iunlockput1 ip direct s) (\<lambda>(_, s).
                      namex_loop devsw (Some next) path' parent name direct s)))))"
  by pat_completeness auto
termination
  by (relation "measure (\<lambda>(devsw, p, path, parent, name, direct, s). length path)") (auto dest: skipelem_shorter)

declare namex_loop.simps [simp del]

definition namex_start :: "bytes \<Rightarrow> 'a fsst_scheme \<Rightarrow> nat option" where
  "namex_start path s = (case curproc s of
     None \<Rightarrow> rootdir s
   | Some _ \<Rightarrow> if hd0 path = slash then (if p_rootdir (cur s) = None then rootdir s else p_rootdir (cur s))
               else p_cwd (cur s))"

definition namex :: "'a fsst_scheme devsw list \<Rightarrow> bytes \<Rightarrow> bool \<Rightarrow> bytes \<Rightarrow> bool \<Rightarrow> 'a fsst_scheme
    \<Rightarrow> ('a fsst_scheme, nat option \<times> bytes) outcome" where
  "namex devsw path parent name direct s =
    (let (ip, s) = idup (namex_start path s) s in namex_loop devsw ip path parent name direct s)"

text \<open>\<^verbatim>\<open>namei\<close> and \<^verbatim>\<open>namei_direct\<close> use a buffer of their own; what it holds at first is \<open>junk\<close>.\<close>

definition namei :: "'a fsst_scheme devsw list \<Rightarrow> bytes \<Rightarrow> bytes \<Rightarrow> 'a fsst_scheme \<Rightarrow> ('a fsst_scheme, nat option) outcome" where
  "namei devsw junk path s = bnd (namex devsw path False junk False s) (\<lambda>((ip, _), s). Inr (ip, s))"

definition nameiparent :: "'a fsst_scheme devsw list \<Rightarrow> bytes \<Rightarrow> bytes \<Rightarrow> 'a fsst_scheme
    \<Rightarrow> ('a fsst_scheme, nat option \<times> bytes) outcome" where
  "nameiparent devsw path name s = namex devsw path True name False s"

definition namei_direct :: "'a fsst_scheme devsw list \<Rightarrow> bytes \<Rightarrow> bytes \<Rightarrow> 'a fsst_scheme \<Rightarrow> ('a fsst_scheme, nat option) outcome" where
  "namei_direct devsw junk path s = bnd (namex devsw path False junk True s) (\<lambda>((ip, _), s). Inr (ip, s))"

definition nameiparent_direct :: "'a fsst_scheme devsw list \<Rightarrow> bytes \<Rightarrow> bytes \<Rightarrow> 'a fsst_scheme
    \<Rightarrow> ('a fsst_scheme, nat option \<times> bytes) outcome" where
  "nameiparent_direct devsw path name s = namex devsw path True name True s"

section \<open>Mounting\<close>

definition imount0 :: "nat \<Rightarrow> nat \<Rightarrow> nat \<Rightarrow> 'a fsst_scheme \<Rightarrow> ('a fsst_scheme, unit) outcome" where
  "imount0 mroot mpoint parent s =
    bnd (ilock (Some mroot) s) (\<lambda>(_, s).
    bnd (if parent \<noteq> mroot then ilock (Some parent) s else Inr ((), s)) (\<lambda>(_, s).
    bnd (if mpoint \<noteq> mroot then ilock (Some mpoint) s else Inr ((), s)) (\<lambda>(_, s).
      let s = iref (Some mroot) (iref (Some mpoint) (iref (Some parent) s));
          s = upd_inode mpoint (\<lambda>x. x\<lparr>i_ismpoint := True\<rparr>) s;
          s = upd_inode mroot (\<lambda>x. x\<lparr>i_ismroot := True\<rparr>) s;
          s = upd_inode mpoint (\<lambda>x. x\<lparr>i_mountroot := Some mroot\<rparr>) s;
          s = upd_inode mroot (\<lambda>x. x\<lparr>i_mountparent := Some parent\<rparr>) s;
          s = iunlock (Some mroot) s;
          s = (if parent \<noteq> mroot then iunlock (Some parent) s else s) in
      Inr ((), if mpoint \<noteq> mroot then iunlock (Some mpoint) s else s))))"

definition imount :: "'a fsst_scheme devsw list \<Rightarrow> nat \<Rightarrow> nat \<Rightarrow> 'a fsst_scheme \<Rightarrow> ('a fsst_scheme, int) outcome" where
  "imount devsw mroot mpoint s =
    (if i_type (inodes s ! mpoint) \<noteq> T_DIR then Inr (-1, s)
     else bnd (dirlookup devsw mpoint (bytes_of ''..'') s) (\<lambda>(r, s).
       case r of None \<Rightarrow> Inr (-1, s)
       | Some (parent, _) \<Rightarrow> bnd (imount0 mroot mpoint parent s) (\<lambda>(_, s). Inr (0, s))))"

text \<open>\<^verbatim>\<open>iunmount\<close> takes the mount point from a field that no code sets: a nil mount point is accepted by
  \<^verbatim>\<open>ilock\<close> and \<^verbatim>\<open>iunref\<close> and dereferenced afterwards.\<close>

definition iunmount :: "nat \<Rightarrow> 'a fsst_scheme \<Rightarrow> ('a fsst_scheme, unit) outcome" where
  "iunmount mroot s =
    (let parent = i_mountparent (inodes s ! mroot); mpoint = i_mountpoint (inodes s ! mroot) in
     bnd (ilock (Some mroot) s) (\<lambda>(_, s).
     bnd (ilock mpoint s) (\<lambda>(_, s).
     bnd (ilock parent s) (\<lambda>(_, s).
       let s = iunref parent (iunref mpoint (iunref (Some mroot) s)) in
       case mpoint of None \<Rightarrow> Inl (Fault ''iunmount: nil mountpoint'')
       | Some mp \<Rightarrow>
         let s = upd_inode mp (\<lambda>x. x\<lparr>i_ismpoint := False\<rparr>) s;
             s = upd_inode mroot (\<lambda>x. x\<lparr>i_ismroot := False\<rparr>) s in
         Inr ((), iunlock parent (iunlock mpoint (iunlock (Some mroot) s)))))))"

definition iinit :: "nat \<Rightarrow> 'a fsst_scheme \<Rightarrow> ('a fsst_scheme, unit) outcome" where
  "iinit dev s = bnd (readsb dev s) (\<lambda>(sb, s).
     if sb_system sb = 0 \<and> \<not> havesysfs s then Inl (Panic ''given disk is not a system disk'')
     else Inr ((), s\<lparr>havesysfs := True\<rparr>))"

text \<open>\<open>mem_ok\<close>: the allocation of the log in \<^verbatim>\<open>diskmount0\<close> succeeds. The results of the two disk calls are ignored.\<close>

definition fsinit :: "bool \<Rightarrow> nat \<Rightarrow> 'a fsst_scheme \<Rightarrow> ('a fsst_scheme, unit) outcome" where
  "fsinit mem_ok dev s =
    bnd (readsb dev s) (\<lambda>(sb, s).
    bnd (iinit dev (snd (diskmount0 mem_ok dev sb s))) (\<lambda>(_, s).
    bnd (initlog dev s) (\<lambda>(_, s).
    bnd (iget dev ROOTINO s) (\<lambda>(r, s).
      let s = s\<lparr>rootdir := Some r\<rparr> in
      bnd (imount0 r r r s) (\<lambda>(_, s). Inr ((), snd (diskmount1 dev (Some r) s)))))))"

text \<open>\<^verbatim>\<open>struct stat\<close> as \<^verbatim>\<open>stati\<close> fills it; its last field is not written.\<close>

record stat =
  st_type :: int
  st_dev :: nat
  st_ino :: nat
  st_nlink :: int
  st_size :: nat
  st_owner :: int
  st_perms :: u8
  st_attrib :: u8

definition stati :: "nat \<Rightarrow> stat \<Rightarrow> 'a fsst_scheme \<Rightarrow> stat" where
  "stati ip st s = (let x = inodes s ! ip in
     st\<lparr>st_dev := i_dev x, st_ino := i_inum x, st_type := i_type x, st_nlink := i_nlink x,
       st_size := i_size x, st_owner := i_owner x, st_perms := i_perms x\<rparr>)"

section \<open>A directory as the list of its entries\<close>

definition ents :: "bytes \<Rightarrow> bytes list" where
  "ents c = map (\<lambda>k. slice (16 * k) 16 c) [0..<length c div 16]"

definition dmatch :: "bytes \<Rightarrow> bytes \<Rightarrow> bool" where
  "dmatch name e \<longleftrightarrow> de_inum e \<noteq> 0 \<and> namecmp name (de_name e) = 0"

definition dlook :: "bytes \<Rightarrow> bytes \<Rightarrow> nat option" where
  "dlook c name = find_index (dmatch name) (ents c)"

text \<open>The map from names to inode numbers that a directory represents.\<close>

definition dfind :: "bytes \<Rightarrow> bytes \<Rightarrow> nat option" where
  "dfind c name = map_option (\<lambda>k. de_inum (ents c ! k)) (dlook c name)"

text \<open>Where a new entry goes, and the directory with it.\<close>

definition dslot :: "bytes \<Rightarrow> nat" where
  "dslot c = (case find_index (\<lambda>e. de_inum e = 0) (ents c) of Some k \<Rightarrow> k | None \<Rightarrow> length (ents c))"

definition dins :: "bytes \<Rightarrow> bytes \<Rightarrow> nat \<Rightarrow> bytes" where
  "dins c name inum = patch (16 * dslot c) (de_make name inum) c"

lemma length_ents [simp]: "length (ents c) = length c div 16"
  by (simp add: ents_def)

lemma nth_ents [simp]: "k < length c div 16 \<Longrightarrow> ents c ! k = slice (16 * k) 16 c"
  by (simp add: ents_def)

lemma dslot_le: "dslot c \<le> length c div 16"
  by (auto simp: dslot_def split: option.split dest: find_index_SomeD(1))

lemma length_de_make [simp]: "length (de_make name inum) = 16"
  by (simp add: de_make_def DIRSIZ_def)

lemma de_inum_make [simp]: "inum < 65536 \<Longrightarrow> de_inum (de_make name inum) = inum"
  by (simp add: de_inum_def de_make_def slice_def)

lemma de_name_make [simp]: "de_name (de_make name inum) = strncpy name DIRSIZ"
  by (simp add: de_name_def de_make_def slice_def DIRSIZ_def)

lemma namecmp_0: "namecmp s t = 0 \<longleftrightarrow> take DIRSIZ (cstr s) = take DIRSIZ (cstr t)"
  by (simp add: namecmp_def strncmp_0_iff)

lemma namecmp_strncpy: "namecmp s (strncpy t DIRSIZ) = 0 \<longleftrightarrow> namecmp s t = 0"
  by (simp add: namecmp_0)

lemma ents_patch:
  assumes "length c mod 16 = 0" "k \<le> length c div 16" "length e = 16"
  shows "ents (patch (16 * k) e c) = (if k < length c div 16 then (ents c)[k := e] else ents c @ [e])"
proof (rule nth_equalityI)
  have l: "length c = 16 * (length c div 16)" using assms(1) by presburger
  have lp: "length (patch (16 * k) e c) div 16 = (if k < length c div 16 then length c div 16 else Suc (length c div 16))"
    using assms(2,3) l by (auto simp: patch_def)
  then show "length (ents (patch (16 * k) e c)) = length (if k < length c div 16 then (ents c)[k := e] else ents c @ [e])" by simp
  fix j assume "j < length (ents (patch (16 * k) e c))"
  then have j: "j < length (patch (16 * k) e c) div 16" by simp
  show "ents (patch (16 * k) e c) ! j = (if k < length c div 16 then (ents c)[k := e] else ents c @ [e]) ! j"
  proof (cases "k < length c div 16")
    case True
    have "16 * j + 16 \<le> 16 * k \<or> 16 * k + 16 \<le> 16 * j" if "j \<noteq> k" using that by linarith
    then have "slice (16 * j) 16 (patch (16 * k) e c) = (if j = k then e else slice (16 * j) 16 c)"
      using slice_patch_same [of "16 * k" e c] slice_patch_disjoint [of "16 * k" e c "16 * j" 16] assms(3) l True j lp by auto
    then show ?thesis using True j lp by (simp add: nth_list_update)
  next
    case False
    then have k: "16 * k = length c" using assms(2) l by simp
    have "slice (16 * j) 16 (c @ e) = (if j = k then e else slice (16 * j) 16 c)"
      using j lp False k assms(3) by (auto simp: slice_def)
    moreover have "patch (16 * k) e c = c @ e" using k by (simp add: patch_def)
    ultimately show ?thesis using j lp False k assms(2) by (auto simp: nth_append)
  qed
qed

lemma find_index_upd:
  assumes "find_index P xs = None" "k < length xs" "P e"
  shows "find_index P (xs[k := e]) = Some k"
  using assms by (auto simp: find_index_Some find_index_None nth_list_update)

lemma find_index_upd_other:
  assumes "\<not> P (xs ! k)" "\<not> P e"
  shows "find_index P (xs[k := e]) = find_index P xs"
proof (cases "k < length xs")
  case True
  then have "map P (xs[k := e]) = map P xs"
    using assms by (intro nth_equalityI) (auto simp: nth_list_update)
  moreover have "find_index P ys = find_index id (map P ys)" for ys by (induction ys) auto
  ultimately show ?thesis by metis
qed (simp add: list_update_beyond)

lemma find_index_append: "find_index P (xs @ ys) = (case find_index P xs of Some k \<Rightarrow> Some k
    | None \<Rightarrow> (case find_index P ys of Some k \<Rightarrow> Some (length xs + k) | None \<Rightarrow> None))"
  by (induction xs) (auto split: option.splits)

text \<open>Inserting a name into a directory is updating the map.\<close>

lemma dfind_dins:
  assumes "length c mod 16 = 0" "0 < inum" "inum < 65536" "dlook c name = None"
  shows "dlook (dins c name inum) nm = (if namecmp nm name = 0 then Some (dslot c) else dlook c nm)"
    "ents (dins c name inum) ! dslot c = de_make name inum"
    "dfind (dins c name inum) nm = (if namecmp nm name = 0 then Some inum else dfind c nm)"
proof -
  let ?e = "de_make name inum" and ?k = "dslot c" and ?es = "ents c"
  have es: "ents (dins c name inum) = (if ?k < length ?es then ?es[?k := ?e] else ?es @ [?e])"
    unfolding dins_def using ents_patch [OF assms(1) dslot_le length_de_make] by simp
  have k: "?k < length ?es \<or> ?k = length ?es" using dslot_le [of c] by auto
  have m: "dmatch nm ?e \<longleftrightarrow> namecmp nm name = 0" for nm
    using assms(2,3) by (simp add: dmatch_def namecmp_strncpy)
  have old: "\<not> dmatch nm (?es ! ?k)" if "?k < length ?es" for nm
    using that by (auto simp: dslot_def dmatch_def split: option.splits dest: find_index_SomeD)
  have none: "find_index (dmatch nm) ?es = None" if "namecmp nm name = 0"
    using assms(4) that by (auto simp: dlook_def find_index_None dmatch_def namecmp_0)
  show L: "dlook (dins c name inum) nm = (if namecmp nm name = 0 then Some ?k else dlook c nm)"
    using none m k old [of nm] find_index_upd [of "dmatch nm" ?es ?k ?e] find_index_upd_other [of "dmatch nm" ?es ?k ?e]
    by (auto simp: dlook_def es find_index_append split: option.split)
  show K: "ents (dins c name inum) ! ?k = ?e" using k by (auto simp: es nth_append)
  have "de_inum (ents (dins c name inum) ! j) = de_inum (?es ! j)" if "dlook c nm = Some j" for j
    using that find_index_SomeD [of "dmatch nm" ?es j] old [of nm]
    by (auto simp: es dlook_def nth_append nth_list_update)
  then show "dfind (dins c name inum) nm = (if namecmp nm name = 0 then Some inum else dfind c nm)"
    using L K assms(3) by (auto simp: dfind_def split: if_splits intro!: option.map_cong0)
qed

section \<open>Lookup\<close>

definition isdir :: "nat \<Rightarrow> 'a fsst_scheme \<Rightarrow> nat \<Rightarrow> inode \<Rightarrow> bool" where
  "isdir d s dp x \<longleftrightarrow> x = inodes s ! dp \<and> dp < length (inodes s) \<and> i_dev x = d \<and> i_type x = T_DIR
     \<and> i_size x \<le> MAXFILE * BSIZE \<and> i_size x mod 16 = 0 \<and> readable d s x (i_size x)"

lemma isdirD:
  assumes "isdir d s dp x"
  shows "x = inodes s ! dp" "dp < length (inodes s)" "i_dev x = d" "i_type x = T_DIR"
    "i_size x \<le> MAXFILE * BSIZE" "i_size x mod 16 = 0" "readable d s x (i_size x)"
  using assms unfolding isdir_def by blast+

lemma isdir_lstep:
  assumes "isdir d s dp x" "lstep d [] s s'"
  shows "isdir d s' dp x"
proof -
  have "blk s' = blk s" "held s' = held s" "inodes s' = inodes s"
    using lstepD(4,5) [OF assms(2)] lstep_inodes(1) [OF assms(2)] by auto
  then show ?thesis using assms(1) unfolding isdir_def readable_def by metis
qed

lemma length_fcontents [simp]: "length (fcontents m x) = i_size x"
  by (simp add: fcontents_def)

lemma slice_fcontents:
  assumes "off + n \<le> i_size x"
  shows "slice off n (fcontents m x) = map (fbyte m x) [off..<off + n]"
  using assms by (intro nth_equalityI) (auto simp: nth_slice fcontents_def)

lemma dir_read:
  assumes "rd d s" "isdir d s dp x" "k < i_size x div 16"
  shows "\<exists>s'. readi devsw dp (16 * k) 16 s = Inr ((16, ents (fcontents (blk s d) x) ! k), s') \<and> lstep d [] s s' \<and> rd d s'"
proof -
  note D = isdirD [OF assms(2)]
  have "Suc k * 16 \<le> i_size x div 16 * 16" using assms(3) by (intro mult_le_mono1) simp
  then have "Suc k * 16 \<le> i_size x" using div_times_less_eq_dividend [of "i_size x" 16] by (rule le_trans)
  then have k: "16 * k + 16 \<le> i_size x" by simp
  have b: "16 * k < 2 ^ 32" "(16::nat) < 2 ^ 32" "\<not> (16 * k > i_size x \<or> 2 ^ 32 \<le> 16 * k + 16)" "min 16 (i_size x - 16 * k) = 16"
    using k D(5) unfolding MAXSIZE by simp_all
  have t: "i_type x \<noteq> T_DEV" using D(4) by (simp add: T_DIR_def T_DEV_def)
  have "ents (fcontents (blk s d) x) ! k = map (fbyte (blk s d) x) [16 * k..<16 * k + 16]"
    using assms(3) slice_fcontents [OF k] by simp
  then show ?thesis
    using readi_ok [OF assms(1) D(1,3) t D(5,7) b(1,2), of devsw] unfolding if_not_P [OF b(3)] b(4) by simp
qed

lemma dirlookup_loop_ok:
  assumes "rd d s" "isdir d s dp x" "es = ents (fcontents (blk s d) x)" "k \<le> length es"
  shows "\<exists>s'. lstep d [] s s' \<and> rd d s' \<and> dirlookup_loop devsw dp name (map ((*) 16) [k..<length es]) s
    = (case find_index (dmatch name) (drop k es) of None \<Rightarrow> Inr (None, s')
       | Some j \<Rightarrow> dir_found dp (es ! (k + j)) (16 * (k + j)) s')"
  using assms
proof (induction "length es - k" arbitrary: k s)
  case 0
  then show ?case using lstep_refl by auto
next
  case (Suc n)
  have k: "k < length es" "n = length es - Suc k" using Suc.hyps(2) by simp_all
  then have "k < i_size x div 16" using Suc.prems(3) by simp
  from dir_read [OF Suc.prems(1,2) this, of devsw] obtain s1 where
    1: "readi devsw dp (16 * k) 16 s = Inr ((16, es ! k), s1)" "lstep d [] s s1" "rd d s1"
    using Suc.prems(3) by auto
  have e1: "es = ents (fcontents (blk s1 d) x)" using Suc.prems(3) lstepD(4) [OF 1(2)] by simp
  from Suc.hyps(1) [OF k(2) 1(3) isdir_lstep [OF Suc.prems(2) 1(2)] e1] k(1) obtain s2 where
    2: "lstep d [] s1 s2" "rd d s2" "dirlookup_loop devsw dp name (map ((*) 16) [Suc k..<length es]) s1
    = (case find_index (dmatch name) (drop (Suc k) es) of None \<Rightarrow> Inr (None, s2)
       | Some j \<Rightarrow> dir_found dp (es ! (Suc k + j)) (16 * (Suc k + j)) s2)" by auto
  have dr: "drop k es = es ! k # drop (Suc k) es" "[k..<length es] = k # [Suc k..<length es]"
    using k(1) by (simp_all add: Cons_nth_drop_Suc upt_conv_Cons)
  show ?case
  proof (cases "dmatch name (es ! k)")
    case True
    then show ?thesis using 1 unfolding dr by (intro exI [of _ s1]) (simp add: dmatch_def)
  next
    case False
    then have "dirlookup_loop devsw dp name (map ((*) 16) [k..<length es]) s
      = dirlookup_loop devsw dp name (map ((*) 16) [Suc k..<length es]) s1"
      unfolding dr using 1(1) by (auto simp: dmatch_def)
    moreover have "find_index (dmatch name) (drop k es) = map_option Suc (find_index (dmatch name) (drop (Suc k) es))"
      using False unfolding dr(1) by simp
    moreover have "lstep d [] s s2" using lstep_trans [OF 1(2) 2(1)] by simp
    ultimately show ?thesis
      using 2(2,3) by (intro exI [of _ s2]) (auto simp: algebra_simps simp del: drop_Suc split: option.split)
  qed
qed

lemma dir_offs_ents: "i_size x mod 16 = 0 \<Longrightarrow> dir_offs (i_size x) = map ((*) 16) [0..<length (ents (fcontents m x))]"
proof -
  assume "i_size x mod 16 = 0"
  then obtain q where "i_size x = 16 * q" by (auto simp: mod_eq_0_iff_dvd elim: dvdE)
  then show ?thesis by (simp add: dir_offs_def)
qed

lemma dirlookup_ok:
  assumes "rd d s" "isdir d s dp x" "c = fcontents (blk s d) x"
  shows "\<exists>s'. lstep d [] s s' \<and> rd d s' \<and> dirlookup devsw dp name s
    = (case dlook c name of None \<Rightarrow> Inr (None, s') | Some k \<Rightarrow> dir_found dp (ents c ! k) (16 * k) s')"
proof -
  from dirlookup_loop_ok [OF assms(1,2) refl, of 0 devsw name] obtain s' where
    s': "lstep d [] s s'" "rd d s'" "dirlookup_loop devsw dp name (map ((*) 16) [0..<length (ents c)]) s
      = (case find_index (dmatch name) (ents c) of None \<Rightarrow> Inr (None, s')
         | Some j \<Rightarrow> dir_found dp (ents c ! (0 + j)) (16 * (0 + j)) s')"
    using assms(3) by auto
  then show ?thesis
    using isdirD(1,4) [OF assms(2)] dir_offs_ents [OF isdirD(6) [OF assms(2)], of "blk s d"] assms(3)
    by (intro exI [of _ s']) (simp add: dirlookup_def dlook_def split: option.split)
qed

end
