(* ===== verification/Refs.thy ===== *)
theory Refs
  imports Dir
begin

text \<open>
  Reference counting in the inode cache, for callers that hold several inodes at once. \<open>nrefs\<close> is the
  number of references to each inode of each disk; \<open>coh\<close> says that the cached copies agree with the
  disk, that only given entries are locked and that a disk is mounted nowhere but on its own root.
  Under \<open>coh\<close>, \<^verbatim>\<open>iget\<close> adds one reference, \<^verbatim>\<open>iput\<close> removes one, \<^verbatim>\<open>ilock\<close> makes the copy valid, and
  \<^verbatim>\<open>dirlookup\<close> is a lookup in the directory plus one reference to what it finds.
\<close>

section \<open>Counting references\<close>

definition nrefs :: "((nat \<times> nat) \<times> int) list \<Rightarrow> nat \<times> nat \<Rightarrow> int" where
  "nrefs xs k = (case find (\<lambda>e. fst e = k \<and> 0 < snd e) xs of Some e \<Rightarrow> snd e | None \<Rightarrow> 0)"

lemma nrefs_nth:
  assumes "icinv xs" "i < length xs" "0 < snd (xs ! i)"
  shows "nrefs xs (fst (xs ! i)) = snd (xs ! i)"
proof -
  have "find (\<lambda>e. fst e = fst (xs ! i) \<and> 0 < snd e) xs \<noteq> None"
    using assms(2,3) unfolding find_None_iff by (metis nth_mem)
  then obtain e where e: "find (\<lambda>e. fst e = fst (xs ! i) \<and> 0 < snd e) xs = Some e" by blast
  then obtain j where "j < length xs" "fst (xs ! j) = fst (xs ! i)" "0 < snd (xs ! j)" "e = xs ! j"
    by (auto simp: find_Some_iff)
  moreover then have "j = i" using assms unfolding icinv_def by blast
  ultimately show ?thesis using e by (simp add: nrefs_def)
qed

lemma nrefs_pos:
  assumes "0 < nrefs xs k"
  shows "\<exists>i < length xs. fst (xs ! i) = k \<and> 0 < snd (xs ! i)"
  using assms by (auto simp: nrefs_def find_Some_iff split: option.splits)

lemma nrefs_nonneg: "0 \<le> nrefs xs k"
proof (cases "find (\<lambda>e. fst e = k \<and> 0 < snd e) xs")
  case (Some e)
  then have "0 < snd e" unfolding find_Some_iff by blast
  then show ?thesis using Some by (simp add: nrefs_def)
qed (simp add: nrefs_def)

lemma nrefs_set:
  assumes "icinv xs" "i < length xs" "0 \<le> q"
    and c: "fst (xs ! i) = k \<and> 0 < snd (xs ! i) \<or> snd (xs ! i) = 0 \<and> nrefs xs k = 0"
  shows "icinv (xs[i := (k, q)])" "nrefs (xs[i := (k, q)]) = (nrefs xs)(k := q)"
proof -
  have other: False if "j < length xs" "j \<noteq> i" "fst (xs ! j) = k" "0 < snd (xs ! j)" for j
    using c that nrefs_nth [OF assms(1) that(1,4)] assms(1,2) unfolding icinv_def by auto
  show i: "icinv (xs[i := (k, q)])" by (rule icinv_set [OF assms(1-3)]) (use other in blast)
  have here: "nrefs (xs[i := (k, q)]) k = q"
  proof (cases "q = 0")
    case True
    have "\<not> 0 < nrefs (xs[i := (k, q)]) k"
    proof
      assume "0 < nrefs (xs[i := (k, q)]) k"
      then obtain j where "j < length xs" "fst (xs[i := (k, q)] ! j) = k" "0 < snd (xs[i := (k, q)] ! j)"
        using nrefs_pos by fastforce
      then show False using other [of j] True by (cases "j = i") auto
    qed
    then show ?thesis using True nrefs_nonneg [of "xs[i := (k, q)]" k] by simp
  next
    case False
    then show ?thesis using nrefs_nth [OF i, of i] assms(2,3) by simp
  qed
  have there: "nrefs (xs[i := (k, q)]) h = nrefs xs h" if "h \<noteq> k" for h
  proof (cases "0 < nrefs xs h")
    case True
    then obtain j where j: "j < length xs" "fst (xs ! j) = h" "0 < snd (xs ! j)" using nrefs_pos by blast
    then have "j \<noteq> i" using c that by auto
    then show ?thesis using nrefs_nth [OF assms(1) j(1,3)] nrefs_nth [OF i, of j] j by simp
  next
    case False
    have "\<not> 0 < nrefs (xs[i := (k, q)]) h"
    proof
      assume "0 < nrefs (xs[i := (k, q)]) h"
      then obtain j where j: "j < length xs" "fst (xs[i := (k, q)] ! j) = h" "0 < snd (xs[i := (k, q)] ! j)"
        using nrefs_pos by fastforce
      then have "j \<noteq> i" using that assms(2) by auto
      then show False using j nrefs_nth [OF assms(1) j(1)] False by simp
    qed
    then show ?thesis using False nrefs_nonneg [of xs h] nrefs_nonneg [of "xs[i := (k, q)]" h] by simp
  qed
  show "nrefs (xs[i := (k, q)]) = (nrefs xs)(k := q)" using here there by auto
qed

lemma nrefs_support: "{k. 0 < nrefs xs k} \<subseteq> fst ` set xs"
proof
  fix k assume "k \<in> {k. 0 < nrefs xs k}"
  then obtain i where "i < length xs" "fst (xs ! i) = k" using nrefs_pos by blast
  then show "k \<in> fst ` set xs" by (metis image_eqI nth_mem)
qed

lemma nrefs_finite [simp]: "finite {k. 0 < nrefs xs k}"
  by (rule finite_subset [OF nrefs_support]) simp

text \<open>If fewer inodes are in use than the cache has entries, there is a free one.\<close>

lemma nrefs_room:
  assumes "icinv xs" "card {k. 0 < nrefs xs k} < length xs"
  shows "\<exists>i < length xs. snd (xs ! i) = 0"
proof (rule ccontr)
  assume a: "\<not> ?thesis"
  then have p: "0 < snd (xs ! i)" if "i < length xs" for i using assms(1) that unfolding icinv_def by force
  have "inj_on (\<lambda>i. fst (xs ! i)) {..<length xs}" using assms(1) p by (auto simp: inj_on_def icinv_def)
  then have "card ((\<lambda>i. fst (xs ! i)) ` {..<length xs}) = length xs" by (simp add: card_image)
  moreover have "(\<lambda>i. fst (xs ! i)) ` {..<length xs} \<subseteq> {k. 0 < nrefs xs k}"
    using p nrefs_nth [OF assms(1)] by auto
  ultimately have "length xs \<le> card {k. 0 < nrefs xs k}" by (metis card_mono nrefs_finite)
  then show False using assms(2) by simp
qed

section \<open>A coherent cache\<close>

text \<open>Every entry named \<^verbatim>\<open>..\<close> in directory \<open>n\<close> is that directory: the root of a disk.\<close>

definition dload :: "superblock \<Rightarrow> (nat \<Rightarrow> bytes) \<Rightarrow> nat \<Rightarrow> inode" where
  "dload sb m n = di_load (dinode sb m n) zero_inode"

definition dotdot :: "superblock \<Rightarrow> (nat \<Rightarrow> bytes) \<Rightarrow> nat \<Rightarrow> bool" where
  "dotdot sb m n \<longleftrightarrow> (\<forall>e \<in> set (ents (fcontents m (dload sb m n))).
     de_inum e \<noteq> 0 \<and> namecmp (bytes_of ''..'') (de_name e) = 0 \<longrightarrow> de_inum e = n)"

lemma di_load_fix: "di_load y x = x \<longleftrightarrow> i_type x = di_type y \<and> i_major x = di_major y \<and> i_minor x = di_minor y
    \<and> i_owner x = di_owner y \<and> i_perms x = di_perms y \<and> i_nlink x = di_nlink y \<and> i_size x = di_size y \<and> i_addrs x = di_addrs y"
proof
  assume "di_load y x = x"
  note e = this [symmetric]
  show "i_type x = di_type y \<and> i_major x = di_major y \<and> i_minor x = di_minor y
    \<and> i_owner x = di_owner y \<and> i_perms x = di_perms y \<and> i_nlink x = di_nlink y \<and> i_size x = di_size y \<and> i_addrs x = di_addrs y"
    by (subst (1 2 3 4 5 6 7 8) e) (simp add: di_load_def)
qed (auto intro!: inode.equality simp: di_load_def)

definition slot_ok :: "nat \<Rightarrow> superblock \<Rightarrow> (nat \<Rightarrow> bytes) \<Rightarrow> nat set \<Rightarrow> nat \<Rightarrow> inode \<Rightarrow> bool" where
  "slot_ok d sb m B i x \<longleftrightarrow> (i_dev x = d \<and> i_valid x \<longrightarrow> di_load (dinode sb m (i_inum x)) x = x)
     \<and> (i_busy x \<longrightarrow> i \<in> B) \<and> (i_ismpoint x \<longrightarrow> i_mountroot x = Some i)
     \<and> (i_ismroot x \<longrightarrow> i_mountparent x = Some i \<and> dotdot sb m (i_inum x))"

definition coh :: "nat \<Rightarrow> superblock \<Rightarrow> nat set \<Rightarrow> 'a fsst_scheme \<Rightarrow> bool" where
  "coh d sb B s \<longleftrightarrow> icinv (idents s)
     \<and> (\<forall>i < length (inodes s). 0 < i_ref (inodes s ! i) \<longrightarrow> slot_ok d sb (blk s d) B i (inodes s ! i))"

lemma cohD:
  assumes "coh d sb B s"
  shows "icinv (idents s)" "i < length (inodes s) \<Longrightarrow> 0 < i_ref (inodes s ! i) \<Longrightarrow> slot_ok d sb (blk s d) B i (inodes s ! i)"
  using assms unfolding coh_def by blast+

lemma coh_upd:
  assumes "coh d sb B s" "icinv (idents (upd_inode i f s))"
    and "0 < i_ref (f (inodes s ! i)) \<Longrightarrow> slot_ok d sb (blk s d) B' i (f (inodes s ! i))" "B - {i} \<subseteq> B'"
  shows "coh d sb B' (upd_inode i f s)"
  unfolding coh_def
proof (intro conjI allI impI)
  fix j assume j: "j < length (inodes (upd_inode i f s))" "0 < i_ref (inodes (upd_inode i f s) ! j)"
  show "slot_ok d sb (blk (upd_inode i f s) d) B' j (inodes (upd_inode i f s) ! j)"
  proof (cases "j = i")
    case True
    then show ?thesis using j assms(3) by simp
  next
    case False
    then have "slot_ok d sb (blk s d) B j (inodes s ! j)" using j cohD(2) [OF assms(1)] by simp
    then show ?thesis using False assms(4) by (auto simp: slot_ok_def)
  qed
qed (rule assms(2))

lemma coh_ref:
  assumes "coh d sb B s" "i < length (inodes s)" "0 < i_ref (inodes s ! i)" "0 \<le> i_ref (inodes s ! i) + q"
    and "s' = upd_inode i (\<lambda>x. x\<lparr>i_ref := i_ref x + q\<rparr>) s" "k = (i_dev (inodes s ! i), i_inum (inodes s ! i))"
  shows "coh d sb B s'" "nrefs (idents s') = (nrefs (idents s))(k := nrefs (idents s) k + q)"
    "nrefs (idents s) k = i_ref (inodes s ! i)"
proof -
  let ?x = "inodes s ! i"
  have id: "idents s' = (idents s)[i := (k, i_ref ?x + q)]"
    unfolding assms(5) using assms(2,6) by (simp add: map_update ident_def)
  have xi: "idents s ! i = (k, i_ref ?x)" using assms(2,6) by (simp add: ident_def)
  show r: "nrefs (idents s) k = i_ref ?x"
    using nrefs_nth [OF cohD(1) [OF assms(1)], of i] assms(2,3) xi by simp
  note n = nrefs_set [OF cohD(1) [OF assms(1)], of i "i_ref ?x + q" k]
  show "nrefs (idents s') = (nrefs (idents s))(k := nrefs (idents s) k + q)"
    using n(2) assms(2,3,4) xi unfolding id r by simp
  have "icinv (idents s')" using n(1) assms(2,3,4) xi unfolding id by simp
  moreover have "slot_ok d sb (blk s d) B i ?x" using cohD(2) [OF assms(1-3)] .
  then have "slot_ok d sb (blk s d) B i (?x\<lparr>i_ref := i_ref ?x + q\<rparr>)"
    by (simp add: slot_ok_def di_load_fix)
  ultimately show "coh d sb B s'" unfolding assms(5) by (intro coh_upd [OF assms(1)]) auto
qed

section \<open>Operations on a coherent cache\<close>

text \<open>\<open>rstep d s s'\<close>: nothing but the inode cache, the buffers and the processes that wait for them changed.\<close>

definition rstep :: "nat \<Rightarrow> 'a fsst_scheme \<Rightarrow> 'a fsst_scheme \<Rightarrow> bool" where
  "rstep d s s' \<longleftrightarrow> fstep d [] (inodes s') s s'"

lemma rstep_refl [simp]: "rstep d s s"
  by (simp add: rstep_def fstep_def lstep_refl)

lemma rstep_trans: "rstep d s s1 \<Longrightarrow> rstep d s1 s2 \<Longrightarrow> rstep d s s2"
  unfolding rstep_def using fstep_trans [of d "[]" _ s s1 "[]"] by fastforce

lemma rstep_upd: "rstep d s (upd_inode i f s)"
  unfolding rstep_def using fstep_upd [of d s i f] by simp

lemma rstep_lstep: "lstep d [] s s' \<Longrightarrow> rstep d s s'"
  unfolding rstep_def using fstep_lstep lstep_inodes(1) by metis

lemma rstepD:
  assumes "rstep d s s'"
  shows "blk s' = blk s" "held s' = held s" "rootdir s' = rootdir s"
  using fstepD [OF assms [unfolded rstep_def]] by auto

lemma wakeup_lstep: "lstep d [] s (wakeup c s)" "rd d (wakeup c s) = rd d s" "inodes (wakeup c s) = inodes s"
proof -
  have ds: "dsame (wakeup c s) s" by (simp add: dsame_def wakeup_def wakeup1_def)
  have "list_all2 (\<lambda>k k'. \<exists>g. k' = k\<lparr>dk_log := g\<rparr>) (disks s) (disks s)"
    by (rule list.rel_refl) (metis disk.surjective disk.update_convs(9))
  then have "bframe s (wakeup c s)"
    unfolding bframe_def
    by (intro exI [of _ "bufs s"] exI [of _ "lru s"] exI [of _ "procs (wakeup c s)"] exI [of _ "media s"] exI [of _ "dtrace s"] exI [of _ "disks s"])
      (simp add: wakeup_def wakeup1_def wakes_def list_all2_conv_all_nth)
  then show "lstep d [] s (wakeup c s)"
    using dsame_views [OF ds] dsame_cache [OF ds] by (simp add: lstep_def wakeup_def wakeup1_def)
  show "rd d (wakeup c s) = rd d s" using dsame_views [OF ds] dsame_cache [OF ds] by (simp add: rd_def)
  show "inodes (wakeup c s) = inodes s" by (simp add: wakeup_def wakeup1_def)
qed

lemma rstep_superblock:
  assumes "rstep d s s'" "rd d s"
  shows "getsuperblock d s' = getsuperblock d s"
proof -
  have "length (disks s) = DISKMAX" "d < DISKMAX" using assms(2) by (auto simp: rd_def ide_dev_def binv_def)
  then show ?thesis using fstep_superblock [OF assms(1) [unfolded rstep_def], of d] by simp
qed

text \<open>The entries other than a new one keep everything but their count.\<close>

definition keeps :: "'a fsst_scheme \<Rightarrow> 'a fsst_scheme \<Rightarrow> bool" where
  "keeps s s' \<longleftrightarrow> length (inodes s') = length (inodes s)
     \<and> (\<forall>j < length (inodes s). 0 < i_ref (inodes s ! j) \<longrightarrow> (\<exists>q > 0. inodes s' ! j = (inodes s ! j)\<lparr>i_ref := q\<rparr>))"

lemma keeps_upd:
  assumes "0 < i_ref (inodes s ! i) \<Longrightarrow> \<exists>q > 0. f (inodes s ! i) = (inodes s ! i)\<lparr>i_ref := q\<rparr>"
  shows "keeps s (upd_inode i f s)"
  unfolding keeps_def
proof (intro conjI allI impI)
  fix j assume j: "j < length (inodes s)" "0 < i_ref (inodes s ! j)"
  show "\<exists>q > 0. inodes (upd_inode i f s) ! j = (inodes s ! j)\<lparr>i_ref := q\<rparr>"
  proof (cases "j = i")
    case True
    then show ?thesis using assms j by simp
  next
    case False
    then show ?thesis using j by (intro exI [of _ "i_ref (inodes s ! j)"]) simp
  qed
qed simp

lemma iget_coh:
  assumes "coh d sb B s" "card {k. 0 < nrefs (idents s) k} < length (inodes s)"
  shows "\<exists>i s1. iget e n s = Inr (i, s1) \<and> rstep d s s1 \<and> rd d s1 = rd d s \<and> coh d sb B s1 \<and> keeps s s1
    \<and> i < length (inodes s1) \<and> i_match e n (inodes s1 ! i)
    \<and> nrefs (idents s1) = (nrefs (idents s))((e, n) := nrefs (idents s) (e, n) + 1)"
proof (cases "find_index (i_match e n) (inodes s)")
  case (Some i)
  note f = find_index_SomeD [OF Some]
  have m: "0 < i_ref (inodes s ! i)" "(e, n) = (i_dev (inodes s ! i), i_inum (inodes s ! i))"
    using f(2) by (auto simp: i_match_def)
  let ?s = "upd_inode i (\<lambda>x. x\<lparr>i_ref := i_ref x + 1\<rparr>) s"
  have q: "0 \<le> i_ref (inodes s ! i) + 1" using m(1) by simp
  note r = coh_ref [OF assms(1) f(1) m(1) q refl m(2)]
  have "i_ismpoint (inodes s ! i) \<Longrightarrow> i_mountroot (inodes s ! i) = Some i"
    using cohD(2) [OF assms(1) f(1) m(1)] by (simp add: slot_ok_def)
  then have "iget e n s = Inr (i, ?s)" using Some by (auto simp: iget_def)
  moreover have "keeps s ?s"
    by (rule keeps_upd) (use m(1) in \<open>auto intro!: exI [of _ "i_ref (inodes s ! i) + 1"]\<close>)
  ultimately show ?thesis
    using r f m by (intro exI [of _ i] exI [of _ ?s]) (auto simp: rstep_upd i_match_def simp del: fun_upd_apply)
next
  case None
  then have no: "\<forall>x \<in> set (inodes s). \<not> i_match e n x" by (simp add: find_index_None)
  obtain i0 where "i0 < length (inodes s)" "i_ref (inodes s ! i0) = 0"
    using nrefs_room [OF cohD(1) [OF assms(1)]] assms(2) by (auto simp: ident_def)
  then obtain i where fi: "find_index i_free (inodes s) = Some i"
    using find_index_exists [of "inodes s ! i0" "inodes s" i_free] by (auto simp: i_free_def)
  have i: "i < length (inodes s)" "i_ref (inodes s ! i) = 0" using find_index_SomeD [OF fi] by (auto simp: i_free_def)
  let ?f = "\<lambda>x. x\<lparr>i_dev := e, i_inum := n, i_ref := 1, i_busy := False, i_valid := False, i_ismpoint := False, i_ismroot := False\<rparr>"
  let ?s = "upd_inode i ?f s"
  have "\<not> 0 < nrefs (idents s) (e, n)"
  proof
    assume "0 < nrefs (idents s) (e, n)"
    then obtain j where "j < length (inodes s)" "ident (inodes s ! j) = ((e, n), i_ref (inodes s ! j))" "0 < i_ref (inodes s ! j)"
      using nrefs_pos [of "idents s" "(e, n)"] by (auto simp: ident_def)
    then show False using no by (auto simp: i_match_def ident_def)
  qed
  then have z: "nrefs (idents s) (e, n) = 0" using nrefs_nonneg [of "idents s" "(e, n)"] by simp
  have id: "idents ?s = (idents s)[i := ((e, n), 1)]" by (simp add: map_update ident_def)
  have c: "i < length (idents s)" "snd (idents s ! i) = 0" using i by (simp_all add: ident_def)
  note r = nrefs_set [OF cohD(1) [OF assms(1)] c(1), of 1 "(e, n)"]
  have "coh d sb B ?s" by (rule coh_upd [OF assms(1)]) (use r(1) c z in \<open>auto simp: id slot_ok_def simp del: upd_inode_sel(1)\<close>)
  moreover have "keeps s ?s"
    by (rule keeps_upd) (use i(2) in simp)
  moreover have "iget e n s = Inr (i, ?s)" using None fi by (simp add: iget_def)
  moreover have "nrefs (idents ?s) = (nrefs (idents s))((e, n) := nrefs (idents s) (e, n) + 1)"
    unfolding id using r(2) c(2) z by simp
  moreover have "i < length (inodes ?s)" "i_match e n (inodes ?s ! i)" "rd d ?s = rd d s"
    using i(1) by (simp_all add: i_match_def)
  ultimately show ?thesis using rstep_upd [of d s i ?f] by blast
qed

lemma coh_cong: "inodes s' = inodes s \<Longrightarrow> blk s' d = blk s d \<Longrightarrow> coh d sb B s' = coh d sb B s"
  by (simp add: coh_def)

lemma slot_ok_load:
  assumes "slot_ok d sb m B i x" "i_dev x = d" "y = di_load (dinode sb m (i_inum x)) x"
  shows "slot_ok d sb m (insert i B) i (y\<lparr>i_busy := True, i_valid := True\<rparr>)"
  using assms(1,2) unfolding slot_ok_def di_load_fix by (simp add: assms(3) di_load_def)

lemma ilock_coh:
  assumes c: "coh d sb {} s" and r: "rd d s" and x: "x = inodes s ! ip" "ip < length (inodes s)" "0 < i_ref x" "i_dev x = d"
    and sb: "getsuperblock d s = Some sb" "IBLOCK (i_inum x) sb < FSSIZE" "(d, IBLOCK (i_inum x) sb) \<notin> held s"
    and y: "y = (di_load (dinode sb (blk s d) (i_inum x)) x)\<lparr>i_busy := True, i_valid := True\<rparr>"
  shows "\<exists>s'. ilock (Some ip) s = Inr ((), s') \<and> rd d s' \<and> rstep d s s' \<and> coh d sb {ip} s'
    \<and> inodes s' = (inodes s)[ip := y] \<and> idents s' = idents s"
proof -
  have k: "slot_ok d sb (blk s d) {} ip x" using cohD(2) [OF c x(2)] x(1,3) by simp
  then have b: "\<not> i_busy x" by (auto simp: slot_ok_def)
  have id: "ident y = ident x" by (simp add: y)
  have "\<exists>s'. ilock (Some ip) s = Inr ((), s') \<and> rd d s' \<and> rstep d s s' \<and> inodes s' = (inodes s)[ip := y]"
  proof (cases "i_valid x")
    case True
    then have "di_load (dinode sb (blk s d) (i_inum x)) x = x" using k x(4) by (simp add: slot_ok_def)
    then have "y = x\<lparr>i_busy := True\<rparr>" using True y by simp
    moreover have "ilock (Some ip) s = Inr ((), upd_inode ip (\<lambda>x. x\<lparr>i_busy := True\<rparr>) s)"
      using x b True by (simp add: ilock_def Let_def)
    ultimately show ?thesis using r x(1) by (auto simp: rstep_upd)
  next
    case False
    have "1 \<le> i_ref x" using x(3) by simp
    from ilock_load [OF r x(1,4) this b False x(2) sb] show ?thesis
      using y fstepD(1) unfolding rstep_def by metis
  qed
  then obtain s' where s': "ilock (Some ip) s = Inr ((), s')" "rd d s'" "rstep d s s'" "inodes s' = (inodes s)[ip := y]" by blast
  have ids: "idents s' = idents s" unfolding s'(4) using id x(1) by simp
  have "coh d sb {ip} (upd_inode ip (\<lambda>_. y) s)"
    by (rule coh_upd [OF c]) (use cohD(1) [OF c] slot_ok_load [OF k x(4) refl] y id x(1) in auto)
  moreover have "coh d sb {ip} s' = coh d sb {ip} (upd_inode ip (\<lambda>_. y) s)"
    by (rule coh_cong) (use s'(4) rstepD(1) [OF s'(3)] in simp_all)
  ultimately show ?thesis using s' ids by blast
qed

lemma iunlock_coh:
  assumes c: "coh d sb {ip} s" and x: "x = inodes s ! ip" "ip < length (inodes s)" "0 < i_ref x"
    and e: "s' = iunlock (Some ip) s"
  shows "rstep d s s'" "rd d s' = rd d s" "coh d sb {} s'" "inodes s' = (inodes s)[ip := x\<lparr>i_busy := False\<rparr>]"
    "idents s' = idents s"
proof -
  let ?u = "upd_inode ip (\<lambda>x. x\<lparr>i_busy := False\<rparr>) s"
  have s': "s' = s \<and> \<not> i_busy x \<or> s' = wakeup (ChInode ip) ?u" using x(1,3) e by (auto simp: iunlock_def)
  have nb: "x\<lparr>i_busy := False\<rparr> = x" if "\<not> i_busy x" using that by simp
  show "rstep d s s'"
    using s' rstep_trans [OF rstep_upd rstep_lstep [OF wakeup_lstep(1)]] by auto
  show "rd d s' = rd d s" using s' wakeup_lstep(2) [of d "ChInode ip" ?u] by auto
  show i: "inodes s' = (inodes s)[ip := x\<lparr>i_busy := False\<rparr>]"
  proof (cases "i_busy x")
    case True
    then have "s' = wakeup (ChInode ip) ?u" using s' by simp
    then show ?thesis using x(1) by (simp add: wakeup_lstep(3))
  next
    case False
    then have "s' = s" using e x(1) by (simp add: iunlock_def)
    then show ?thesis using nb [OF False] x(1) by simp
  qed
  show "idents s' = idents s" unfolding i using x(1) by simp
  have "coh d sb {} ?u"
    by (rule coh_upd [OF c]) (use cohD(1) [OF c] cohD(2) [OF c x(2)] x in \<open>auto simp: slot_ok_def di_load_fix\<close>)
  moreover have "coh d sb {} s' = coh d sb {} ?u"
    by (rule coh_cong) (use i x(1) rstepD(1) [OF \<open>rstep d s s'\<close>] in auto)
  ultimately show "coh d sb {} s'" by simp
qed

lemma iput_coh:
  assumes c: "coh d sb B s" and x: "x = inodes s ! ip" "ip < length (inodes s)" "0 < i_ref x"
    and l: "i_valid x \<Longrightarrow> i_nlink x \<noteq> 0" and k: "k = (i_dev x, i_inum x)"
  shows "\<exists>s'. iput1 ip direct s = Inr ((), s') \<and> rstep d s s' \<and> rd d s' = rd d s \<and> coh d sb B s'
    \<and> inodes s' = (inodes s)[ip := x\<lparr>i_ref := i_ref x - 1\<rparr>]
    \<and> nrefs (idents s') = (nrefs (idents s))(k := nrefs (idents s) k - 1)"
proof -
  let ?s = "upd_inode ip (\<lambda>x. x\<lparr>i_ref := i_ref x - 1\<rparr>) s"
  have "iput1 ip direct s = Inr ((), ?s)" using x l by (auto simp: iput1_def Let_def)
  moreover have "coh d sb B ?s" "nrefs (idents ?s) = (nrefs (idents s))(k := nrefs (idents s) k - 1)"
    using coh_ref(1,2) [OF c x(2), of "- 1" ?s k] x k by auto
  ultimately show ?thesis using rstep_upd [of d s ip] x(1) by auto
qed

lemma iunlockput_coh:
  assumes c: "coh d sb {ip} s" and x: "x = inodes s ! ip" "ip < length (inodes s)" "0 < i_ref x"
    and l: "i_valid x \<Longrightarrow> i_nlink x \<noteq> 0" and k: "k = (i_dev x, i_inum x)"
  shows "\<exists>s'. iunlockput1 ip direct s = Inr ((), s') \<and> rstep d s s' \<and> rd d s' = rd d s \<and> coh d sb {} s'
    \<and> inodes s' = (inodes s)[ip := x\<lparr>i_busy := False, i_ref := i_ref x - 1\<rparr>]
    \<and> nrefs (idents s') = (nrefs (idents s))(k := nrefs (idents s) k - 1)"
proof -
  let ?y = "x\<lparr>i_busy := False\<rparr>"
  note u = iunlock_coh [OF c x refl]
  have y: "?y = inodes (iunlock (Some ip) s) ! ip" "ip < length (inodes (iunlock (Some ip) s))" unfolding u(4) using x(2) by simp_all
  have "iunlockput1 ip direct s = iput1 ip direct (iunlock (Some ip) s)"
    by (simp add: iunlockput1_def iunlockput_def iunlockput_direct_def iput_def iput_direct_def)
  moreover obtain s' where s': "iput1 ip direct (iunlock (Some ip) s) = Inr ((), s')" "rstep d (iunlock (Some ip) s) s'"
    "rd d s' = rd d (iunlock (Some ip) s)" "coh d sb {} s'"
    "inodes s' = (inodes (iunlock (Some ip) s))[ip := ?y\<lparr>i_ref := i_ref ?y - 1\<rparr>]"
    "nrefs (idents s') = (nrefs (idents s))(k := nrefs (idents s) k - 1)"
    using iput_coh [OF u(3) y, of k direct] x(3) l k unfolding u(5) by auto
  moreover have "inodes s' = (inodes s)[ip := x\<lparr>i_busy := False, i_ref := i_ref x - 1\<rparr>]" using s'(5) unfolding u(4) by simp
  ultimately show ?thesis using rstep_trans [OF u(1) s'(2)] u(2) by metis
qed

lemma fcontents_cong: "i_size x = i_size y \<Longrightarrow> i_addrs x = i_addrs y \<Longrightarrow> fcontents m x = fcontents m y"
  by (simp add: fcontents_def fbyte_def fblk_def Let_def)

lemma loaded_dir:
  assumes "slot_ok d sb m B i x" "i_dev x = d" "i_valid x"
  shows "fcontents m (dload sb m (i_inum x)) = fcontents m x" "i_nlink x = di_nlink (dinode sb m (i_inum x))"
    "i_type x = di_type (dinode sb m (i_inum x))"
  using assms unfolding slot_ok_def di_load_fix by (auto simp: dload_def di_load_def intro!: fcontents_cong)

lemma dirlookup_coh:
  assumes c: "coh d sb B s" and r: "rd d s" and x: "isdir d s ip x" "0 < i_ref x" "i_valid x"
    and m: "card {k. 0 < nrefs (idents s) k} < length (inodes s)" and f: "c = fcontents (blk s d) x"
  shows "\<exists>s'. rstep d s s' \<and> rd d s' \<and> coh d sb B s' \<and> keeps s s' \<and> (case dfind c name of
      None \<Rightarrow> dirlookup devsw ip name s = Inr (None, s') \<and> nrefs (idents s') = nrefs (idents s)
    | Some n \<Rightarrow> (\<exists>j off. dirlookup devsw ip name s = Inr (Some (j, off), s') \<and> j < length (inodes s') \<and> i_match d n (inodes s' ! j)
        \<and> nrefs (idents s') = (nrefs (idents s))((d, n) := nrefs (idents s) (d, n) + 1)))"
proof -
  note D = isdirD [OF x(1)]
  from dirlookup_ok [OF r x(1) f, of devsw name] obtain s1 where
    1: "lstep d [] s s1" "rd d s1" "dirlookup devsw ip name s = (case dlook c name of None \<Rightarrow> Inr (None, s1)
      | Some k \<Rightarrow> dir_found ip (ents c ! k) (16 * k) s1)" by blast
  have e: "inodes s1 = inodes s" "blk s1 = blk s" using lstep_inodes(1) [OF 1(1)] lstepD(4) [OF 1(1)] by auto
  have c1: "coh d sb B s1" using c coh_cong [of s1 s d] e by simp
  have K: "keeps s s1"
  proof -
    have "inodes s ! j = (inodes s ! j)\<lparr>i_ref := i_ref (inodes s ! j)\<rparr>" for j by simp
    then show ?thesis using e(1) unfolding keeps_def by metis
  qed
  show ?thesis
  proof (cases "dlook c name")
    case None
    then show ?thesis using 1 c1 K e(1) rstep_lstep [OF 1(1)] by (auto simp: dfind_def)
  next
    case (Some k)
    let ?e = "ents c ! k"
    have k: "?e \<in> set (ents c)" "de_inum ?e \<noteq> 0"
      using find_index_SomeD(1,2) [OF Some [unfolded dlook_def]] unfolding dmatch_def by (metis nth_mem, metis)
    note so = cohD(2) [OF c D(2), folded D(1), OF x(2)]
    have "i_ismroot x \<Longrightarrow> i_mountparent x = Some ip \<and> (namecmp (bytes_of ''..'') (de_name ?e) = 0 \<longrightarrow> de_inum ?e = i_inum x)"
      using so k loaded_dir(1) [OF so D(3) x(3)] f by (auto simp: slot_ok_def dotdot_def)
    then have g: "dir_found ip ?e (16 * k) s1 = bnd (iget d (de_inum ?e) s1) (\<lambda>(ip, s). Inr (Some (ip, 16 * k), s))"
      using D(1,3) e(1) by (auto simp: dir_found_def)
    have "card {k. 0 < nrefs (idents s1) k} < length (inodes s1)" using m e(1) by simp
    from iget_coh [OF c1 this, of d "de_inum ?e"] obtain j s2 where
      2: "iget d (de_inum ?e) s1 = Inr (j, s2)" "rstep d s1 s2" "rd d s2 = rd d s1" "coh d sb B s2" "keeps s1 s2"
        "j < length (inodes s2)" "i_match d (de_inum ?e) (inodes s2 ! j)"
        "nrefs (idents s2) = (nrefs (idents s1))((d, de_inum ?e) := nrefs (idents s1) (d, de_inum ?e) + 1)" by blast
    have "keeps s s2" using 2(5) e(1) by (simp add: keeps_def)
    moreover have "rstep d s s2" using rstep_trans [OF rstep_lstep [OF 1(1)] 2(2)] .
    ultimately show ?thesis
      using Some 1(2,3) 2 g e(1) by (intro exI [of _ s2]) (auto simp: dfind_def simp del: fun_upd_apply)
  qed
qed

end
