(* ===== verification/Path.thy ===== *)
theory Path
  imports Refs
begin

text \<open>
  Directories and paths against their specifications: \<^verbatim>\<open>dirlink\<close> updates the map from names to inodes
  that a directory is, \<^verbatim>\<open>skipelem\<close> enumerates the elements of a path, and \<^verbatim>\<open>namex\<close> walks these elements
  through the directories on disk, taking and dropping exactly the references it should.
\<close>

section \<open>The elements of a path\<close>

fun split_on :: "u8 \<Rightarrow> bytes \<Rightarrow> bytes list" where
  "split_on c [] = [[]]"
| "split_on c (x # xs) = (if x = c then [] # split_on c xs
     else (x # hd (split_on c xs)) # tl (split_on c xs))"

definition elems :: "bytes \<Rightarrow> bytes list" where
  "elems path = filter (\<lambda>e. e \<noteq> []) (split_on slash (cstr path))"

lemma split_on_nonempty [simp]: "split_on c xs \<noteq> []"
  by (cases xs) auto

lemma split_on_prefix: "c \<notin> set xs \<Longrightarrow> split_on c (xs @ ys) = (xs @ hd (split_on c ys)) # tl (split_on c ys)"
  by (induction xs) auto

lemma slash_nz [simp]: "slash \<noteq> 0"
  by (simp add: slash_def)

lemma elems_slash [simp]: "elems (slash # p) = elems p"
  by (simp add: elems_def)

lemma elems_dropWhile [simp]: "elems (dropWhile (\<lambda>c. c = slash) p) = elems p"
  by (induction p) auto

lemma cstr_elem: "cstr p = takeWhile (\<lambda>c. c \<noteq> slash \<and> c \<noteq> 0) p @ cstr (dropWhile (\<lambda>c. c \<noteq> slash \<and> c \<noteq> 0) p)"
  by (induction p) auto

lemma elems_Cons:
  assumes "hd0 p \<noteq> 0" "hd0 p \<noteq> slash"
  shows "elems p = takeWhile (\<lambda>c. c \<noteq> slash \<and> c \<noteq> 0) p # elems (dropWhile (\<lambda>c. c \<noteq> slash \<and> c \<noteq> 0) p)"
proof -
  let ?e = "takeWhile (\<lambda>c. c \<noteq> slash \<and> c \<noteq> 0) p" and ?r = "dropWhile (\<lambda>c. c \<noteq> slash \<and> c \<noteq> 0) p"
  have e: "?e \<noteq> []" using assms by (cases p) auto
  have "slash \<notin> set ?e" by (auto dest: set_takeWhileD)
  then have sp: "split_on slash (cstr p) = (?e @ hd (split_on slash (cstr ?r))) # tl (split_on slash (cstr ?r))"
    unfolding cstr_elem [of p] by (rule split_on_prefix)
  have "cstr ?r = [] \<or> (\<exists>r. ?r = slash # r \<and> cstr ?r = slash # cstr r)"
  proof (cases ?r)
    case Nil
    show ?thesis unfolding Nil by simp
  next
    case (Cons c r)
    then have "c = slash \<or> c = 0" using hd_dropWhile [of "\<lambda>c. c \<noteq> slash \<and> c \<noteq> 0" p] by auto
    then show ?thesis unfolding Cons by auto
  qed
  then show ?thesis using sp e by (auto simp: elems_def)
qed

lemma elems_Nil: "hd0 p \<noteq> slash \<Longrightarrow> elems p = [] \<longleftrightarrow> hd0 p = 0"
  using elems_Cons [of p] by (auto simp: elems_def cstr_hd_tl [of p])

lemma hd0_dropWhile [simp]: "hd0 (dropWhile (\<lambda>c. c = slash) p) \<noteq> slash"
  by (induction p) (auto simp: slash_nz [symmetric])

text \<open>The element that \<^verbatim>\<open>skipelem\<close> leaves in the name buffer, as far as \<^verbatim>\<open>namecmp\<close> looks.\<close>

lemma skipelem_elems:
  assumes "length name = DIRSIZ"
  shows "case elems path of [] \<Rightarrow> skipelem path name = None
    | e # es \<Rightarrow> \<exists>rest nm. skipelem path name = Some (rest, nm) \<and> elems rest = es \<and> (hd0 rest = 0 \<longleftrightarrow> es = [])
        \<and> length nm = DIRSIZ \<and> take DIRSIZ (cstr nm) = take DIRSIZ e \<and> cstr e = e"
proof -
  let ?p = "dropWhile (\<lambda>c. c = slash) path"
  let ?e = "takeWhile (\<lambda>c. c \<noteq> slash \<and> c \<noteq> 0) ?p" and ?r = "dropWhile (\<lambda>c. c \<noteq> slash \<and> c \<noteq> 0) ?p"
  show ?thesis
  proof (cases "hd0 ?p = 0")
    case True
    then have "elems path = []" using elems_Nil [of ?p] by simp
    then show ?thesis using True by (simp add: skipelem_def)
  next
    case False
    have el: "elems path = ?e # elems ?r" using elems_Cons [OF False] by simp
    have z: "\<forall>c \<in> set ?e. c \<noteq> 0" by (auto dest: set_takeWhileD)
    then have ce: "cstr ?e = ?e" "cstr (take DIRSIZ ?e) = take DIRSIZ ?e"
      unfolding cstr_def by (auto simp: takeWhile_eq_all_conv dest: in_set_takeD)
    define nm where "nm = (if length ?e \<ge> DIRSIZ then patch 0 (take DIRSIZ ?e) name else patch 0 (?e @ [0]) name)"
    have "skipelem path name = Some (dropWhile (\<lambda>c. c = slash) ?r, nm)"
      using False unfolding skipelem_def Let_def nm_def by simp
    moreover have "length nm = DIRSIZ" using assms by (auto simp: nm_def)
    moreover have "take DIRSIZ (cstr nm) = take DIRSIZ ?e"
    proof (cases "length ?e \<ge> DIRSIZ")
      case True
      then have "nm = take DIRSIZ ?e" using assms by (simp add: nm_def patch_def)
      then show ?thesis using ce by simp
    next
      case short: False
      then have "nm = ?e @ 0 # drop (Suc (length ?e)) name" by (simp add: nm_def patch_def)
      moreover have "takeWhile (\<lambda>c. c \<noteq> 0) (?e @ 0 # drop (Suc (length ?e)) name) = ?e"
        using z by (subst takeWhile_append2) auto
      ultimately have "cstr nm = ?e" unfolding cstr_def by simp
      then show ?thesis by simp
    qed
    ultimately show ?thesis using el ce(1) elems_Nil [of "dropWhile (\<lambda>c. c = slash) ?r"] by auto
  qed
qed

section \<open>Walking the tree on disk\<close>

definition linked :: "superblock \<Rightarrow> (nat \<Rightarrow> bytes) \<Rightarrow> nat \<Rightarrow> bool" where
  "linked sb m n \<longleftrightarrow> n < sb_ninodes sb \<and> di_nlink (dinode sb m n) \<noteq> 0"

text \<open>A directory whose blocks are its own, and whose entries name inodes that have links.\<close>

definition good_dir :: "superblock \<Rightarrow> (nat \<Rightarrow> bool) \<Rightarrow> (nat \<Rightarrow> bytes) \<Rightarrow> nat \<Rightarrow> bool" where
  "good_dir sb lz m n \<longleftrightarrow> (let x = dload sb m n in fwf sb lz m x \<and> fallocated m x \<and> i_size x \<le> MAXFILE * BSIZE \<and> i_size x mod 16 = 0
     \<and> (\<forall>e \<in> set (ents (fcontents m x)). de_inum e \<noteq> 0 \<longrightarrow> linked sb m (de_inum e)))"

definition tree_ok :: "superblock \<Rightarrow> (nat \<Rightarrow> bool) \<Rightarrow> (nat \<Rightarrow> bytes) \<Rightarrow> bool" where
  "tree_ok sb lz m \<longleftrightarrow> (\<forall>n. linked sb m n \<and> di_type (dinode sb m n) = T_DIR \<longrightarrow> good_dir sb lz m n)"

fun rwalk :: "superblock \<Rightarrow> (nat \<Rightarrow> bytes) \<Rightarrow> bool \<Rightarrow> nat \<Rightarrow> bytes list \<Rightarrow> nat option" where
  "rwalk sb m parent n [] = (if parent then None else Some n)"
| "rwalk sb m parent n (e # es) =
    (if di_type (dinode sb m n) \<noteq> T_DIR then None
     else if parent \<and> es = [] then Some n
     else case dfind (fcontents m (dload sb m n)) e of None \<Rightarrow> None | Some j \<Rightarrow> rwalk sb m parent j es)"

lemma dfind_cong: "take DIRSIZ (cstr a) = take DIRSIZ (cstr b) \<Longrightarrow> dfind c a = dfind c b"
proof -
  assume "take DIRSIZ (cstr a) = take DIRSIZ (cstr b)"
  then have "dmatch a = dmatch b" by (simp add: fun_eq_iff dmatch_def namecmp_0)
  then show ?thesis by (simp add: dfind_def dlook_def)
qed

lemma dfind_SomeD:
  assumes "dfind c name = Some n"
  shows "\<exists>e \<in> set (ents c). de_inum e = n \<and> n \<noteq> 0"
proof -
  obtain k where k: "find_index (dmatch name) (ents c) = Some k" "n = de_inum (ents c ! k)"
    using assms by (auto simp: dfind_def dlook_def)
  then show ?thesis using find_index_SomeD(1,2) [OF k(1)] by (metis dmatch_def nth_mem)
qed

lemma fwf_addrs: "i_addrs x = i_addrs y \<Longrightarrow> fwf sb lz m x = fwf sb lz m y"
  by (simp add: fwf_def fblk_def)

lemma fallocated_cong: "i_size x = i_size y \<Longrightarrow> i_addrs x = i_addrs y \<Longrightarrow> fallocated m x = fallocated m y"
  by (simp add: fallocated_def fblk_def)

definition fs_ready :: "nat \<Rightarrow> (nat \<Rightarrow> bool) \<Rightarrow> superblock \<Rightarrow> 'a fsst_scheme \<Rightarrow> bool" where
  "fs_ready d lz sb s \<longleftrightarrow> fsready d lz sb s \<and> i_geom sb lz \<and> tree_ok sb lz (blk s d) \<and> rd d s \<and> coh d sb {} s"

lemma fs_readyD:
  assumes "fs_ready d lz sb s"
  shows "fsready d lz sb s" "i_geom sb lz" "tree_ok sb lz (blk s d)" "rd d s" "coh d sb {} s"
    "getsuperblock d s = Some sb" "(d, b) \<notin> held s"
  using assms by (auto simp: fs_ready_def fsready_def)

lemma fsready_rstep:
  assumes "fsready d lz sb s" "rstep d s s'" "rd d s"
  shows "fsready d lz sb s'"
  using assms(1) rstepD(1,2) [OF assms(2)] rstep_superblock [OF assms(2,3)] by (simp add: fsready_def)

lemma fs_ready_rstep:
  assumes "fs_ready d lz sb s" "rstep d s s'" "rd d s'" "coh d sb {} s'"
  shows "fs_ready d lz sb s'"
  using assms fsready_rstep [OF fs_readyD(1) [OF assms(1)] assms(2) fs_readyD(4) [OF assms(1)]] rstepD(1) [OF assms(2)]
  by (simp add: fs_ready_def)

text \<open>A locked entry for a linked inode, as \<^verbatim>\<open>ilock\<close> leaves it.\<close>

lemma lock_entry:
  assumes F: "fs_ready d lz sb s" and n: "linked sb (blk s d) n" and ip: "ip < length (inodes s)" "i_match d n (inodes s ! ip)"
  shows "\<exists>s1 y. ilock (Some ip) s = Inr ((), s1) \<and> rd d s1 \<and> rstep d s s1 \<and> coh d sb {ip} s1 \<and> idents s1 = idents s
    \<and> length (inodes s1) = length (inodes s) \<and> y = inodes s1 ! ip \<and> i_match d n y \<and> i_valid y \<and> i_nlink y \<noteq> 0
    \<and> i_type y = di_type (dinode sb (blk s d) n) \<and> i_size y = i_size (dload sb (blk s d) n) \<and> i_addrs y = i_addrs (dload sb (blk s d) n)"
proof -
  note f = fs_readyD [OF F]
  let ?x = "inodes s ! ip"
  let ?y = "(di_load (dinode sb (blk s d) (i_inum ?x)) ?x)\<lparr>i_busy := True, i_valid := True\<rparr>"
  have m: "0 < i_ref ?x" "i_dev ?x = d" "i_inum ?x = n" using ip(2) by (auto simp: i_match_def)
  have B: "IBLOCK (i_inum ?x) sb < FSSIZE" using f(2) n m(3) by (auto simp: i_geom_def linked_def)
  from ilock_coh [OF f(5,4) refl ip(1) m(1,2) f(6) B f(7) refl] obtain s1 where
    s1: "ilock (Some ip) s = Inr ((), s1)" "rd d s1" "rstep d s s1" "coh d sb {ip} s1" "inodes s1 = (inodes s)[ip := ?y]"
      "idents s1 = idents s" by blast
  have y: "inodes s1 ! ip = ?y" "length (inodes s1) = length (inodes s)" using s1(5) ip(1) by simp_all
  have p: "i_match d n ?y" "i_valid ?y" "i_nlink ?y = di_nlink (dinode sb (blk s d) n)" "i_type ?y = di_type (dinode sb (blk s d) n)"
    "i_size ?y = i_size (dload sb (blk s d) n)" "i_addrs ?y = i_addrs (dload sb (blk s d) n)"
    using m by (simp_all add: i_match_def di_load_def dload_def)
  show ?thesis using s1 y p n unfolding linked_def by (intro exI [of _ s1] exI [of _ ?y]) metis
qed

lemma good_isdir:
  assumes g: "good_dir sb lz m n" and m: "m = blk s d" and F: "fsready d lz sb s"
    and y: "y = inodes s ! ip" "ip < length (inodes s)" "i_dev y = d" "i_type y = T_DIR"
      "i_size y = i_size (dload sb m n)" "i_addrs y = i_addrs (dload sb m n)"
  shows "isdir d s ip y" "fcontents m y = fcontents m (dload sb m n)"
proof -
  show "fcontents m y = fcontents m (dload sb m n)" by (rule fcontents_cong [OF y(5,6)])
  have w: "fwf sb lz m y" "fallocated m y" "i_size y \<le> MAXFILE * BSIZE" "i_size y mod 16 = 0"
    using g fwf_addrs [OF y(6), of sb lz m] fallocated_cong [OF y(5,6)] y(5) by (simp_all add: good_dir_def Let_def)
  show "isdir d s ip y"
    unfolding isdir_def using y w fallocated_readable [OF w(2,1) F m w(3)] by simp
qed

text \<open>The result of a walk that ended at the inode \<open>w\<close>, or nowhere: a pointer to an entry for it, and one
  more reference to it than the given \<open>R\<close>.\<close>

definition arrived :: "nat \<Rightarrow> (nat \<times> nat \<Rightarrow> int) \<Rightarrow> nat option \<Rightarrow> nat option \<Rightarrow> 'a fsst_scheme \<Rightarrow> bool" where
  "arrived d R w r s \<longleftrightarrow> (case w of None \<Rightarrow> r = None \<and> nrefs (idents s) = R
     | Some j \<Rightarrow> (\<exists>jp. r = Some jp \<and> jp < length (inodes s) \<and> i_match d j (inodes s ! jp)
         \<and> nrefs (idents s) = R((d, j) := R (d, j) + 1)))"

lemma arrived_Some: "arrived d R (Some j) (Some jp) s \<longleftrightarrow> jp < length (inodes s) \<and> i_match d j (inodes s ! jp)
    \<and> nrefs (idents s) = R((d, j) := R (d, j) + 1)"
  by (simp add: arrived_def)

lemma card_support:
  assumes "nrefs xs = R(k := R k + 1)" "\<And>h. 0 \<le> R h"
  shows "card {h. 0 < nrefs xs h} \<le> Suc (card {h. 0 < R h})"
proof -
  have "{h. 0 < nrefs xs h} = insert k {h. 0 < R h}" using assms(2) [of k] unfolding assms(1) by auto
  moreover have "finite {h. 0 < R h}"
    by (rule finite_subset [OF _ nrefs_finite [of xs]]) (auto simp: assms(1))
  ultimately show ?thesis by (simp add: card_insert_if)
qed

text \<open>One step of the walk: look the name up in a locked directory, release it, and hold what was found.\<close>

lemma walk_step:
  assumes F: "fsready d lz sb s" and g: "good_dir sb lz (blk s d) n" and r: "rd d s" and c: "coh d sb {ip} s"
    and y: "y = inodes s ! ip" "ip < length (inodes s)" "i_match d n y" "i_valid y" "i_nlink y \<noteq> 0" "i_type y = T_DIR"
      "i_size y = i_size (dload sb (blk s d) n)" "i_addrs y = i_addrs (dload sb (blk s d) n)"
    and R: "nrefs (idents s) = R((d, n) := R (d, n) + 1)" "\<And>h. 0 \<le> R h" "card {h. 0 < R h} + 2 \<le> length (inodes s)"
  shows "\<exists>q s1 s2. dirlookup devsw ip name s = Inr (q, s1) \<and> iunlockput1 ip direct s1 = Inr ((), s2)
    \<and> rd d s2 \<and> rstep d s s2 \<and> coh d sb {} s2 \<and> length (inodes s2) = length (inodes s)
    \<and> arrived d R (dfind (fcontents (blk s d) (dload sb (blk s d) n)) name) (map_option fst q) s2"
proof -
  let ?c = "fcontents (blk s d) (dload sb (blk s d) n)"
  have m: "0 < i_ref y" "i_dev y = d" "i_inum y = n" using y(3) by (auto simp: i_match_def)
  note D = good_isdir [OF g refl F y(1,2) m(2) y(6-8)]
  have card: "card {k. 0 < nrefs (idents s) k} < length (inodes s)" using card_support [OF R(1,2)] R(3) by simp
  from dirlookup_coh [OF c r D(1) m(1) y(4) card D(2) [symmetric], of devsw name] obtain s1 where
    1: "rstep d s s1" "rd d s1" "coh d sb {ip} s1" "keeps s s1" "case dfind ?c name of
      None \<Rightarrow> dirlookup devsw ip name s = Inr (None, s1) \<and> nrefs (idents s1) = nrefs (idents s)
    | Some n \<Rightarrow> (\<exists>j off. dirlookup devsw ip name s = Inr (Some (j, off), s1) \<and> j < length (inodes s1) \<and> i_match d n (inodes s1 ! j)
        \<and> nrefs (idents s1) = (nrefs (idents s))((d, n) := nrefs (idents s) (d, n) + 1))" by blast
  obtain q where q: "q > 0" "inodes s1 ! ip = y\<lparr>i_ref := q\<rparr>" "length (inodes s1) = length (inodes s)"
    using 1(4) y(1,2) m(1) unfolding keeps_def by auto
  let ?z = "y\<lparr>i_ref := q\<rparr>"
  have z: "?z = inodes s1 ! ip" "ip < length (inodes s1)" "0 < i_ref ?z" "i_valid ?z \<Longrightarrow> i_nlink ?z \<noteq> 0"
    "(d, n) = (i_dev ?z, i_inum ?z)" using q y(2,5) m by simp_all
  from iunlockput_coh [OF 1(3) z, of direct] obtain s2 where
    2: "iunlockput1 ip direct s1 = Inr ((), s2)" "rstep d s1 s2" "rd d s2 = rd d s1" "coh d sb {} s2"
      "inodes s2 = (inodes s1)[ip := ?z\<lparr>i_busy := False, i_ref := i_ref ?z - 1\<rparr>]"
      "nrefs (idents s2) = (nrefs (idents s1))((d, n) := nrefs (idents s1) (d, n) - 1)" by blast
  have st: "rstep d s s2" by (rule rstep_trans [OF 1(1) 2(2)])
  have l2: "length (inodes s2) = length (inodes s)" using 2(5) q(3) by simp
  show ?thesis
  proof (cases "dfind ?c name")
    case None
    then have "dirlookup devsw ip name s = Inr (None, s1)" "nrefs (idents s2) = R"
      using 1(5) 2(6) unfolding R(1) by (auto simp: fun_eq_iff)
    then show ?thesis using 1(2) 2 st l2 None by (auto simp: arrived_def)
  next
    case (Some h)
    then obtain j off where j: "dirlookup devsw ip name s = Inr (Some (j, off), s1)" "j < length (inodes s1)"
      "i_match d h (inodes s1 ! j)" "nrefs (idents s1) = (nrefs (idents s))((d, h) := nrefs (idents s) (d, h) + 1)"
      using 1(5) by auto
    have n2: "nrefs (idents s2) = R((d, h) := R (d, h) + 1)"
      unfolding 2(6) j(4) R(1) by (auto simp: fun_eq_iff)
    have "i_match d h (inodes s2 ! j)"
    proof (cases "j = ip")
      case True
      have h: "h = n" using j(3) m True q(2) by (simp add: i_match_def)
      have "nrefs (idents s1) (d, n) = q"
        using nrefs_nth [OF cohD(1) [OF 1(3)], of ip] q z(2) m by (simp add: ident_def)
      moreover have "nrefs (idents s1) (d, n) = R (d, n) + 2" unfolding j(4) R(1) h by simp
      ultimately have "q \<ge> 2" using R(2) [of "(d, n)"] by simp
      then show ?thesis using True h 2(5) z(2) m by (simp add: i_match_def)
    next
      case False
      then show ?thesis using 2(5) j(3) by simp
    qed
    then show ?thesis
      using 1(2) 2 st l2 j(1,2) n2 q(3) Some
      by (intro exI [of _ "Some (j, off)"] exI [of _ s1] exI [of _ s2]) (simp add: arrived_Some)
  qed
qed

lemma unlock_entry:
  assumes F: "fs_ready d lz sb s" and r: "rd d s1" and st: "rstep d s s1" and c: "coh d sb {ip} s1"
    and y: "y = inodes s1 ! ip" "ip < length (inodes s1)" "i_match d n y" "i_nlink y \<noteq> 0"
    and R: "nrefs (idents s1) = R((d, n) := R (d, n) + 1)"
  shows "\<exists>s2. iunlockput1 ip direct s1 = Inr ((), s2) \<and> fs_ready d lz sb s2 \<and> rstep d s s2
    \<and> length (inodes s2) = length (inodes s1) \<and> arrived d R None None s2"
    "fs_ready d lz sb (iunlock (Some ip) s1) \<and> rstep d s (iunlock (Some ip) s1)
    \<and> length (inodes (iunlock (Some ip) s1)) = length (inodes s1) \<and> arrived d R (Some n) (Some ip) (iunlock (Some ip) s1)"
proof -
  have m: "0 < i_ref y" "(d, n) = (i_dev y, i_inum y)" using y(3) by (auto simp: i_match_def)
  from iunlockput_coh [OF c y(1,2) m(1) y(4) m(2), of direct] obtain s2 where
    2: "iunlockput1 ip direct s1 = Inr ((), s2)" "rstep d s1 s2" "rd d s2 = rd d s1" "coh d sb {} s2"
      "inodes s2 = (inodes s1)[ip := y\<lparr>i_busy := False, i_ref := i_ref y - 1\<rparr>]"
      "nrefs (idents s2) = (nrefs (idents s1))((d, n) := nrefs (idents s1) (d, n) - 1)" by blast
  have "nrefs (idents s2) = R" unfolding 2(6) R by (auto simp: fun_eq_iff)
  moreover have st2: "rstep d s s2" by (rule rstep_trans [OF st 2(2)])
  moreover have "fs_ready d lz sb s2" by (rule fs_ready_rstep [OF F st2]) (use 2(3,4) r in simp_all)
  ultimately show "\<exists>s2. iunlockput1 ip direct s1 = Inr ((), s2) \<and> fs_ready d lz sb s2 \<and> rstep d s s2
    \<and> length (inodes s2) = length (inodes s1) \<and> arrived d R None None s2"
    using 2(1,5) by (intro exI [of _ s2]) (simp add: arrived_def)
  note u = iunlock_coh [OF c y(1,2) m(1) refl]
  have st3: "rstep d s (iunlock (Some ip) s1)" by (rule rstep_trans [OF st u(1)])
  moreover have "fs_ready d lz sb (iunlock (Some ip) s1)" by (rule fs_ready_rstep [OF F st3]) (use u(2,3) r in simp_all)
  moreover have "i_match d n (inodes (iunlock (Some ip) s1) ! ip)" using u(4) y(2,3) by (simp add: i_match_def)
  moreover have "nrefs (idents (iunlock (Some ip) s1)) = R((d, n) := R (d, n) + 1)" unfolding u(5) R ..
  ultimately show "fs_ready d lz sb (iunlock (Some ip) s1) \<and> rstep d s (iunlock (Some ip) s1)
    \<and> length (inodes (iunlock (Some ip) s1)) = length (inodes s1) \<and> arrived d R (Some n) (Some ip) (iunlock (Some ip) s1)"
    using y(2) u(4) by (simp add: arrived_Some)
qed

lemma put_entry:
  assumes F: "fs_ready d lz sb s" and n: "linked sb (blk s d) n" and y: "ip < length (inodes s)" "i_match d n (inodes s ! ip)"
    and R: "nrefs (idents s) = R((d, n) := R (d, n) + 1)"
  shows "\<exists>s'. iput1 ip direct s = Inr ((), s') \<and> fs_ready d lz sb s' \<and> rstep d s s' \<and> length (inodes s') = length (inodes s)
    \<and> arrived d R None None s'"
proof -
  let ?x = "inodes s ! ip"
  have m: "0 < i_ref ?x" "(d, n) = (i_dev ?x, i_inum ?x)" using y(2) by (auto simp: i_match_def)
  note f = fs_readyD [OF F]
  have "slot_ok d sb (blk s d) {} ip ?x" by (rule cohD(2) [OF f(5) y(1) m(1)])
  then have "i_valid ?x \<Longrightarrow> i_nlink ?x \<noteq> 0" using loaded_dir(2) [of d sb "blk s d" "{}" ip ?x] m(2) n by (simp add: linked_def)
  from iput_coh [OF f(5) refl y(1) m(1) this m(2), of direct] obtain s' where
    s': "iput1 ip direct s = Inr ((), s')" "rstep d s s'" "rd d s' = rd d s" "coh d sb {} s'"
      "inodes s' = (inodes s)[ip := ?x\<lparr>i_ref := i_ref ?x - 1\<rparr>]"
      "nrefs (idents s') = (nrefs (idents s))((d, n) := nrefs (idents s) (d, n) - 1)" by blast
  have "nrefs (idents s') = R" unfolding s'(6) R by (auto simp: fun_eq_iff)
  moreover have "fs_ready d lz sb s'" by (rule fs_ready_rstep [OF F s'(2)]) (use s'(3,4) f(4) in simp_all)
  ultimately show ?thesis using s'(1,2,5) by (intro exI [of _ s']) (simp add: arrived_def)
qed

definition walk_post :: "nat \<Rightarrow> (nat \<Rightarrow> bool) \<Rightarrow> superblock \<Rightarrow> (nat \<times> nat \<Rightarrow> int) \<Rightarrow> bool \<Rightarrow> bytes list \<Rightarrow> nat option \<Rightarrow> 'a fsst_scheme
    \<Rightarrow> nat option \<Rightarrow> bytes \<Rightarrow> 'a fsst_scheme \<Rightarrow> bool" where
  "walk_post d lz sb R parent es w s r nm s' \<longleftrightarrow> fs_ready d lz sb s' \<and> rstep d s s' \<and> length (inodes s') = length (inodes s)
     \<and> arrived d R w r s' \<and> (parent \<and> w \<noteq> None \<longrightarrow> take DIRSIZ (cstr nm) = take DIRSIZ (last es))"

lemma namex_loop_ok:
  assumes "fs_ready d lz sb s" "linked sb (blk s d) n" "ip < length (inodes s)" "i_match d n (inodes s ! ip)"
    and "nrefs (idents s) = R((d, n) := R (d, n) + 1)" "\<And>h. 0 \<le> R h" "card {h. 0 < R h} + 2 \<le> length (inodes s)"
    and "length name = DIRSIZ"
  shows "\<exists>r nm s'. namex_loop devsw (Some ip) path parent name direct s = Inr ((r, nm), s')
    \<and> walk_post d lz sb R parent (elems path) (rwalk sb (blk s d) parent n (elems path)) s r nm s'"
  using assms
proof (induction "length path" arbitrary: path name ip n s rule: less_induct)
  case less
  note f = fs_readyD [OF less.prems(1)]
  let ?m = "blk s d"
  show ?case
  proof (cases "elems path")
    case Nil
    then have sk: "skipelem path name = None" using skipelem_elems [OF less.prems(8), of path] by simp
    show ?thesis
    proof (cases parent)
      case True
      from put_entry [OF less.prems(1-5), of direct] obtain s' where
        "iput1 ip direct s = Inr ((), s')" "fs_ready d lz sb s'" "rstep d s s'" "length (inodes s') = length (inodes s)"
        "arrived d R None None s'" by blast
      then show ?thesis using sk True Nil by (subst namex_loop.simps) (simp add: walk_post_def)
    next
      case False
      then show ?thesis using sk Nil less.prems by (subst namex_loop.simps) (simp add: walk_post_def arrived_Some)
    qed
  next
    case (Cons e es)
    from skipelem_elems [OF less.prems(8), of path] Cons obtain rest nm where
      sk: "skipelem path name = Some (rest, nm)" "elems rest = es" "hd0 rest = 0 \<longleftrightarrow> es = []" "length nm = DIRSIZ"
        "take DIRSIZ (cstr nm) = take DIRSIZ e" "cstr e = e" by auto
    from lock_entry [OF less.prems(1-4)] obtain s1 y where
      1: "ilock (Some ip) s = Inr ((), s1)" "rd d s1" "rstep d s s1" "coh d sb {ip} s1" "idents s1 = idents s"
        "length (inodes s1) = length (inodes s)" "y = inodes s1 ! ip" "i_match d n y" "i_valid y" "i_nlink y \<noteq> 0"
        "i_type y = di_type (dinode sb ?m n)" "i_size y = i_size (dload sb ?m n)" "i_addrs y = i_addrs (dload sb ?m n)" by blast
    have b1: "blk s1 = blk s" by (rule rstepD(1) [OF 1(3)])
    have ip1: "ip < length (inodes s1)" using less.prems(3) 1(6) by simp
    have R1: "nrefs (idents s1) = R((d, n) := R (d, n) + 1)" unfolding 1(5) by (rule less.prems(5))
    note U = unlock_entry [OF less.prems(1) 1(2,3,4,7) ip1 1(8,10) R1]
    show ?thesis
    proof (cases "i_type y = T_DIR")
      case False
      from U(1) [of direct] obtain s2 where "iunlockput1 ip direct s1 = Inr ((), s2)" "fs_ready d lz sb s2" "rstep d s s2"
        "length (inodes s2) = length (inodes s1)" "arrived d R None None s2" by blast
      then show ?thesis
        using sk 1(1,6,7,11) Cons False by (subst namex_loop.simps) (simp add: walk_post_def)
    next
      case dir: True
      show ?thesis
      proof (cases "parent \<and> es = []")
        case True
        then show ?thesis
          using sk 1(1,6,7,11) Cons dir U(2) by (subst namex_loop.simps) (simp add: walk_post_def)
      next
        case step: False
        have g: "good_dir sb lz (blk s1 d) n" using f(3) less.prems(2) dir 1(11) b1 by (simp add: tree_ok_def)
        have F1: "fsready d lz sb s1" by (rule fsready_rstep [OF f(1) 1(3) f(4)])
        let ?w = "dfind (fcontents (blk s1 d) (dload sb (blk s1 d) n)) nm"
        have we: "dfind (fcontents ?m (dload sb ?m n)) e = ?w"
          unfolding b1 by (rule dfind_cong) (use sk(5,6) in simp)
        have card: "card {h. 0 < R h} + 2 \<le> length (inodes s1)" using less.prems(7) 1(6) by simp
        from walk_step [where name = nm and devsw = devsw and direct = direct,
            OF F1 g 1(2,4,7) ip1 1(8-10) dir 1(12,13) [folded b1] R1 less.prems(6) card] obtain q s2 s3 where
          2: "dirlookup devsw ip nm s1 = Inr (q, s2)" "iunlockput1 ip direct s2 = Inr ((), s3)" "rd d s3" "rstep d s1 s3"
            "coh d sb {} s3" "length (inodes s3) = length (inodes s1)" "arrived d R ?w (map_option fst q) s3" by blast
        have st: "rstep d s s3" by (rule rstep_trans [OF 1(3) 2(4)])
        have F3: "fs_ready d lz sb s3" by (rule fs_ready_rstep [OF less.prems(1) st 2(3,5)])
        have b3: "blk s3 = blk s" by (rule rstepD(1) [OF st])
        show ?thesis
        proof (cases ?w)
          case None
          then have "q = None" using 2(7) by (simp add: arrived_def)
          then have "namex_loop devsw (Some ip) path parent name direct s = Inr ((None, nm), s3)"
            using sk(1,3) 1(1,7) dir step 2(1,2) by (subst namex_loop.simps) auto
          moreover have "rwalk sb ?m parent n (elems path) = None" using Cons 1(11) dir step we None by auto
          ultimately show ?thesis using F3 st 2(6,7) 1(6) None by (simp add: walk_post_def arrived_def)
        next
          case (Some j)
          then obtain jp off where q: "q = Some (jp, off)" and a: "jp < length (inodes s3)" "i_match d j (inodes s3 ! jp)"
            "nrefs (idents s3) = R((d, j) := R (d, j) + 1)" using 2(7) by (auto simp: arrived_def)
          have lj: "linked sb (blk s3 d) j"
            using dfind_SomeD [OF Some] g unfolding b1 b3 good_dir_def Let_def by blast
          have card3: "card {h. 0 < R h} + 2 \<le> length (inodes s3)" using less.prems(7) 1(6) 2(6) by simp
          from less.hyps [OF skipelem_shorter [OF sk(1)] F3 lj a less.prems(6) card3 sk(4)] obtain r nm' s' where
            3: "namex_loop devsw (Some jp) rest parent nm direct s3 = Inr ((r, nm'), s')"
              "walk_post d lz sb R parent (elems rest) (rwalk sb (blk s3 d) parent j (elems rest)) s3 r nm' s'" by blast
          have "namex_loop devsw (Some ip) path parent name direct s = Inr ((r, nm'), s')"
            using sk(1,3) 1(1,7) dir step 2(1,2) q 3(1) by (subst namex_loop.simps) auto
          moreover have "rwalk sb ?m parent n (elems path) = rwalk sb ?m parent j es" using Cons 1(11) dir step we Some by auto
          moreover have "es = [] \<Longrightarrow> \<not> parent" using step by simp
          ultimately show ?thesis
            using 3(2) rstep_trans [OF st] 1(6) 2(6) unfolding sk(2) b3 Cons walk_post_def by auto
        qed
      qed
    qed
  qed
qed

text \<open>
  C4. Path resolution is correct and leaks no reference. On a file system whose directories are well
  formed, with no other lock held and two free entries in the inode cache, \<^verbatim>\<open>namex\<close> returns for every
  path: nil if the walk of the path's elements through the directories on disk fails, and otherwise
  a cache entry of the inode where the walk ends (its parent, with the last element in the name
  buffer, when the parent is asked for). In the first case every reference count is as before, in
  the second exactly the returned inode has one more. The disk is not changed.
\<close>

theorem namex_resolves:
  assumes F: "fs_ready d lz sb s" and st: "namex_start path s = Some ip" "ip < length (inodes s)" "i_match d n (inodes s ! ip)"
    and n: "linked sb (blk s d) n" and c: "card {k. 0 < nrefs (idents s) k} + 2 \<le> length (inodes s)" and l: "length name = DIRSIZ"
  shows "\<exists>r nm s'. namex devsw path parent name direct s = Inr ((r, nm), s') \<and> blk s' = blk s
    \<and> (case rwalk sb (blk s d) parent n (elems path) of
         None \<Rightarrow> r = None \<and> nrefs (idents s') = nrefs (idents s)
       | Some j \<Rightarrow> (\<exists>jp. r = Some jp \<and> jp < length (inodes s') \<and> i_match d j (inodes s' ! jp)
           \<and> nrefs (idents s') = (nrefs (idents s))((d, j) := nrefs (idents s) (d, j) + 1)
           \<and> (parent \<longrightarrow> take DIRSIZ (cstr nm) = take DIRSIZ (last (elems path)))))"
proof -
  let ?s = "upd_inode ip (\<lambda>x. x\<lparr>i_ref := i_ref x + 1\<rparr>) s" and ?R = "nrefs (idents s)"
  note f = fs_readyD [OF F]
  have m: "0 < i_ref (inodes s ! ip)" "0 \<le> i_ref (inodes s ! ip) + 1" "(d, n) = (i_dev (inodes s ! ip), i_inum (inodes s ! ip))"
    using st(3) by (auto simp: i_match_def)
  note u = coh_ref [OF f(5) st(2) m(1,2) refl m(3)]
  have F': "fs_ready d lz sb ?s" by (rule fs_ready_rstep [OF F rstep_upd]) (use f(4) u(1) in simp_all)
  have p: "linked sb (blk ?s d) n" "ip < length (inodes ?s)" "i_match d n (inodes ?s ! ip)"
    "card {k. 0 < ?R k} + 2 \<le> length (inodes ?s)" using n st(2,3) c by (simp_all add: i_match_def)
  from namex_loop_ok [OF F' p(1-3) u(2) nrefs_nonneg p(4) l, of devsw path parent direct] obtain r nm s' where
    r: "namex_loop devsw (Some ip) path parent name direct ?s = Inr ((r, nm), s')"
      "walk_post d lz sb ?R parent (elems path) (rwalk sb (blk ?s d) parent n (elems path)) ?s r nm s'" by blast
  have "namex devsw path parent name direct s = Inr ((r, nm), s')"
    using r(1) st(1) by (simp add: namex_def idup_def)
  moreover have "blk s' = blk s" using r(2) rstepD(1) [of d ?s s'] by (simp add: walk_post_def)
  ultimately show ?thesis
    using r(2) unfolding walk_post_def arrived_def by (intro exI [of _ r] exI [of _ nm] exI [of _ s']) (auto split: option.splits)
qed

section \<open>Adding a name\<close>

lemma dirlink_loop_ok:
  assumes "rd d s" "isdir d s dp x" "es = ents (fcontents (blk s d) x)" "k \<le> length es"
  shows "\<exists>s'. lstep d [] s s' \<and> rd d s' \<and> dirlink_loop devsw dp (map ((*) 16) [k..<length es]) (16 * length es) s
    = Inr (16 * (case find_index (\<lambda>e. de_inum e = 0) (drop k es) of Some j \<Rightarrow> k + j | None \<Rightarrow> length es), s')"
  using assms
proof (induction "length es - k" arbitrary: k s)
  case 0
  then show ?case using lstep_refl by auto
next
  case (Suc n)
  have k: "k < length es" "n = length es - Suc k" using Suc.hyps(2) by simp_all
  then have "k < i_size x div 16" using Suc.prems(3) by simp
  from dir_read [OF Suc.prems(1,2) this, of devsw] obtain s1 where
    1: "readi devsw dp (16 * k) 16 s = Inr ((16, es ! k), s1)" "lstep d [] s s1" "rd d s1"
    using Suc.prems(3) by auto
  have e1: "es = ents (fcontents (blk s1 d) x)" using Suc.prems(3) lstepD(4) [OF 1(2)] by simp
  have dr: "drop k es = es ! k # drop (Suc k) es" "[k..<length es] = k # [Suc k..<length es]"
    using k(1) by (simp_all add: Cons_nth_drop_Suc upt_conv_Cons)
  show ?case
  proof (cases "de_inum (es ! k) = 0")
    case True
    then show ?thesis using 1 unfolding dr by (intro exI [of _ s1]) simp
  next
    case False
    from Suc.hyps(1) [OF k(2) 1(3) isdir_lstep [OF Suc.prems(2) 1(2)] e1] k(1) obtain s2 where
      2: "lstep d [] s1 s2" "rd d s2" "dirlink_loop devsw dp (map ((*) 16) [Suc k..<length es]) (16 * length es) s1
        = Inr (16 * (case find_index (\<lambda>e. de_inum e = 0) (drop (Suc k) es) of Some j \<Rightarrow> Suc k + j | None \<Rightarrow> length es), s2)" by auto
    have "find_index (\<lambda>e. de_inum e = 0) (drop k es) = map_option Suc (find_index (\<lambda>e. de_inum e = 0) (drop (Suc k) es))"
      using False unfolding dr(1) by simp
    moreover have "dirlink_loop devsw dp (map ((*) 16) [k..<length es]) (16 * length es) s
      = dirlink_loop devsw dp (map ((*) 16) [Suc k..<length es]) (16 * length es) s1"
      unfolding dr(2) using 1(1) False by simp
    moreover have "lstep d [] s s2" using lstep_trans [OF 1(2) 2(1)] by simp
    ultimately show ?thesis using 2(2,3) by (intro exI [of _ s2]) (simp split: option.split)
  qed
qed

lemma nblk_entry: "nblk (16 * k) 16 = 1"
proof -
  have m: "16 * k mod BSIZE = 16 * (k mod 32)" by (simp add: BSIZE_def mult_mod_right)
  have "k mod 32 < 32" by simp
  then have "16 * k mod BSIZE + 16 \<le> BSIZE" unfolding m by (simp add: BSIZE_def)
  then have "(16 * k mod BSIZE + 16 + BSIZE - 1) div BSIZE = 1" by (intro div_nat_eqI) (auto simp: BSIZE_def)
  then show ?thesis by (simp add: nblk_def)
qed

lemma dirlink_new:
  assumes t: "tx d lz (Suc (k + 7)) s" and F: "fsready d lz sb s" and G: "fs_geom sb lz"
    and x: "isdir d s dp x" "i_inum x < sb_ninodes sb" and w: "fwf sb lz (blk s d) x" "fallocated (blk s d) x"
    and sz: "i_size x + 16 \<le> MAXFILE * BSIZE" "2 \<le> nfree sb (blk s d)" and c: "c = fcontents (blk s d) x"
    and new: "dlook c name = None" and inum: "inum < 65536"
  shows "\<exists>x1 s1. dirlink devsw dp name inum s = Inr (0, s1) \<and> tx d lz k s1
    \<and> writei_post d lz sb dp x (16 * dslot c) (de_make name inum) s x1 s1 \<and> fcontents (blk s1 d) x1 = dins c name inum"
proof -
  note D = isdirD [OF x(1)]
  note r = tx_rd [OF t]
  from dirlookup_ok [OF r x(1) c, of devsw name] new obtain s1 where
    1: "dirlookup devsw dp name s = Inr (None, s1)" "lstep d [] s s1" "rd d s1" by auto
  note x1 = isdir_lstep [OF x(1) 1(2)]
  have e1: "blk s1 = blk s" "inodes s1 = inodes s" "held s1 = held s"
    using lstepD(4,5) [OF 1(2)] lstep_inodes(1) [OF 1(2)] by auto
  let ?es = "ents (fcontents (blk s1 d) x)"
  from dirlink_loop_ok [OF 1(3) x1 refl, of 0 devsw] obtain s2 where
    2: "lstep d [] s1 s2" "rd d s2" "dirlink_loop devsw dp (map ((*) 16) [0..<length ?es]) (16 * length ?es) s1 = Inr (16 * dslot c, s2)"
    unfolding dslot_def c e1(1) by (auto split: option.splits)
  have st: "lstep d [] s s2" using lstep_trans [OF 1(2) 2(1)] by simp
  have e2: "blk s2 = blk s" "inodes s2 = inodes s" "held s2 = held s"
    using lstepD(4,5) [OF st] lstep_inodes(1) [OF st] by auto
  have t2: "tx d lz (Suc (k + 7 * nblk (16 * dslot c) (length (de_make name inum)))) s2"
    using tx_lstep_nil [OF t st 2(2)] by (simp add: nblk_entry)
  have F2: "fsready d lz sb s2" using F e2(1,3) lstep_superblock [OF st txD(3) [OF t]] by (simp add: fsready_def)
  have off: "16 * dslot c \<le> i_size x" using dslot_le [of c] D(6) unfolding c by (simp; presburger)
  have q: "x = inodes s2 ! dp" "dp < length (inodes s2)" "i_type x \<noteq> T_DEV" using D(1,2,4) e2(2) by (simp_all add: T_DIR_def T_DEV_def)
  have q2: "16 * dslot c + length (de_make name inum) \<le> MAXFILE * BSIZE"
    "2 * nblk (16 * dslot c) (length (de_make name inum)) \<le> nfree sb (blk s2 d)"
    using off sz e2(1) by (simp_all add: nblk_entry)
  from writei_ok [OF t2 F2 G q(1,2) D(3) q(3) x(2) w [folded e2(1)] off D(5) q2, of devsw] obtain x3 s3 where
    3: "writei devsw dp (de_make name inum) (16 * dslot c) 16 s2 = Inr (16, s3)" "tx d lz k s3"
      "writei_post d lz sb dp x (16 * dslot c) (de_make name inum) s2 x3 s3" by auto
  have 4: "writei_post d lz sb dp x (16 * dslot c) (de_make name inum) s x3 s3"
    using 3(3) unfolding writei_post_def e2 .
  have "dir_offs (i_size (inodes s1 ! dp)) = map ((*) 16) [0..<length ?es]"
    using dir_offs_ents [OF D(6), of "blk s1 d"] D(1) e1(2) by simp
  then have "dirlink devsw dp name inum s = Inr (0, s3)"
    using 1(1) 2(3) 3(1) inum by (simp add: dirlink_def Let_def)
  moreover have "fcontents (blk s3 d) x3 = dins c name inum" using 4 unfolding writei_post_def dins_def c by blast
  ultimately show ?thesis using 3(2) 4 by blast
qed

text \<open>
  C7. Adding a name to a directory is updating a map. In a transaction, with the directory locked and
  valid and with room for one more entry: if the name is there (up to its first 14 bytes, which is what
  \<^verbatim>\<open>namecmp\<close> compares), \<^verbatim>\<open>dirlink\<close> returns \<open>-1\<close>, the disk is unchanged and so is every reference
  count. Otherwise it returns 0, and the directory then maps the name to the given inode and every
  other name to what it was mapped to before; the directory is well formed again and the blocks of
  other files are unchanged.
\<close>

theorem dirlink_updates_map:
  assumes t: "tx d lz (Suc (k + 7)) s" and F: "fsready d lz sb s" and G: "fs_geom sb lz"
    and c: "coh d sb {dp} s" and g: "good_dir sb lz (blk s d) n" "n < sb_ninodes sb"
    and x: "x = inodes s ! dp" "dp < length (inodes s)" "i_match d n x" "i_valid x" "i_type x = T_DIR"
    and sz: "i_size x + 16 \<le> MAXFILE * BSIZE" "2 \<le> nfree sb (blk s d)" and i: "0 < inum" "inum < 65536"
    and r: "card {h. 0 < nrefs (idents s) h} < length (inodes s)"
  shows "if dfind (fcontents (blk s d) x) name \<noteq> None
    then \<exists>s1. dirlink devsw dp name inum s = Inr (-1, s1) \<and> blk s1 = blk s \<and> nrefs (idents s1) = nrefs (idents s)
    else \<exists>x1 s1. dirlink devsw dp name inum s = Inr (0, s1) \<and> inodes s1 = (inodes s)[dp := x1]
      \<and> (\<forall>nm. dfind (fcontents (blk s1 d) x1) nm = (if namecmp nm name = 0 then Some inum else dfind (fcontents (blk s d) x) nm))
      \<and> fwf sb lz (blk s1 d) x1 \<and> fallocated (blk s1 d) x1 \<and> i_size x1 mod 16 = 0
      \<and> (\<forall>b. datab sb lz (blk s d) b \<longrightarrow> \<not> own (blk s d) x b \<longrightarrow> blk s1 d b = blk s d b)"
proof -
  let ?m = "blk s d" and ?c = "fcontents (blk s d) x"
  have m: "0 < i_ref x" "i_dev x = d" "i_inum x = n" using x(3) by (auto simp: i_match_def)
  have so: "slot_ok d sb ?m {dp} dp x" using cohD(2) [OF c x(2)] x(1) m(1) by simp
  then have y: "i_size x = i_size (dload sb ?m n)" "i_addrs x = i_addrs (dload sb ?m n)"
    using m x(4) unfolding slot_ok_def di_load_fix by (simp_all add: dload_def di_load_def)
  note D = good_isdir [OF g(1) refl F x(1,2) m(2) x(5) y]
  show ?thesis
  proof (cases "dfind ?c name")
    case (Some j)
    from dirlookup_coh [OF c tx_rd [OF t] D(1) m(1) x(4) r refl, of devsw name] Some obtain s1 jp off where
      1: "rstep d s s1" "coh d sb {dp} s1" "dirlookup devsw dp name s = Inr (Some (jp, off), s1)"
        "jp < length (inodes s1)" "i_match d j (inodes s1 ! jp)"
        "nrefs (idents s1) = (nrefs (idents s))((d, j) := nrefs (idents s) (d, j) + 1)" by auto
    have b1: "blk s1 = blk s" by (rule rstepD(1) [OF 1(1)])
    have lj: "linked sb ?m j" using dfind_SomeD [OF Some] g(1) D(2) unfolding good_dir_def Let_def by metis
    let ?z = "inodes s1 ! jp"
    have z: "0 < i_ref ?z" "(d, j) = (i_dev ?z, i_inum ?z)" using 1(5) by (auto simp: i_match_def)
    have "i_valid ?z \<Longrightarrow> i_nlink ?z \<noteq> 0"
      using loaded_dir(2) [OF cohD(2) [OF 1(2,4) z(1)]] z(2) lj b1 by (simp add: linked_def)
    from iput_coh [OF 1(2) refl 1(4) z(1) this z(2), of False] obtain s2 where
      2: "iput1 jp False s1 = Inr ((), s2)" "rstep d s1 s2"
        "nrefs (idents s2) = (nrefs (idents s1))((d, j) := nrefs (idents s1) (d, j) - 1)" by blast
    have "nrefs (idents s2) = nrefs (idents s)" unfolding 2(3) 1(6) by (auto simp: fun_eq_iff)
    moreover have "dirlink devsw dp name inum s = Inr (-1, s2)" using 1(3) 2(1) by (simp add: dirlink_def iput_def)
    ultimately show ?thesis using Some rstepD(1) [OF 2(2)] b1 by simp
  next
    case None
    then have new: "dlook ?c name = None" by (simp add: dfind_def)
    have w: "fwf sb lz ?m x" "fallocated ?m x"
      using g(1) fwf_addrs [OF y(2), of sb lz ?m] fallocated_cong [OF y] by (simp_all add: good_dir_def Let_def)
    have l: "length ?c mod 16 = 0" using isdirD(6) [OF D(1)] by simp
    from dirlink_new [OF t F G D(1) _ w sz refl new i(2), of devsw] m(3) g(2) obtain x1 s1 where
      1: "dirlink devsw dp name inum s = Inr (0, s1)" "writei_post d lz sb dp x (16 * dslot ?c) (de_make name inum) s x1 s1"
        "fcontents (blk s1 d) x1 = dins ?c name inum" by blast
    have p: "inodes s1 = (inodes s)[dp := x1]" "i_size x1 = max (i_size x) (16 * dslot ?c + 16)" "fwf sb lz (blk s1 d) x1"
      "fallocated (blk s1 d) x1" "\<forall>b. datab sb lz ?m b \<longrightarrow> \<not> own ?m x b \<longrightarrow> blk s1 d b = ?m b"
      using 1(2) unfolding writei_post_def length_de_make by blast+
    have "i_size x1 mod 16 = 0" using isdirD(6) [OF D(1)] unfolding p(2) max_def by simp
    then have "dirlink devsw dp name inum s = Inr (0, s1) \<and> inodes s1 = (inodes s)[dp := x1]
      \<and> (\<forall>nm. dfind (fcontents (blk s1 d) x1) nm = (if namecmp nm name = 0 then Some inum else dfind ?c nm))
      \<and> fwf sb lz (blk s1 d) x1 \<and> fallocated (blk s1 d) x1 \<and> i_size x1 mod 16 = 0
      \<and> (\<forall>b. datab sb lz ?m b \<longrightarrow> \<not> own ?m x b \<longrightarrow> blk s1 d b = ?m b)"
      using 1(1) p dfind_dins(3) [OF l i new] unfolding 1(3) by blast
    then show ?thesis using None by auto
  qed
qed

section \<open>An example tree\<close>

text \<open>The example disk with a root directory in block 58 (indirect block 57) that holds \<^verbatim>\<open>.\<close>, \<^verbatim>\<open>..\<close> and the
  empty file \<^verbatim>\<open>a\<close>, inode 2.\<close>

definition dino :: "int \<Rightarrow> int \<Rightarrow> nat \<Rightarrow> nat \<Rightarrow> bytes" where
  "dino ty nl sz a = le_s16 ty @ replicate 8 0 @ le_s16 nl @ le32 sz @ le32 a @ replicate 44 0"

definition img2 :: "nat \<Rightarrow> bytes" where
  "img2 b = (if b = 50 then replicate 8 255 @ replicate 504 0
     else if b = 40 then replicate 64 0 @ dino 1 1 48 57 @ dino 2 1 0 0 @ replicate 320 0
     else if b = 57 then le32 58 @ replicate 508 0
     else if b = 58 then de_make (bytes_of ''.'') 1 @ de_make (bytes_of ''..'') 1 @ de_make (bytes_of ''a'') 2 @ replicate 464 0
     else replicate 512 0)"

lemma img2_ok: "length (img2 b) = BSIZE" "hdr_n (img2 2) = 0"
  by (simp_all add: img2_def BSIZE_def dino_def hdr_n_def slice_def unle32_def)

lemma used2:
  assumes "b < 100"
  shows "used sb1 img2 b \<longleftrightarrow> b < 64"
proof -
  have n: "b mod 8 < 8" by simp
  have a: "(255 :: u8) = - 1" by simp
  have f: "bit (255 :: u8) (b mod 8)" unfolding a using n by simp
  have "img2 50 ! (b div 8) = (if b div 8 < 8 then 255 else 0)"
    using assms by (auto simp: img2_def nth_append)
  moreover have "BBLOCK b sb1 = 50" "b mod BPB = b" using assms by (simp_all add: BBLOCK_def BPB_def sb1_def)
  moreover have "b div 8 < 8 \<longleftrightarrow> b < 64" by auto
  ultimately show ?thesis using f by (simp add: used_def bm_bit_def)
qed

lemma dinode2:
  "dinode sb1 img2 1 = dino 1 1 48 57" "dinode sb1 img2 2 = dino 2 1 0 0"
  "n \<noteq> 1 \<Longrightarrow> n \<noteq> 2 \<Longrightarrow> n < 64 \<Longrightarrow> dinode sb1 img2 n = replicate 64 0"
proof -
  show "dinode sb1 img2 1 = dino 1 1 48 57" "dinode sb1 img2 2 = dino 2 1 0 0"
    by (simp_all add: dinode_def img2_def di_at_def IBLOCK_def IPB_def sb1_def slice_def dino_def)
  assume n: "n \<noteq> 1" "n \<noteq> 2" "n < 64"
  show "dinode sb1 img2 n = replicate 64 0"
  proof (cases "n < 8")
    case True
    then have at: "dinode sb1 img2 n = slice (n * 64) 64 (img2 40)" by (simp add: dinode_def di_at_def IBLOCK_def IPB_def sb1_def)
    let ?p = "replicate 64 0 @ dino 1 1 48 57 @ dino 2 1 0 0"
    have l: "length ?p = 192" by (simp add: dino_def)
    have i: "img2 40 = ?p @ replicate 320 0" by (simp add: img2_def)
    show ?thesis
    proof (cases "n = 0")
      case True
      then show ?thesis unfolding at i by (simp add: slice_def)
    next
      case False
      then have "192 \<le> n * 64" "n * 64 + 64 \<le> 512" using n \<open>n < 8\<close> by linarith+
      then show ?thesis unfolding at i slice_def drop_append l by (simp add: dino_def)
    qed
  next
    case False
    then have b: "IBLOCK n sb1 \<noteq> 40" "IBLOCK n sb1 < 48" using n by (auto simp: IBLOCK_def IPB_def sb1_def)
    then have "img2 (IBLOCK n sb1) = replicate 512 0" by (simp add: img2_def)
    then show ?thesis using di_slot [of n] by (simp add: dinode_def di_at_def slice_def BSIZE_def)
  qed
qed

lemma di_dino:
  "di_type (dino 1 1 48 57) = 1" "di_nlink (dino 1 1 48 57) = 1" "di_size (dino 1 1 48 57) = 48"
  "di_addrs (dino 1 1 48 57) = 57 # replicate 11 0" "di_type (dino 2 1 0 0) = 2" "di_nlink (dino 2 1 0 0) = 1"
  "di_nlink (replicate 64 0) = 0"
  by (simp_all add: dino_def di_type_def di_nlink_def di_size_def di_addrs_def slice_def NDIRECT_def upt_rec
      s16_def le_s16_def u16of_def le16_def unle16_def le32_def unle32_def)
    (simp add: eval_nat_numeral)

lemma root2: "i_size (dload sb1 img2 1) = 48" "i_addrs (dload sb1 img2 1) = 57 # replicate 11 0"
  "i_type (dload sb1 img2 1) = T_DIR"
  unfolding dload_def dinode2(1) by (simp_all add: di_load_def di_dino T_DIR_def)

lemmas root2s = root2 [unfolded One_nat_def]

lemma fblk2:
  assumes "k < MAXFILE"
  shows "fblk img2 (dload sb1 img2 1) k = (if k = 0 then 58 else 0)"
proof (cases "k < 128")
  case True
  then have "k div NINDIRECT = 0" "k mod NINDIRECT = k" by (simp_all add: NINDIRECT_def)
  then have "fblk img2 (dload sb1 img2 1) k = id_get k (img2 57)" by (simp add: fblk_def root2s Let_def)
  moreover have "id_get k (img2 57) = (if k = 0 then 58 else 0)"
  proof (cases "k = 0")
    case False
    then have "slice (4 * k) 4 (img2 57) = replicate 4 0" using True by (simp add: img2_def slice_def)
    moreover have "unle32 (replicate 4 0) = 0" by (simp add: unle32_def)
    ultimately show ?thesis using False unfolding id_get_def by simp
  qed (simp add: id_get_def img2_def slice_def)
  ultimately show ?thesis by simp
next
  case False
  then have "k div NINDIRECT \<noteq> 0" "k div NINDIRECT < 12" using div_NINDIRECT [OF assms] by (auto simp: NINDIRECT_def NDIRECT_def div_eq_0_iff)
  then have "i_addrs (dload sb1 img2 1) ! (k div NINDIRECT) = 0" unfolding root2 by (simp add: nth_Cons')
  then show ?thesis using False by (simp add: fblk_def)
qed

abbreviation root_ents :: "bytes list" where
  "root_ents \<equiv> [de_make (bytes_of ''.'') 1, de_make (bytes_of ''..'') 1, de_make (bytes_of ''a'') 2]"

lemma fcontents2: "fcontents img2 (dload sb1 img2 1) = concat root_ents" "ents (concat root_ents) = root_ents"
proof -
  have "fcontents img2 (dload sb1 img2 1) ! p = take 48 (img2 58) ! p" if "p < 48" for p
    using that fblk2 [of 0] by (simp add: fcontents_def root2s fbyte_def BSIZE_def MAXFILE_def NINDIRECT_def)
  then have "fcontents img2 (dload sb1 img2 1) = take 48 (img2 58)"
    by (intro nth_equalityI) (simp_all add: root2s img2_def)
  also have "\<dots> = concat root_ents" by (simp add: img2_def)
  finally show "fcontents img2 (dload sb1 img2 1) = concat root_ents" .
  show "ents (concat root_ents) = root_ents" by (simp add: ents_def slice_def upt_rec)
qed

lemma geom2: "fs_geom sb1 zone0" "i_geom sb1 zone0" "bm_geom sb1 zone0" "fs_marked sb1 zone0 img2"
proof -
  show "fs_geom sb1 zone0"
    by (auto simp: fs_geom_def i_geom_def sb1_def IBLOCK_def BBLOCK_def IPB_def BPB_def FSSIZE_def zone0_def)
  then show "i_geom sb1 zone0" by (simp add: fs_geom_def)
  show "bm_geom sb1 zone0" by (rule sb1_ok(1))
  have "meta sb1 b \<Longrightarrow> b < 64" for b by (auto simp: meta_def sb1_def BBLOCK_def IBLOCK_def BPB_def IPB_def)
  then show "fs_marked sb1 zone0 img2"
    using used2 by (auto simp: fs_marked_def zone0_def) (auto simp: sb1_def)
qed

lemma good2: "good_dir sb1 zone0 img2 1" "dotdot sb1 img2 1"
proof -
  let ?x = "dload sb1 img2 1"
  have db: "datab sb1 zone0 img2 57" "datab sb1 zone0 img2 58"
    using used2 by (auto simp: datab_def zone0_def meta_def sb1_def BBLOCK_def IBLOCK_def BPB_def IPB_def)
  have a: "i_addrs ?x ! i = (if i = 0 then 57 else 0)" if "i < NDIRECT" for i
    using that unfolding root2 by (simp add: nth_Cons' NDIRECT_def)
  have "fwf sb1 zone0 img2 ?x"
    unfolding fwf_def using db a fblk2 root2(2) by (auto simp: NDIRECT_def)
  moreover have "fallocated img2 ?x"
    using fblk2 by (simp add: fallocated_def root2s BSIZE_def MAXFILE_def NINDIRECT_def)
  moreover have "\<forall>e \<in> set root_ents. de_inum e \<noteq> 0 \<longrightarrow> linked sb1 img2 (de_inum e)"
    using dinode2(1,2) by (simp add: linked_def di_dino sb1_def)
  ultimately show "good_dir sb1 zone0 img2 1"
    unfolding good_dir_def Let_def fcontents2 root2 using MAXSIZE by simp
  show "dotdot sb1 img2 1"
    unfolding dotdot_def fcontents2 by (simp add: namecmp_0 DIRSIZ_def bytes_of_def)
qed

lemma tree2: "tree_ok sb1 zone0 img2" "linked sb1 img2 1"
proof -
  have "n = 1 \<or> n = 2" if "linked sb1 img2 n" for n
    using that dinode2(3) [of n] di_dino(7) by (force simp: linked_def sb1_def [THEN arg_cong, of sb_ninodes])
  moreover have "di_type (dinode sb1 img2 2) \<noteq> T_DIR" using dinode2(2) by (simp add: di_dino T_DIR_def)
  ultimately show "tree_ok sb1 zone0 img2" unfolding tree_ok_def using good2(1) by blast
  show "linked sb1 img2 1" using dinode2(1) by (simp add: linked_def di_dino sb1_def)
qed

text \<open>The cache with one entry, for the root.\<close>

lemma cache2:
  assumes "ins = [x, zero_inode, zero_inode]" "i_match 0 1 x" "i_ref x = 1" "slot_ok 0 sb1 img2 B 0 x"
  shows "coh 0 sb1 B (fs_on img2 ins)" "card {k. 0 < nrefs (map ident ins) k} \<le> 1"
    "fsready 0 zone0 sb1 (fs_on img2 ins)"
proof -
  note f = fs_on_ok [of img2 ins, OF img2_ok]
  have z: "i_ref zero_inode = 0" by (simp add: zero_inode_def)
  have "icinv (map ident ins)"
    using assms(1,3) z by (auto simp: icinv_def ident_def nth_Cons' split: if_splits)
  moreover have "i = 0" if "i < length ins" "0 < i_ref (ins ! i)" for i
    using that assms(1) z by (auto simp: nth_Cons' split: if_splits)
  ultimately show "coh 0 sb1 B (fs_on img2 ins)" unfolding coh_def f(3) inodes_fs_on using assms(1,4) by fastforce
  have "{k. 0 < nrefs (map ident ins) k} \<subseteq> {(0, 1)}"
  proof
    fix k assume "k \<in> {k. 0 < nrefs (map ident ins) k}"
    then obtain i where i: "i < length (map ident ins)" "fst (map ident ins ! i) = k" "0 < snd (map ident ins ! i)"
      using nrefs_pos by blast
    then have "i = 0" using assms(1) z by (auto simp: ident_def nth_Cons' split: if_splits)
    then show "k \<in> {(0, 1)}" using i(2) assms(1,2) by (auto simp: ident_def i_match_def)
  qed
  then show "card {k. 0 < nrefs (map ident ins) k} \<le> 1" using card_mono [of "{(0 :: nat, 1 :: nat)}"] by fastforce
  show "fsready 0 zone0 sb1 (fs_on img2 ins)" using f geom2 by (simp add: fsready_def)
qed

lemma procs_register [simp]: "procs (snd (register_disk a b c s)) = procs s" "curproc (snd (register_disk a b c s)) = curproc s"
  by (simp_all add: register_disk_def upd_disk_def split: option.split)

lemma fs_on_procs: "procs (fs_on m ins) = procs pst0" "curproc (fs_on m ins) = Some 0" "rootdir (fs_on m ins) = Some 0"
  by (simp_all add: fs_on_def dst.defs mounted_on_def binit_def upd_disk_def boot0_def ideinit_disks_def Let_def dst0_def pst.defs)
    (simp_all add: pst0_def)

theorem namex_resolves_witness:
  "\<exists>r nm s'. namex [] (bytes_of ''/a'') False (replicate 14 0) False
      (fs_on img2 [zero_inode\<lparr>i_inum := 1, i_ref := 1\<rparr>, zero_inode, zero_inode]) = Inr ((Some r, nm), s')
    \<and> i_inum (inodes s' ! r) = 2"
proof -
  let ?x = "zero_inode\<lparr>i_inum := 1, i_ref := 1\<rparr>"
  let ?ins = "[?x, zero_inode, zero_inode]"
  let ?s = "fs_on img2 ?ins"
  note f = fs_on_ok [of img2 ?ins, OF img2_ok]
  have "slot_ok 0 sb1 img2 {} 0 ?x" by (simp add: slot_ok_def zero_inode_def)
  then have c: "coh 0 sb1 {} ?s" "card {k. 0 < nrefs (idents ?s) k} \<le> 1" "fsready 0 zone0 sb1 ?s"
    using cache2 [of ?ins ?x "{}"] by (simp_all add: i_match_def zero_inode_def)
  have F: "fs_ready 0 zone0 sb1 ?s" unfolding fs_ready_def using c(1,3) geom2(2) tree2(1) f(3,5) by simp
  have e: "elems (bytes_of ''/a'') = [[97]]" by (simp add: elems_def bytes_of_def slash_def)
  have w: "rwalk sb1 img2 False 1 [[97]] = Some 2"
  proof -
    have "dfind (concat root_ents) [97] = Some 2"
      unfolding dfind_def dlook_def fcontents2(2) by (simp add: dmatch_def namecmp_0 DIRSIZ_def bytes_of_def)
    then show ?thesis using dinode2(1) fcontents2(1) by (simp add: di_dino T_DIR_def)
  qed
  have st: "namex_start (bytes_of ''/a'') ?s = Some 0" "0 < length (inodes ?s)" "i_match 0 1 (inodes ?s ! 0)"
    "linked sb1 (blk ?s 0) 1" "card {k. 0 < nrefs (idents ?s) k} + 2 \<le> length (inodes ?s)" "length (replicate 14 0) = DIRSIZ"
    using tree2(2) f(3) c(2)
    by (simp_all add: i_match_def zero_inode_def DIRSIZ_def)
       (simp add: namex_start_def cur_def fs_on_procs bytes_of_def slash_def pst0_def zero_proc_def)
  from namex_resolves [OF F st, of "[]" False False] show ?thesis
    unfolding f(3) e w by (auto simp: i_match_def)
qed

theorem dirlink_updates_map_witness:
  "\<exists>x1 s1. dirlink [] 0 (bytes_of ''b'') 5
      (fs_on img2 [(dload sb1 img2 1)\<lparr>i_inum := 1, i_ref := 1, i_busy := True, i_valid := True\<rparr>, zero_inode, zero_inode]) = Inr (0, s1)
    \<and> dfind (fcontents (blk s1 0) x1) (bytes_of ''b'') = Some 5 \<and> dfind (fcontents (blk s1 0) x1) (bytes_of ''a'') = Some 2"
proof -
  let ?x = "(dload sb1 img2 1)\<lparr>i_inum := 1, i_ref := 1, i_busy := True, i_valid := True\<rparr>"
  let ?ins = "[?x, zero_inode, zero_inode]"
  let ?s = "fs_on img2 ?ins"
  note f = fs_on_ok [of img2 ?ins, OF img2_ok]
  have fl: "\<not> i_ismpoint ?x" "\<not> i_ismroot ?x" "i_dev ?x = 0" by (simp_all add: dload_def di_load_def zero_inode_def)
  have "slot_ok 0 sb1 img2 {0} 0 ?x" using fl unfolding slot_ok_def di_load_fix by (simp add: dload_def di_load_def)
  then have c: "coh 0 sb1 {0} ?s" "card {k. 0 < nrefs (idents ?s) k} \<le> 1" "fsready 0 zone0 sb1 ?s"
    using cache2 [of ?ins ?x "{0}"] fl(3) by (simp_all add: i_match_def)
  have t: "tx 0 zone0 (Suc (20 + 7)) ?s" using f(1) by simp
  have "{b. b < 100 \<and> \<not> used sb1 img2 b} = {64..<100}" using used2 by auto
  then have nf: "nfree sb1 img2 = 36" by (simp add: nfree_def sb1_def)
  have e: "fcontents img2 ?x = concat root_ents" using fcontents2(1) fcontents_cong [of ?x "dload sb1 img2 1" img2] by simp
  have h: "?x = inodes ?s ! 0" "0 < length (inodes ?s)" "i_match 0 1 ?x" "i_valid ?x" "i_type ?x = T_DIR"
    "i_size ?x + 16 \<le> MAXFILE * BSIZE" "2 \<le> nfree sb1 (blk ?s 0)" "(0::nat) < 5" "(5::nat) < 65536"
    "card {h. 0 < nrefs (idents ?s) h} < length (inodes ?s)" "1 < sb_ninodes sb1" "good_dir sb1 zone0 (blk ?s 0) 1"
    using fl(3) root2s MAXSIZE nf c(2) f(3) good2(1) by (simp_all add: i_match_def sb1_def)
  note p = dirlink_updates_map [OF t c(3) geom2(1) c(1) h(12,11) h(1-10), of "bytes_of ''b''" "[]"]
  have a: "dfind (concat root_ents) (bytes_of ''b'') = None" "dfind (concat root_ents) (bytes_of ''a'') = Some 2"
    unfolding dfind_def dlook_def fcontents2(2) by (simp_all add: dmatch_def namecmp_0 DIRSIZ_def bytes_of_def)
  have b: "namecmp (bytes_of ''a'') (bytes_of ''b'') \<noteq> 0" "namecmp (bytes_of ''b'') (bytes_of ''b'') = 0"
    by (simp_all add: namecmp_0 bytes_of_def DIRSIZ_def)
  have n: "\<not> dfind (fcontents (blk ?s 0) ?x) (bytes_of ''b'') \<noteq> None" unfolding f(3) e a by simp
  from p [unfolded if_not_P [OF n]] obtain x1 s1 where "dirlink [] 0 (bytes_of ''b'') 5 ?s = Inr (0, s1)"
    "\<forall>nm. dfind (fcontents (blk s1 0) x1) nm = (if namecmp nm (bytes_of ''b'') = 0 then Some 5 else dfind (fcontents (blk ?s 0) ?x) nm)"
    by blast
  then show ?thesis unfolding f(3) e using a b by (intro exI [of _ x1] exI [of _ s1]) simp
qed

end
