(* ===== verification/Fifo.thy ===== *)
theory Fifo
  imports Prelude
begin

text \<open>
  The contract of a first-in first-out buffer: \<open>rep q xs\<close> says that it holds \<open>xs\<close>, oldest first; \<open>put\<close>
  appends where there is \<open>room\<close>, \<open>get\<close> removes the first element. The contract is met by the ring buffer
  of a pipe and by the linked list of a mailbox.
\<close>

datatype 'a fop = Put 'a | Get

fun puts_of :: "'a fop list \<Rightarrow> 'a list" where
  "puts_of [] = []"
| "puts_of (Put x # ops) = x # puts_of ops"
| "puts_of (Get # ops) = puts_of ops"

text \<open>A run of puts and gets, with the list of what the gets returned; no result if an element is put where there is no
  room or taken where there is none.\<close>

fun frun :: "('a \<Rightarrow> 'q \<Rightarrow> bool) \<Rightarrow> ('a \<Rightarrow> 'q \<Rightarrow> 'q) \<Rightarrow> ('q \<Rightarrow> bool) \<Rightarrow> ('q \<Rightarrow> 'a \<times> 'q) \<Rightarrow> 'a fop list \<Rightarrow> 'q \<Rightarrow> ('a list \<times> 'q) option" where
  "frun room put emp get [] q = Some ([], q)"
| "frun room put emp get (Put x # ops) q = (if room x q then frun room put emp get ops (put x q) else None)"
| "frun room put emp get (Get # ops) q = (if emp q then None
     else let (x, q) = get q in map_option (\<lambda>(xs, q). (x # xs, q)) (frun room put emp get ops q))"

locale fifo =
  fixes rep :: "'q \<Rightarrow> 'a list \<Rightarrow> bool" and room :: "'a \<Rightarrow> 'q \<Rightarrow> bool"
    and put :: "'a \<Rightarrow> 'q \<Rightarrow> 'q" and emp :: "'q \<Rightarrow> bool" and get :: "'q \<Rightarrow> 'a \<times> 'q"
  assumes put_rep: "rep q xs \<Longrightarrow> room x q \<Longrightarrow> rep (put x q) (xs @ [x])"
    and emp_rep: "rep q xs \<Longrightarrow> emp q \<longleftrightarrow> xs = []"
    and get_rep: "rep q (x # xs) \<Longrightarrow> fst (get q) = x \<and> rep (snd (get q)) xs"
begin

lemma run_order:
  "rep q xs \<Longrightarrow> frun room put emp get ops q = Some (outs, q') \<Longrightarrow> \<exists>ys. rep q' ys \<and> xs @ puts_of ops = outs @ ys"
proof (induction ops arbitrary: q xs outs)
  case (Cons op ops)
  show ?case
  proof (cases op)
    case (Put x)
    then have "room x q" "frun room put emp get ops (put x q) = Some (outs, q')" using Cons.prems(2) by (auto split: if_splits)
    then show ?thesis using Cons.IH [OF put_rep [OF Cons.prems(1)]] Put by simp
  next
    case Get
    then obtain x q1 os where 1: "\<not> emp q" "get q = (x, q1)" "frun room put emp get ops q1 = Some (os, q')" "outs = x # os"
      using Cons.prems(2) by (auto split: if_splits prod.splits)
    obtain y ys where y: "xs = y # ys" using emp_rep [OF Cons.prems(1)] 1(1) by (cases xs) auto
    then have "x = y" "rep q1 ys" using get_rep [of q y ys] Cons.prems(1) 1(2) by auto
    then show ?thesis using Cons.IH [OF _ 1(3)] 1(4) y Get by auto
  qed
qed simp

text \<open>Starting empty, what was taken out is the beginning of what was put in.\<close>

lemma run_prefix:
  assumes "rep q []" "frun room put emp get ops q = Some (outs, q')"
  shows "outs = take (length outs) (puts_of ops)"
  using run_order [OF assms] by auto

end

end
