(* ===== verification/Kstate.thy ===== *)
theory Kstate
  imports Dir
begin

text \<open>
  The state of the kernel above the file system: the table of open files (\<^verbatim>\<open>file.h\<close>), the pipes
  (\<^verbatim>\<open>pipe.c\<close>) and messages (\<^verbatim>\<open>proc.h\<close>) that live in allocated memory, the physical memory with the free
  list of pages (\<^verbatim>\<open>kalloc.c\<close>), and the input line of the console (\<^verbatim>\<open>defs.h\<close>). A pipe or a message is named by its address.
\<close>

definition NFILE :: nat where "NFILE = 100"
definition PIPESIZE :: nat where "PIPESIZE = 512"
definition INPUT_BUF :: nat where "INPUT_BUF = 128"

datatype fdtype = FD_NONE | FD_PIPE | FD_INODE

record file_t =
  f_type :: fdtype
  f_ref :: int
  f_readable :: bool
  f_writable :: bool
  f_pipe :: u32
  f_ip :: "nat option"
  f_off :: nat

record pipe =
  pp_data :: bytes
  pp_nread :: u32
  pp_nwrite :: u32
  pp_readopen :: bool
  pp_writeopen :: bool

record message =
  m_size :: u32
  m_data :: u32
  m_next :: u32

record inputbuf =
  in_buf :: bytes
  in_r :: u32
  in_w :: u32
  in_e :: u32

text \<open>
  \<open>km\<close> is the memory of the kernel half of the address space, which maps the physical memory at \<open>KERNBASE\<close>;
  \<open>freelist\<close> is \<^verbatim>\<open>kmem.freelist\<close> and \<open>freep\<close> the entry into the free blocks of \<^verbatim>\<open>kmalloc\<close>, 0 for a null
  pointer. \<open>kend\<close>, \<open>kdata\<close> and \<open>kbase\<close> are addresses the linker fixes, the end of the kernel image, the start of its
  data and the static header \<^verbatim>\<open>base\<close>; no operation changes them. \<open>cr3\<close> is the page table register.
\<close>

record kst = fsst +
  files :: "file_t list"
  pipes :: "u32 \<Rightarrow> pipe option"
  msgs :: "u32 \<Rightarrow> message option"
  km :: mem
  freelist :: u32
  freep :: u32
  kend :: u32
  kbase :: u32
  kdata :: u32
  kpgdir :: u32
  cr3 :: u32
  input :: inputbuf

definition upd_file :: "nat \<Rightarrow> (file_t \<Rightarrow> file_t) \<Rightarrow> 'a kst_scheme \<Rightarrow> 'a kst_scheme" where
  "upd_file i f s = s\<lparr>files := (files s)[i := f (files s ! i)]\<rparr>"

definition upd_pipe :: "u32 \<Rightarrow> pipe \<Rightarrow> 'a kst_scheme \<Rightarrow> 'a kst_scheme" where
  "upd_pipe p q s = s\<lparr>pipes := (pipes s)(p := Some q)\<rparr>"

lemma upd_file_sel [simp]:
  "files (upd_file i f s) = (files s)[i := f (files s ! i)]" "procs (upd_file i f s) = procs s"
  "curproc (upd_file i f s) = curproc s" "pipes (upd_file i f s) = pipes s" "inodes (upd_file i f s) = inodes s"
  by (simp_all add: upd_file_def)

lemma upd_pipe_sel [simp]:
  "pipes (upd_pipe p q s) = (pipes s)(p := Some q)" "procs (upd_pipe p q s) = procs s"
  "curproc (upd_pipe p q s) = curproc s" "files (upd_pipe p q s) = files s"
  by (simp_all add: upd_pipe_def)

lemma wakeup_kst [simp]:
  "files (wakeup c s) = files s" "pipes (wakeup c s) = pipes s" "msgs (wakeup c s) = msgs s" "curproc (wakeup c s) = curproc s"
  "input (wakeup c s) = input s" "km (wakeup c s) = km s" "freelist (wakeup c s) = freelist s"
  by (simp_all add: wakeup_def wakeup1_def)

text \<open>A machine with idle tables, for the examples.\<close>

definition input0 :: inputbuf where
  "input0 = \<lparr>in_buf = replicate INPUT_BUF 0, in_r = 0, in_w = 0, in_e = 0\<rparr>"

definition kst_on :: "fsst \<Rightarrow> (u32 \<Rightarrow> pipe option) \<Rightarrow> kst" where
  "kst_on s ps = fsst.extend s \<lparr>files = replicate NFILE \<lparr>f_type = FD_NONE, f_ref = 0, f_readable = False, f_writable = False,
     f_pipe = 0, f_ip = None, f_off = 0\<rparr>, pipes = ps, msgs = \<lambda>_. None, km = \<lambda>_. 0, freelist = 0,
     freep = 0, kend = 0x80120000, kbase = 0x80110000, kdata = 0x80108000, kpgdir = 0, cr3 = 0, input = input0\<rparr>"

lemma kst_on_sel [simp]: "pipes (kst_on s ps) = ps" "procs (kst_on s ps) = procs s" "curproc (kst_on s ps) = curproc s"
  "kend (kst_on s ps) = 0x80120000" "freelist (kst_on s ps) = 0" "inodes (kst_on s ps) = inodes s"
  by (simp_all add: kst_on_def fsst.extend_def)

end
