(* ===== verification/Kalloc.thy ===== *)
theory Kalloc
  imports Kstate
begin

text \<open>
  The allocator of physical pages (\<^verbatim>\<open>kalloc.c\<close>): the free pages form a linked list whose links are stored in
  the pages themselves, so the model keeps the whole kernel memory. The general allocator of the same file is in the
  theory that follows. \<^verbatim>\<open>kmem.lock\<close> makes each operation atomic.
\<close>

section \<open>Operations\<close>

definition KERNBASE :: u32 where "KERNBASE = 0x80000000"
definition PHYSTOP :: u32 where "PHYSTOP = 0xE000000"
definition PGSIZE :: u32 where "PGSIZE = 4096"

definition v2p :: "u32 \<Rightarrow> u32" where "v2p a = a - KERNBASE"
definition p2v :: "u32 \<Rightarrow> u32" where "p2v a = a + KERNBASE"

definition PGROUNDUP :: "u32 \<Rightarrow> u32" where
  "PGROUNDUP sz = (sz + PGSIZE - 1) AND NOT (PGSIZE - 1)"

definition PGROUNDDOWN :: "u32 \<Rightarrow> u32" where
  "PGROUNDDOWN a = a AND NOT (PGSIZE - 1)"

definition get32 :: "mem \<Rightarrow> u32 \<Rightarrow> u32" where
  "get32 m a = ucast (m a) OR push_bit 8 (ucast (m (a + 1))) OR push_bit 16 (ucast (m (a + 2))) OR push_bit 24 (ucast (m (a + 3)))"

definition kfree :: "u32 \<Rightarrow> 'a kst_scheme \<Rightarrow> ('a kst_scheme, unit) outcome" where
  "kfree v s =
    (if v mod PGSIZE \<noteq> 0 then Inl (Panic ''kfree: v % PGSIZE != 0'')
     else if v < kend s then Inl (Panic ''kfree: v < end'')
     else if v2p v \<ge> PHYSTOP then Inl (Panic ''kfree: v2p(v) >= PHYSTOP'')
     else let m = memset (km s) v 1 PGSIZE in
       Inr ((), s\<lparr>km := put32 m v (freelist s), freelist := v\<rparr>))"

definition kalloc :: "'a kst_scheme \<Rightarrow> u32 \<times> 'a kst_scheme" where
  "kalloc s = (let r = freelist s in
     if r \<noteq> 0 then (r, s\<lparr>freelist := get32 (km s) r\<rparr>) else (r, s))"

lemma v2p_range:
  assumes "v2p v < PHYSTOP"
  shows "unat v < 2 ^ 32 - 4096" "v \<noteq> 0"
proof -
  have "uint (v - 0x80000000) < 0xE000000" using assms by (simp add: v2p_def KERNBASE_def PHYSTOP_def word_less_def)
  then have r: "(uint v - 0x80000000) mod 2 ^ 32 < 0xE000000" by (simp add: uint_word_ariths)
  have "uint v < 2 ^ 32 - 4096"
  proof (cases "uint v \<ge> 0x80000000")
    case True
    then show ?thesis using r uint_lt2p [of v] by (simp add: mod_pos_pos_trivial)
  qed simp
  then have "int (unat v) < int (2 ^ 32 - 4096)" by simp
  then show "unat v < 2 ^ 32 - 4096" by (simp only: of_nat_less_iff)
  show "v \<noteq> 0" using assms by (auto simp: v2p_def KERNBASE_def PHYSTOP_def)
qed

lemma kfree_range: "kfree v s = Inr x \<Longrightarrow> unat v < 2 ^ 32 - 4096"
  using v2p_range(1) [of v] by (auto simp: kfree_def Let_def not_le split: if_splits)

text \<open>The loop of \<^verbatim>\<open>freerange\<close>. It ends: \<^verbatim>\<open>kfree\<close> panics before the address can wrap around.\<close>

function freerange_loop :: "u32 \<Rightarrow> u32 \<Rightarrow> 'a kst_scheme \<Rightarrow> ('a kst_scheme, unit) outcome" where
  "freerange_loop p vend s = (if p + PGSIZE \<le> vend then bnd (kfree p s) (\<lambda>(_, s). freerange_loop (p + PGSIZE) vend s) else Inr ((), s))"
  by pat_completeness auto
termination
proof (relation "measure (\<lambda>(p, vend, s). 2 ^ 32 - unat p)", goal_cases)
  case (2 p vend s x a b)
  have "unat p < 2 ^ 32 - 4096" using kfree_range [OF 2(2)] .
  then have "unat (p + 4096) = unat p + 4096" using unat_add_of_nat [of p 4096] by simp
  then show ?case using \<open>unat p < 2 ^ 32 - 4096\<close> by (simp add: PGSIZE_def)
qed simp

declare freerange_loop.simps [simp del]

definition freerange :: "u32 \<Rightarrow> u32 \<Rightarrow> 'a kst_scheme \<Rightarrow> ('a kst_scheme, unit) outcome" where
  "freerange vstart vend s = freerange_loop (PGROUNDUP vstart) vend s"

definition kinit1 :: "u32 \<Rightarrow> u32 \<Rightarrow> 'a kst_scheme \<Rightarrow> ('a kst_scheme, unit) outcome" where
  "kinit1 vstart vend s = freerange vstart vend s"

definition kinit2 :: "u32 \<Rightarrow> u32 \<Rightarrow> 'a kst_scheme \<Rightarrow> ('a kst_scheme, unit) outcome" where
  "kinit2 vstart vend s = freerange vstart vend s"

section \<open>Words in memory\<close>

lemma get32_put32 [simp]: "get32 (put32 m a w) a = w"
proof (rule bit_word_eqI)
  fix n
  assume "n < LENGTH(32)"
  then consider "n < 8" | "8 \<le> n" "n < 16" | "16 \<le> n" "n < 24" | "24 \<le> n" "n < 32" by fastforce
  then show "bit (get32 (put32 m a w) a) n \<longleftrightarrow> bit w n"
    by cases (auto simp: get32_def put32_def bit_simps)
qed

lemma get32_cong:
  "m a = m' a \<Longrightarrow> m (a + 1) = m' (a + 1) \<Longrightarrow> m (a + 2) = m' (a + 2) \<Longrightarrow> m (a + 3) = m' (a + 3) \<Longrightarrow> get32 m a = get32 m' a"
  by (simp add: get32_def)

lemma put32_other: "x \<noteq> a \<Longrightarrow> x \<noteq> a + 1 \<Longrightarrow> x \<noteq> a + 2 \<Longrightarrow> x \<noteq> a + 3 \<Longrightarrow> put32 m a w x = m x"
  by (simp add: put32_def)

lemma unat_off:
  assumes "unat (a :: u32) + k < 2 ^ 32"
  shows "unat (a + of_nat k) = unat a + k"
  using assms by (rule unat_add_of_nat)

lemma put32_frame:
  assumes "unat a + 4 \<le> 2 ^ 32" "unat x < unat a \<or> unat a + 4 \<le> unat x"
  shows "put32 m a w x = m x"
proof -
  have "unat (a + 1) = unat a + 1" "unat (a + 2) = unat a + 2" "unat (a + 3) = unat a + 3"
    using assms(1) unat_off [of a 1] unat_off [of a 2] unat_off [of a 3] by simp_all
  then show ?thesis using assms(2) by (intro put32_other) auto
qed

lemma get32_frame:
  assumes "unat a + 4 \<le> 2 ^ 32" "\<And>x. unat a \<le> unat x \<Longrightarrow> unat x < unat a + 4 \<Longrightarrow> m' x = m x"
  shows "get32 m' a = get32 m a"
proof -
  have "unat (a + 1) = unat a + 1" "unat (a + 2) = unat a + 2" "unat (a + 3) = unat a + 3"
    using assms(1) unat_off [of a 1] unat_off [of a 2] unat_off [of a 3] by simp_all
  then show ?thesis by (intro get32_cong assms(2)) simp_all
qed

text \<open>The page an address lies in.\<close>

definition page_of :: "u32 \<Rightarrow> u32" where "page_of a = a - a mod PGSIZE"

lemma page_of_add:
  assumes "v mod PGSIZE = 0" "k < 4096"
  shows "page_of (v + of_nat k) = v"
proof -
  have "unat (v mod 4096) = 0" using assms(1) by (simp add: PGSIZE_def)
  then have m: "unat v mod 4096 = 0" by (simp add: unat_mod_distrib)
  have "unat v + k < 2 ^ 32"
  proof -
    obtain q where q: "unat v = 4096 * q" using m by (auto simp: mod_eq_0_iff_dvd elim: dvdE)
    have "unat v < 2 ^ 32" using unsigned_less [of v] by simp
    then have "q < 2 ^ 20" using q by simp
    then show ?thesis using q assms(2) by simp
  qed
  then have "unat (v + of_nat k) = unat v + k" by (rule unat_add_of_nat)
  then have "unat ((v + of_nat k) mod 4096) = k" using m assms(2) by (simp add: unat_mod_distrib mod_add_eq [symmetric])
  then have "(v + of_nat k) mod 4096 = of_nat k" using assms(2) by (simp add: word_unat_eq_iff unat_of_nat)
  then show ?thesis by (simp add: page_of_def PGSIZE_def)
qed

lemma page_of_word:
  assumes "v mod PGSIZE = 0"
  shows "page_of v = v" "page_of (v + 1) = v" "page_of (v + 2) = v" "page_of (v + 3) = v"
  using page_of_add [OF assms, of 0] page_of_add [OF assms, of 1] page_of_add [OF assms, of 2] page_of_add [OF assms, of 3] by simp_all

lemma get32_page:
  assumes "v mod PGSIZE = 0" "\<And>a. page_of a = v \<Longrightarrow> m' a = m a"
  shows "get32 m' v = get32 m v"
  using page_of_word [OF assms(1)] by (intro get32_cong assms(2))

text \<open>\<^verbatim>\<open>kfree\<close> writes inside the page it frees.\<close>

lemma put32_memset_page:
  assumes "v mod PGSIZE = 0" "page_of a \<noteq> v"
  shows "put32 (memset m v 1 PGSIZE) v w a = m a"
proof -
  have "a \<noteq> v + of_nat i" if "i < 4096" for i using page_of_add [OF assms(1) that] assms(2) by auto
  then have "memset m v 1 PGSIZE a = m a" unfolding memset_stosb by (intro stosb_other) (simp add: PGSIZE_def)
  moreover have "a \<noteq> v" "a \<noteq> v + 1" "a \<noteq> v + 2" "a \<noteq> v + 3" using page_of_word [OF assms(1)] assms(2) by auto
  ultimately show ?thesis by (simp add: put32_other)
qed

section \<open>The contract of a page allocator\<close>

text \<open>
  A run of a page allocator: pages are allocated, freed by whoever holds them, and written to while they are held.
  The list holds the pages handed out and not yet given back.
\<close>

inductive page_run :: "('s \<Rightarrow> 'p option \<times> 's) \<Rightarrow> ('p \<Rightarrow> 's \<Rightarrow> 's option) \<Rightarrow> ('p list \<Rightarrow> 's \<Rightarrow> 's \<Rightarrow> bool) \<Rightarrow> 's \<Rightarrow> 's \<Rightarrow> 'p list \<Rightarrow> bool"
  for alloc free touch s0 where
  start: "page_run alloc free touch s0 s0 []"
| alloc: "page_run alloc free touch s0 s us \<Longrightarrow> alloc s = (Some p, s') \<Longrightarrow> page_run alloc free touch s0 s' (p # us)"
| free: "page_run alloc free touch s0 s us \<Longrightarrow> p \<in> set us \<Longrightarrow> free p s = Some s' \<Longrightarrow> page_run alloc free touch s0 s' (remove1 p us)"
| touch: "page_run alloc free touch s0 s us \<Longrightarrow> touch us s s' \<Longrightarrow> page_run alloc free touch s0 s' us"

locale page_allocator =
  fixes free_list :: "'s \<Rightarrow> 'p list \<Rightarrow> bool" and pok :: "'p \<Rightarrow> bool"
    and alloc :: "'s \<Rightarrow> 'p option \<times> 's" and free :: "'p \<Rightarrow> 's \<Rightarrow> 's option" and touch :: "'p list \<Rightarrow> 's \<Rightarrow> 's \<Rightarrow> bool"
  assumes listed: "free_list s ps \<Longrightarrow> distinct ps \<and> (\<forall>p \<in> set ps. pok p)"
    and alloc_none: "free_list s [] \<Longrightarrow> alloc s = (None, s)"
    and alloc_page: "free_list s (p # ps) \<Longrightarrow> fst (alloc s) = Some p \<and> free_list (snd (alloc s)) ps"
    and free_page: "free_list s ps \<Longrightarrow> pok p \<Longrightarrow> p \<notin> set ps \<Longrightarrow> \<exists>s'. free p s = Some s' \<and> free_list s' (p # ps)"
    and touch_held: "free_list s ps \<Longrightarrow> touch us s s' \<Longrightarrow> set us \<inter> set ps = {} \<Longrightarrow> free_list s' ps"
begin

text \<open>No page is handed out twice and none is lost.\<close>

lemma run_conserves:
  assumes "page_run alloc free touch s0 s us" "free_list s0 ps0"
  shows "\<exists>ps. free_list s ps \<and> distinct (ps @ us) \<and> set (ps @ us) = set ps0"
  using assms
proof induction
  case start
  then show ?case using listed by auto
next
  case (alloc s us p s')
  then obtain ps where ps: "free_list s ps" "distinct (ps @ us)" "set (ps @ us) = set ps0" by auto
  show ?case
  proof (cases ps)
    case Nil
    then show ?thesis using alloc_none ps(1) alloc.hyps(2) by simp
  next
    case (Cons q qs)
    then have "q = p" "free_list s' qs" using alloc_page [of s q qs] ps(1) alloc.hyps(2) by auto
    then show ?thesis using ps Cons by (intro exI [of _ qs]) auto
  qed
next
  case (free s us p s')
  then obtain ps where ps: "free_list s ps" "distinct (ps @ us)" "set (ps @ us) = set ps0" by auto
  have p: "pok p" "p \<notin> set ps" using ps free.hyps(2) listed [OF free.prems] by auto
  have "free_list s' (p # ps)" using free_page [OF ps(1) p] free.hyps(3) by auto
  moreover have "distinct ((p # ps) @ remove1 p us)" "set ((p # ps) @ remove1 p us) = set ps0"
    using ps(2,3) free.hyps(2) by (auto simp: distinct_remove1)
  ultimately show ?case by blast
next
  case (touch s us s')
  then obtain ps where ps: "free_list s ps" "distinct (ps @ us)" "set (ps @ us) = set ps0" by auto
  have "free_list s' ps" using touch_held [OF ps(1) touch.hyps(2)] ps(2) by auto
  then show ?case using ps(2,3) by blast
qed

end

section \<open>The linked list of free pages\<close>

definition page_ok :: "u32 \<Rightarrow> u32 \<Rightarrow> bool" where
  "page_ok e v \<longleftrightarrow> v mod PGSIZE = 0 \<and> e \<le> v \<and> v2p v < PHYSTOP"

fun chain :: "mem \<Rightarrow> u32 \<Rightarrow> u32 list \<Rightarrow> bool" where
  "chain m a [] \<longleftrightarrow> a = 0"
| "chain m a (x # xs) \<longleftrightarrow> a = x \<and> chain m (get32 m x) xs"

definition free_pages :: "u32 \<Rightarrow> 'a kst_scheme \<Rightarrow> u32 list \<Rightarrow> bool" where
  "free_pages e s ps \<longleftrightarrow> kend s = e \<and> chain (km s) (freelist s) ps \<and> distinct ps \<and> (\<forall>v \<in> set ps. page_ok e v)"

definition page_alloc :: "'a kst_scheme \<Rightarrow> u32 option \<times> 'a kst_scheme" where
  "page_alloc s = (case kalloc s of (v, s) \<Rightarrow> (if v = 0 then None else Some v, s))"

definition page_free :: "u32 \<Rightarrow> 'a kst_scheme \<Rightarrow> 'a kst_scheme option" where
  "page_free v s = (case kfree v s of Inl _ \<Rightarrow> None | Inr (_, s) \<Rightarrow> Some s)"

definition page_touch :: "u32 list \<Rightarrow> 'a kst_scheme \<Rightarrow> 'a kst_scheme \<Rightarrow> bool" where
  "page_touch us s s' \<longleftrightarrow> freelist s' = freelist s \<and> kend s' = kend s \<and> (\<forall>a. page_of a \<notin> set us \<longrightarrow> km s' a = km s a)"

lemma page_ok_nz: "page_ok e v \<Longrightarrow> v \<noteq> 0"
  using v2p_range(2) [of v] by (simp add: page_ok_def)

lemma chain_cong:
  "chain m a xs \<Longrightarrow> (\<And>x. x \<in> set xs \<Longrightarrow> get32 m' x = get32 m x) \<Longrightarrow> chain m' a xs"
  by (induction xs arbitrary: a) auto

lemma free_pages_alloc:
  assumes "free_pages e s ps"
  shows "kalloc s = (case ps of [] \<Rightarrow> (0, s) | p # _ \<Rightarrow> (p, s\<lparr>freelist := get32 (km s) p\<rparr>))"
    "ps = p # ps' \<Longrightarrow> p \<noteq> 0 \<and> free_pages e (s\<lparr>freelist := get32 (km s) p\<rparr>) ps'"
  using assms by (auto simp: kalloc_def free_pages_def Let_def dest: page_ok_nz split: list.split)

lemma free_pages_free:
  assumes "free_pages e s ps" "page_ok e v" "v \<notin> set ps"
  shows "\<exists>s'. kfree v s = Inr ((), s') \<and> free_pages e s' (v # ps)"
proof -
  let ?m = "put32 (memset (km s) v 1 PGSIZE) v (freelist s)"
  have v: "v mod PGSIZE = 0" "kend s \<le> v" "v2p v < PHYSTOP" using assms(1,2) by (auto simp: page_ok_def free_pages_def)
  have "get32 ?m x = get32 (km s) x" if "x \<in> set ps" for x
  proof -
    have "x mod PGSIZE = 0" "x \<noteq> v" using that assms(1,3) by (auto simp: free_pages_def page_ok_def)
    then show ?thesis using put32_memset_page [OF v(1)] by (intro get32_page) auto
  qed
  then have "chain ?m (freelist s) ps" using assms(1) by (auto simp: free_pages_def intro: chain_cong)
  then show ?thesis using assms v by (auto simp: kfree_def free_pages_def Let_def not_le not_less)
qed

interpretation pages: page_allocator "free_pages e" "page_ok e" page_alloc page_free page_touch for e
proof (unfold_locales, goal_cases)
  case (1 s ps)
  then show ?case by (simp add: free_pages_def)
next
  case (2 s)
  then show ?case using free_pages_alloc(1) [OF 2] by (simp add: page_alloc_def)
next
  case (3 s p ps)
  then show ?case using free_pages_alloc [OF 3] by (simp add: page_alloc_def)
next
  case (4 s ps p)
  then show ?case using free_pages_free [OF 4] by (auto simp: page_free_def)
next
  case (5 s ps us s')
  have "get32 (km s') x = get32 (km s) x" if "x \<in> set ps" for x
    using 5 that by (intro get32_page) (auto simp: free_pages_def page_ok_def page_touch_def)
  then show ?case using 5(1,2) by (auto simp: free_pages_def page_touch_def intro: chain_cong)
qed

section \<open>Filling the list at boot\<close>

definition pages_from :: "u32 \<Rightarrow> nat \<Rightarrow> u32 list" where
  "pages_from v n = map (\<lambda>i. v + of_nat (4096 * i)) [0..<n]"

lemma pages_from_Suc: "pages_from v (Suc n) = v # pages_from (v + PGSIZE) n"
  by (simp add: pages_from_def PGSIZE_def upt_conv_Cons map_Suc_upt [symmetric] algebra_simps del: upt_Suc)

lemma pages_from_distinct:
  assumes "unat v + 4096 * n \<le> 2 ^ 32"
  shows "distinct (pages_from v n)"
  using assms word32_add_of_nat_eq_iff [of "4096 * _" "4096 * _" v]
  by (auto simp: pages_from_def distinct_map intro!: inj_onI)

lemma pages_from_bound:
  assumes "unat v + 4096 * n < 2 ^ 32" "x \<in> set (pages_from v n)"
  shows "unat x < unat v + 4096 * n" "unat v \<le> unat x"
proof -
  obtain i where i: "i < n" "x = v + of_nat (4096 * i)" using assms(2) by (auto simp: pages_from_def)
  then have "unat x = unat v + 4096 * i" using assms(1) unat_add_of_nat [of v "4096 * i"] by simp
  then show "unat x < unat v + 4096 * n" "unat v \<le> unat x" using i(1) by auto
qed

lemma page_ok_next: "page_ok e v \<Longrightarrow> unat v < 2 ^ 32 - 4096"
  using v2p_range(1) [of v] by (simp add: page_ok_def)

lemma freerange_loop_ok:
  assumes "free_pages e s ps" "\<forall>v \<in> set (pages_from p n). page_ok e v" "set (pages_from p n) \<inter> set ps = {}"
    "unat vend = unat p + 4096 * n + r" "r < 4096" "unat vend < 2 ^ 32 - 4096"
  shows "\<exists>s'. freerange_loop p vend s = Inr ((), s') \<and> free_pages e s' (rev (pages_from p n) @ ps)"
  using assms
proof (induction n arbitrary: p s ps)
  case 0
  have "unat (p + of_nat 4096) = unat p + 4096" using 0(4,6) by (intro unat_add_of_nat) simp
  then have "\<not> p + PGSIZE \<le> vend" using 0(4,5) by (simp add: PGSIZE_def word_le_nat_alt)
  then show ?case using 0(1) by (simp add: freerange_loop.simps [of p] pages_from_def)
next
  case (Suc n)
  have v: "page_ok e p" "p \<notin> set ps" using Suc.prems(2,3) unfolding pages_from_Suc by auto
  have "unat (p + of_nat 4096) = unat p + 4096" using page_ok_next [OF v(1)] by (intro unat_add_of_nat) simp
  then have up: "unat (p + PGSIZE) = unat p + 4096" by (simp add: PGSIZE_def)
  obtain s1 where s1: "kfree p s = Inr ((), s1)" "free_pages e s1 (p # ps)"
    using free_pages_free [OF Suc.prems(1) v] by blast
  have "distinct (pages_from p (Suc n))"
    using Suc.prems(4,6) by (intro pages_from_distinct) simp
  then have d: "set (pages_from (p + PGSIZE) n) \<inter> set (p # ps) = {}"
    using Suc.prems(3) unfolding pages_from_Suc by auto
  have "p + PGSIZE \<le> vend" using Suc.prems(4) up by (simp add: word_le_nat_alt)
  moreover obtain s' where "freerange_loop (p + PGSIZE) vend s1 = Inr ((), s')"
    "free_pages e s' (rev (pages_from (p + PGSIZE) n) @ p # ps)"
    using Suc.IH [OF s1(2) _ d _ Suc.prems(5,6)] Suc.prems(2,4) up unfolding pages_from_Suc by auto
  ultimately show ?case using s1(1) by (simp add: freerange_loop.simps [of p] pages_from_Suc)
qed

lemma PGROUND_aligned: "PGROUNDUP a mod PGSIZE = 0" "PGROUNDDOWN a mod PGSIZE = 0"
proof -
  have "(x AND NOT (mask 12)) mod 2 ^ 12 = 0" for x :: u32
    by (simp only: take_bit_eq_mod [symmetric] take_bit_and take_bit_not_mask_eq_0) simp
  then show "PGROUNDUP a mod PGSIZE = 0" "PGROUNDDOWN a mod PGSIZE = 0"
    by (simp_all add: PGROUNDUP_def PGROUNDDOWN_def PGSIZE_def mask_eq_exp_minus_1)
qed

lemma PGROUNDDOWN_page: "PGROUNDDOWN va = page_of va" "va - PGROUNDDOWN va = va mod PGSIZE"
proof -
  have "va = (va AND NOT (mask 12)) OR (va AND mask 12)" by (simp flip: bit.conj_disj_distrib)
  also have "\<dots> = (va AND NOT (mask 12)) + (va AND mask 12)"
    by (rule disjunctive_add [symmetric]) (simp add: bit_simps)
  also have "va AND mask 12 = va mod PGSIZE" by (simp flip: take_bit_eq_mask add: take_bit_eq_mod PGSIZE_def)
  finally have *: "va = PGROUNDDOWN va + va mod PGSIZE" by (simp add: PGROUNDDOWN_def PGSIZE_def mask_eq_exp_minus_1)
  then show "va - PGROUNDDOWN va = va mod PGSIZE" by (metis add_diff_cancel_left')
  show "PGROUNDDOWN va = page_of va" using * unfolding page_of_def by (metis add_diff_cancel_right')
qed

lemma page_ok_range:
  assumes "v mod PGSIZE = 0" "e \<le> v" "0x80000000 \<le> unat v" "unat v < 0x8E000000"
  shows "page_ok e v"
proof -
  have "KERNBASE \<le> v" using assms(3) by (simp add: KERNBASE_def word_le_nat_alt)
  then have "unat (v2p v) = unat v - 0x80000000" unfolding v2p_def by (simp add: unat_sub KERNBASE_def)
  then show ?thesis using assms by (simp add: page_ok_def PHYSTOP_def word_less_nat_alt)
qed

lemma mod_PGSIZE: "v mod PGSIZE = 0 \<longleftrightarrow> unat v mod 4096 = 0"
  by (simp add: PGSIZE_def word_unat_eq_iff unat_mod_distrib)

section \<open>Properties\<close>

text \<open>C6. However pages are allocated, written to while they are held, and given back, the free list and the pages in use
  stay a partition of the pages the allocator started with: no page is handed out twice, none is lost, and an allocation
  fails only when every page is in use. Writes through the holders of pages never damage the links of the free list.\<close>

theorem kalloc_conserves:
  fixes s0 :: "'a kst_scheme"
  assumes "free_pages e s0 ps0" "page_run page_alloc page_free page_touch s0 s us"
  shows "\<exists>ps. free_pages e s ps \<and> distinct (ps @ us) \<and> set (ps @ us) = set ps0 \<and>
    (fst (kalloc s) = 0 \<longleftrightarrow> set us = set ps0) \<and> (fst (kalloc s) \<noteq> 0 \<longrightarrow> fst (kalloc s) \<in> set ps0 - set us)"
proof -
  obtain ps where ps: "free_pages e s ps" "distinct (ps @ us)" "set (ps @ us) = set ps0"
    using pages.run_conserves [OF assms(2,1)] by blast
  show ?thesis
  proof (cases ps)
    case Nil
    then show ?thesis using ps free_pages_alloc(1) [OF ps(1)] by (intro exI [of _ ps]) simp
  next
    case (Cons p qs)
    then have "p \<noteq> 0" "fst (kalloc s) = p" using free_pages_alloc [OF ps(1)] by auto
    then show ?thesis using ps Cons by (intro exI [of _ ps]) auto
  qed
qed

theorem kalloc_conserves_witness:
  "\<exists>s0 s :: kst. free_pages 0x80120000 s0 [0x80200000] \<and>
    page_run page_alloc page_free page_touch s0 s [0x80200000] \<and> fst (kalloc s) = 0"
proof -
  let ?k = "kst_on (fs_on (\<lambda>_. []) []) Map.empty"
  have "free_pages 0x80120000 ?k []" by (simp add: free_pages_def)
  moreover have "page_ok 0x80120000 0x80200000" by (simp add: page_ok_def v2p_def PGSIZE_def KERNBASE_def PHYSTOP_def)
  ultimately obtain s0 :: kst where s0: "free_pages 0x80120000 s0 [0x80200000]"
    using free_pages_free [of "0x80120000" ?k "[]" "0x80200000"] by auto
  then obtain s where "page_alloc s0 = (Some 0x80200000, s)" using free_pages_alloc(1) [OF s0] by (simp add: page_alloc_def)
  then have r: "page_run page_alloc page_free page_touch s0 s [0x80200000]" by (intro page_run.alloc [OF page_run.start])
  have "fst (kalloc s) = 0" using kalloc_conserves [OF s0 r] by auto
  then show ?thesis using s0 r by blast
qed

text \<open>C36. At boot \<^verbatim>\<open>kinit1\<close> puts every whole page of the range on the free list: those from the first page boundary at
  or after the start, up to the last that ends within the range.\<close>

theorem kinit_frees_range:
  fixes s :: "'a kst_scheme"
  assumes "free_pages e s ps" "p = PGROUNDUP vstart" "e \<le> p" "0x80000000 \<le> unat p" "p \<le> vend" "unat vend \<le> 0x8E000000"
    "set (pages_from p ((unat vend - unat p) div 4096)) \<inter> set ps = {}"
  shows "\<exists>s'. kinit1 vstart vend s = Inr ((), s') \<and> free_pages e s' (rev (pages_from p ((unat vend - unat p) div 4096)) @ ps)"
proof -
  let ?n = "(unat vend - unat p) div 4096"
  have le: "unat p \<le> unat vend" using assms(5) by (simp add: word_le_nat_alt)
  then have v: "unat vend = unat p + 4096 * ?n + (unat vend - unat p) mod 4096" by simp
  have "page_ok e x" if x: "x \<in> set (pages_from p ?n)" for x
  proof -
    obtain i where i: "i < ?n" "x = p + of_nat (4096 * i)" using x by (auto simp: pages_from_def)
    then have "4096 * i + 4096 \<le> 4096 * ?n" by simp
    then have xi: "unat x = unat p + 4096 * i" "4096 * i + 4096 \<le> unat vend - unat p"
      using i v assms(6) unat_add_of_nat [of p "4096 * i"] by (simp_all add: le)
    have "unat p mod 4096 = 0" using PGROUND_aligned(1) [of vstart] assms(2) mod_PGSIZE by simp
    then have "x mod PGSIZE = 0" unfolding mod_PGSIZE xi(1) by simp
    moreover have "e \<le> x" using assms(3) xi(1) by (simp add: word_le_nat_alt)
    ultimately show ?thesis using xi assms(4,6) by (intro page_ok_range) auto
  qed
  then show ?thesis
    using freerange_loop_ok [OF assms(1) _ assms(7) v] assms(2,6) by (simp add: kinit1_def freerange_def)
qed

theorem kinit_frees_range_witness:
  "\<exists>s' :: kst. kinit1 0x80120001 0x80122800 (kst_on (fs_on (\<lambda>_. []) []) Map.empty) = Inr ((), s') \<and>
    free_pages 0x80120000 s' [0x80121000]"
proof -
  let ?k = "kst_on (fs_on (\<lambda>_. []) []) Map.empty"
  have f: "free_pages 0x80120000 ?k []" by (simp add: free_pages_def)
  have p: "0x80121000 = PGROUNDUP 0x80120001" by (simp add: PGROUNDUP_def PGSIZE_def)
  have n: "pages_from 0x80121000 ((unat (0x80122800 :: u32) - unat (0x80121000 :: u32)) div 4096) = [0x80121000]"
    by (simp add: pages_from_def)
  show ?thesis using kinit_frees_range [OF f p, of "0x80122800"] unfolding n by simp
qed

end
