(* ===== verification/Kmalloc.thy ===== *)
theory Kmalloc
  imports Kalloc
begin

text \<open>
  The kernel's general allocator (\<^verbatim>\<open>kmalloc\<close> and \<^verbatim>\<open>kmfree\<close> in \<^verbatim>\<open>kalloc.c\<close>): a circular list of free blocks in
  address order, searched first fit. A block starts with a header of 8 bytes, the address of the next free block and the size in
  units of 8 bytes, both stored in the kernel memory.
\<close>

section \<open>Operations\<close>

definition HDR :: u32 where "HDR = 8"
definition NALLOC :: u32 where "NALLOC = 4096 div HDR"

definition hptr :: "mem \<Rightarrow> u32 \<Rightarrow> u32" where "hptr m a = get32 m a"
definition hsize :: "mem \<Rightarrow> u32 \<Rightarrow> u32" where "hsize m a = get32 m (a + 4)"
definition set_hptr :: "u32 \<Rightarrow> u32 \<Rightarrow> mem \<Rightarrow> mem" where "set_hptr a p m = put32 m a p"
definition set_hsize :: "u32 \<Rightarrow> u32 \<Rightarrow> mem \<Rightarrow> mem" where "set_hsize a n m = put32 m (a + 4) n"

text \<open>The search of \<^verbatim>\<open>kmfree\<close> for the free block before \<open>bp\<close>; no result if it walks round the list forever.\<close>

partial_function (option) kmfree_find :: "mem \<Rightarrow> u32 \<Rightarrow> u32 \<Rightarrow> u32 option" where
  "kmfree_find m bp p =
    (if bp > p \<and> bp < hptr m p then Some p
     else if p \<ge> hptr m p \<and> (bp > p \<or> bp < hptr m p) then Some p
     else kmfree_find m bp (hptr m p))"

definition kmfree_join :: "u32 \<Rightarrow> u32 \<Rightarrow> mem \<Rightarrow> mem" where
  "kmfree_join bp p m =
    (let q = hptr m p;
         m = (if bp + HDR * hsize m bp = q
              then (let m = set_hsize bp (hsize m bp + hsize m q) m in set_hptr bp (hptr m q) m)
              else set_hptr bp q m) in
     if p + HDR * hsize m p = bp
     then (let m = set_hsize p (hsize m p + hsize m bp) m in set_hptr p (hptr m bp) m)
     else set_hptr p bp m)"

definition kmfree :: "u32 \<Rightarrow> 'a kst_scheme \<Rightarrow> ('a kst_scheme, unit) outcome" where
  "kmfree ap s = (let bp = ap - HDR in
     if freep s = 0 then Inl (Fault ''kmfree: no free list'')
     else case kmfree_find (km s) bp (freep s) of None \<Rightarrow> Inl (Hang ''kmfree'')
     | Some p \<Rightarrow> Inr ((), s\<lparr>km := kmfree_join bp p (km s), freep := p\<rparr>))"

definition mehrader :: "u32 \<Rightarrow> 'a kst_scheme \<Rightarrow> ('a kst_scheme, u32) outcome" where
  "mehrader n s = (let n = (if n < NALLOC then NALLOC else n); (p, s) = kalloc s in
     if p = 0 then Inr (0, s)
     else bnd (kmfree (p + HDR) (s\<lparr>km := set_hsize p n (km s)\<rparr>)) (\<lambda>(_, s). Inr (freep s, s)))"

text \<open>Taking \<open>n\<close> units from the free block \<open>p\<close> after \<open>prev\<close>: the whole block, or its tail.\<close>

definition kmalloc_take :: "u32 \<Rightarrow> u32 \<Rightarrow> u32 \<Rightarrow> mem \<Rightarrow> u32 \<times> mem" where
  "kmalloc_take n prev p m =
    (if hsize m p = n then (p, set_hptr prev (hptr m p) m)
     else let m = set_hsize p (hsize m p - n) m; q = p + HDR * hsize m p in (q, set_hsize q n m))"

partial_function (option) kmalloc_loop :: "u32 \<Rightarrow> u32 \<Rightarrow> u32 \<Rightarrow> 'a kst_scheme \<Rightarrow> ('a kst_scheme, u32) outcome option" where
  "kmalloc_loop n prev p s =
    (if hsize (km s) p \<ge> n
     then Some (let (q, m) = kmalloc_take n prev p (km s) in Inr (q + HDR, s\<lparr>km := m, freep := prev\<rparr>))
     else if p = freep s
     then case mehrader n s of Inl e \<Rightarrow> Some (Inl e)
          | Inr (r, s) \<Rightarrow> if r = 0 then Some (Inr (0, s)) else kmalloc_loop n r (hptr (km s) r) s
     else kmalloc_loop n p (hptr (km s) p) s)"

definition kmalloc_start :: "'a kst_scheme \<Rightarrow> 'a kst_scheme" where
  "kmalloc_start s = (if freep s = 0
     then s\<lparr>km := set_hsize (kbase s) 0 (set_hptr (kbase s) (kbase s) (km s)), freep := kbase s\<rparr> else s)"

definition nunits :: "u32 \<Rightarrow> u32" where
  "nunits nbytes = (nbytes + HDR - 1) div HDR + 1"

definition kmalloc :: "u32 \<Rightarrow> 'a kst_scheme \<Rightarrow> ('a kst_scheme, u32) outcome" where
  "kmalloc nbytes s = (let s = kmalloc_start s in
     case kmalloc_loop (nunits nbytes) (freep s) (hptr (km s) (freep s)) s of None \<Rightarrow> Inl (Hang ''kmalloc'') | Some r \<Rightarrow> r)"

text \<open>\<^verbatim>\<open>kmallocz\<close> clears the block without looking whether there is one.\<close>

definition kmallocz :: "u32 \<Rightarrow> 'a kst_scheme \<Rightarrow> ('a kst_scheme, u32) outcome" where
  "kmallocz nbytes s = bnd (kmalloc nbytes s) (\<lambda>(p, s).
     if p = 0 then Inl (Fault ''kmallocz: memset of a null pointer'')
     else Inr (p, s\<lparr>km := memset (km s) p 0 nbytes\<rparr>))"

end
