(* ===== verification/Pipe.thy ===== *)
theory Pipe
  imports Kmalloc Fifo
begin

text \<open>
  Pipes (\<^verbatim>\<open>pipe.c\<close>): a ring buffer of 512 bytes between a writer and a reader, with free-running 32-bit
  counters. \<^verbatim>\<open>pipealloc\<close> is in the theory of open files, which it allocates.
\<close>

section \<open>Operations\<close>

definition pipe_new :: "bytes \<Rightarrow> pipe" where
  "pipe_new junk = \<lparr>pp_data = junk, pp_nread = 0, pp_nwrite = 0, pp_readopen = True, pp_writeopen = True\<rparr>"

definition pipe_full :: "pipe \<Rightarrow> bool" where
  "pipe_full q \<longleftrightarrow> pp_nwrite q = pp_nread q + of_nat PIPESIZE"

definition pipe_empty :: "pipe \<Rightarrow> bool" where
  "pipe_empty q \<longleftrightarrow> pp_nread q = pp_nwrite q"

definition pipe_put :: "u8 \<Rightarrow> pipe \<Rightarrow> pipe" where
  "pipe_put c q = q\<lparr>pp_data := (pp_data q)[unat (pp_nwrite q) mod PIPESIZE := c], pp_nwrite := pp_nwrite q + 1\<rparr>"

definition pipe_get :: "pipe \<Rightarrow> u8 \<times> pipe" where
  "pipe_get q = (pp_data q ! (unat (pp_nread q) mod PIPESIZE), q\<lparr>pp_nread := pp_nread q + 1\<rparr>)"

text \<open>The loop of \<^verbatim>\<open>pipewrite\<close>; false if the reader is gone or the process killed while the pipe is
  full. A writer that sleeps continues with the remaining bytes when it is woken.\<close>

fun pipewrite_loop :: "u32 \<Rightarrow> bytes \<Rightarrow> 'a kst_scheme \<Rightarrow> ('a kst_scheme, bool) outcome" where
  "pipewrite_loop p [] s = Inr (True, s)"
| "pipewrite_loop p (c # cs) s = (case pipes s p of None \<Rightarrow> Inl (Fault ''pipewrite: no pipe'')
     | Some q \<Rightarrow>
       if pipe_full q
       then if \<not> pp_readopen q \<or> p_killed (cur s) then Inr (False, s)
            else sleep (ChPipeWrite p) (wakeup (ChPipeRead p) s)
       else pipewrite_loop p cs (upd_pipe p (pipe_put c q) s))"

definition pipewrite :: "u32 \<Rightarrow> bytes \<Rightarrow> int \<Rightarrow> 'a kst_scheme \<Rightarrow> ('a kst_scheme, int) outcome" where
  "pipewrite p addr n s = bnd (pipewrite_loop p (take (nat n) addr) s) (\<lambda>(ok, s).
     if ok then Inr (n, wakeup (ChPipeRead p) s) else Inr (-1, s))"

fun piperead_loop :: "nat \<Rightarrow> pipe \<Rightarrow> bytes \<times> pipe" where
  "piperead_loop 0 q = ([], q)"
| "piperead_loop (Suc n) q = (if pipe_empty q then ([], q)
     else let (c, q) = pipe_get q; (cs, q) = piperead_loop n q in (c # cs, q))"

definition piperead :: "u32 \<Rightarrow> int \<Rightarrow> 'a kst_scheme \<Rightarrow> ('a kst_scheme, int \<times> bytes) outcome" where
  "piperead p n s = (case pipes s p of None \<Rightarrow> Inl (Fault ''piperead: no pipe'')
     | Some q \<Rightarrow>
       if pipe_empty q \<and> pp_writeopen q
       then if p_killed (cur s) then Inr ((-1, []), s) else sleep (ChPipeRead p) s
       else let (bs, q) = piperead_loop (nat n) q in
         Inr ((int (length bs), bs), wakeup (ChPipeWrite p) (upd_pipe p q s)))"

definition pipeclose :: "u32 \<Rightarrow> bool \<Rightarrow> 'a kst_scheme \<Rightarrow> ('a kst_scheme, unit) outcome" where
  "pipeclose p writable s = (case pipes s p of None \<Rightarrow> Inl (Fault ''pipeclose: no pipe'')
     | Some q \<Rightarrow>
       let q = (if writable then q\<lparr>pp_writeopen := False\<rparr> else q\<lparr>pp_readopen := False\<rparr>);
           s = wakeup (if writable then ChPipeRead p else ChPipeWrite p) (upd_pipe p q s) in
       if \<not> pp_readopen q \<and> \<not> pp_writeopen q then kmfree p (s\<lparr>pipes := (pipes s)(p := None)\<rparr>) else Inr ((), s))"

section \<open>The ring buffer is a queue\<close>

definition pipe_len :: "pipe \<Rightarrow> nat" where
  "pipe_len q = unat (pp_nwrite q - pp_nread q)"

definition pipe_inv :: "pipe \<Rightarrow> bool" where
  "pipe_inv q \<longleftrightarrow> length (pp_data q) = PIPESIZE \<and> pipe_len q \<le> PIPESIZE"

definition pipe_abs :: "pipe \<Rightarrow> bytes" where
  "pipe_abs q = map (\<lambda>i. pp_data q ! ((unat (pp_nread q) + i) mod PIPESIZE)) [0..<pipe_len q]"

lemma unat_mod_ring: "unat ((a :: u32) + of_nat i) mod PIPESIZE = (unat a + i) mod PIPESIZE"
proof -
  have "unat (a + of_nat i) = (unat a + i) mod 2 ^ 32"
    by (simp add: unat_word_ariths unat_of_nat mod_add_right_eq)
  moreover have "(x mod 2 ^ 32) mod PIPESIZE = x mod PIPESIZE" for x :: nat
    by (rule mod_mod_cancel) (simp add: PIPESIZE_def)
  ultimately show ?thesis by simp
qed

lemma pipe_nwrite: "unat (pp_nwrite q) mod PIPESIZE = (unat (pp_nread q) + pipe_len q) mod PIPESIZE"
proof -
  have "pp_nwrite q = pp_nread q + of_nat (pipe_len q)" by (simp add: pipe_len_def)
  then show ?thesis using unat_mod_ring [of "pp_nread q" "pipe_len q"] by simp
qed

lemma unat_Suc32: "unat (a :: u32) < 2 ^ 32 - 1 \<Longrightarrow> unat (a + 1) = unat a + 1"
  by (simp add: unat_word_ariths)

lemma pipe_full_len: "pipe_full q \<longleftrightarrow> pipe_len q = PIPESIZE"
proof -
  have "pp_nwrite q = pp_nread q + 512 \<longleftrightarrow> pp_nwrite q - pp_nread q = 512" by (auto simp: algebra_simps)
  also have "\<dots> \<longleftrightarrow> unat (pp_nwrite q - pp_nread q) = unat (512 :: u32)" by (simp only: word_unat_eq_iff)
  finally show ?thesis by (simp add: pipe_full_def pipe_len_def PIPESIZE_def)
qed

lemma pipe_empty_len: "pipe_empty q \<longleftrightarrow> pipe_len q = 0"
  by (auto simp: pipe_empty_def pipe_len_def unat_eq_0)

lemma pipe_empty_abs: "pipe_empty q \<longleftrightarrow> pipe_abs q = []"
  by (simp add: pipe_empty_len pipe_abs_def)

lemma ring_distinct:
  assumes "i < n" "n < PIPESIZE"
  shows "(a + i) mod PIPESIZE \<noteq> (a + n) mod PIPESIZE"
proof
  assume "(a + i) mod PIPESIZE = (a + n) mod PIPESIZE"
  then have "(a + n) mod PIPESIZE = (a + i) mod PIPESIZE" by simp
  then have "PIPESIZE dvd n - i" using assms(1) mod_eq_dvd_iff_nat [of "a + i" "a + n" PIPESIZE] by simp
  then show False using assms dvd_imp_le [of PIPESIZE "n - i"] by simp
qed

lemma pipe_put_len: "pipe_len q < PIPESIZE \<Longrightarrow> pipe_len (pipe_put c q) = Suc (pipe_len q)"
  using unat_Suc32 [of "pp_nwrite q - pp_nread q"]
  by (simp add: pipe_len_def pipe_put_def PIPESIZE_def algebra_simps)

lemma pipe_put_ok:
  assumes "pipe_inv q" "\<not> pipe_full q"
  shows "pipe_inv (pipe_put c q)" "pipe_abs (pipe_put c q) = pipe_abs q @ [c]"
proof -
  have l: "pipe_len q < PIPESIZE" "length (pp_data q) = PIPESIZE"
    using assms by (auto simp: pipe_inv_def pipe_full_len)
  note len = pipe_put_len [OF l(1), of c]
  show "pipe_inv (pipe_put c q)" using l len by (simp add: pipe_inv_def) (simp add: pipe_put_def)
  have sel: "pp_nread (pipe_put c q) = pp_nread q"
    "pp_data (pipe_put c q) = (pp_data q)[(unat (pp_nread q) + pipe_len q) mod PIPESIZE := c]"
    using pipe_nwrite [of q] by (simp_all add: pipe_put_def)
  have lt: "(unat (pp_nread q) + pipe_len q) mod PIPESIZE < length (pp_data q)" using l(2) by (simp add: PIPESIZE_def)
  have "map (\<lambda>i. pp_data (pipe_put c q) ! ((unat (pp_nread q) + i) mod PIPESIZE)) [0..<pipe_len q] = pipe_abs q"
    unfolding pipe_abs_def sel using ring_distinct [OF _ l(1)]
    by (intro map_cong refl nth_list_update_neq) (metis atLeastLessThan_iff set_upt)
  then show "pipe_abs (pipe_put c q) = pipe_abs q @ [c]"
    using lt by (simp add: pipe_abs_def [of "pipe_put c q"] len sel)
qed

lemma pipe_get_ok:
  assumes "pipe_inv q" "pipe_abs q \<noteq> []"
  shows "pipe_inv (snd (pipe_get q))" "pipe_abs q = fst (pipe_get q) # pipe_abs (snd (pipe_get q))"
proof -
  have l: "0 < pipe_len q" "pipe_len q \<le> PIPESIZE" using assms by (auto simp: pipe_abs_def pipe_inv_def)
  have "unat (pp_nwrite q - pp_nread q - 1) = pipe_len q - 1"
    using l(1) unat_minus_one [of "pp_nwrite q - pp_nread q"] by (cases "pp_nwrite q = pp_nread q") (simp_all add: pipe_len_def)
  then have len: "pipe_len (snd (pipe_get q)) = pipe_len q - 1" by (simp add: pipe_len_def pipe_get_def algebra_simps)
  show "pipe_inv (snd (pipe_get q))" using assms(1) len by (auto simp: pipe_inv_def) (simp add: pipe_get_def)
  have r: "(unat (pp_nread q + 1) + i) mod PIPESIZE = (unat (pp_nread q) + Suc i) mod PIPESIZE" for i
    using unat_mod_ring [of "pp_nread q" 1] by (metis (no_types, lifting) add.assoc mod_add_left_eq of_nat_1 plus_1_eq_Suc)
  have "[0..<pipe_len q] = 0 # map Suc [0..<pipe_len q - 1]"
    using l(1) by (simp add: upt_conv_Cons map_Suc_upt)
  then show "pipe_abs q = fst (pipe_get q) # pipe_abs (snd (pipe_get q))"
    using r by (simp add: pipe_abs_def len) (simp add: pipe_get_def)
qed

definition pipe_rep :: "pipe \<Rightarrow> bytes \<Rightarrow> bool" where
  "pipe_rep q xs \<longleftrightarrow> pipe_inv q \<and> pipe_abs q = xs"

interpretation pipe_queue: fifo pipe_rep "\<lambda>_ q. \<not> pipe_full q" pipe_put pipe_empty pipe_get
proof (unfold_locales, goal_cases)
  case (3 q x xs)
  then have "pipe_inv q" "pipe_abs q = x # xs" by (auto simp: pipe_rep_def)
  then show ?case using pipe_get_ok [of q] by (auto simp: pipe_rep_def)
qed (auto simp: pipe_put_ok pipe_empty_abs pipe_rep_def)

section \<open>Reading and writing\<close>

lemma pipe_put_sel [simp]:
  "pp_readopen (pipe_put c q) = pp_readopen q" "pp_writeopen (pipe_put c q) = pp_writeopen q"
  "pp_readopen (snd (pipe_get q)) = pp_readopen q" "pp_writeopen (snd (pipe_get q)) = pp_writeopen q"
  by (simp_all add: pipe_put_def pipe_get_def)

lemma pipe_abs_length [simp]: "length (pipe_abs q) = pipe_len q"
  by (simp add: pipe_abs_def)

text \<open>Where there is room for all the bytes the loop stores them all.\<close>

lemma upd_pipe_same: "pipes s p = Some q \<Longrightarrow> upd_pipe p q s = s"
  by (simp add: upd_pipe_def fun_upd_idem)

lemma upd_pipe_twice [simp]: "upd_pipe p q' (upd_pipe p q s) = upd_pipe p q' s"
  by (simp add: upd_pipe_def)

lemma pipewrite_loop_ok:
  "pipes s p = Some q \<Longrightarrow> pipe_inv q \<Longrightarrow> length bs \<le> PIPESIZE - pipe_len q \<Longrightarrow>
   \<exists>q'. pipewrite_loop p bs s = Inr (True, upd_pipe p q' s) \<and> pipe_inv q' \<and>
     pipe_abs q' = pipe_abs q @ bs \<and> pp_readopen q' = pp_readopen q \<and> pp_writeopen q' = pp_writeopen q"
proof (induction bs arbitrary: s q)
  case Nil
  then show ?case using upd_pipe_same [OF Nil.prems(1)] by (intro exI [of _ q]) simp
next
  case (Cons c cs)
  have nf: "\<not> pipe_full q" and l: "pipe_len q < PIPESIZE" using Cons.prems by (auto simp: pipe_full_len)
  have lc: "length cs \<le> PIPESIZE - Suc (pipe_len q)" using Cons.prems(3) by simp
  let ?s = "upd_pipe p (pipe_put c q) s"
  obtain q' where "pipewrite_loop p cs ?s = Inr (True, upd_pipe p q' ?s)" "pipe_inv q'"
     "pipe_abs q' = pipe_abs (pipe_put c q) @ cs" "pp_readopen q' = pp_readopen q" "pp_writeopen q' = pp_writeopen q"
    using Cons.IH [of ?s "pipe_put c q"] Cons.prems(2) nf lc by (auto simp: pipe_put_ok pipe_put_len l)
  then show ?case using Cons.prems nf by (intro exI [of _ q']) (simp add: pipe_put_ok)
qed

lemma piperead_loop_ok:
  "pipe_inv q \<Longrightarrow> piperead_loop n q = (bs, q') \<Longrightarrow>
   bs = take n (pipe_abs q) \<and> pipe_abs q' = drop n (pipe_abs q) \<and> pipe_inv q' \<and>
   pp_readopen q' = pp_readopen q \<and> pp_writeopen q' = pp_writeopen q"
proof (induction n arbitrary: q bs)
  case (Suc n)
  show ?case
  proof (cases "pipe_empty q")
    case False
    then obtain cs where 1: "piperead_loop n (snd (pipe_get q)) = (cs, q')" "bs = fst (pipe_get q) # cs"
      using Suc.prems(2) by (auto split: prod.splits simp: Let_def)
    have ne: "pipe_abs q \<noteq> []" using False by (simp add: pipe_empty_abs)
    show ?thesis using Suc.IH [OF pipe_get_ok(1) [OF Suc.prems(1) ne] 1(1)] pipe_get_ok(2) [OF Suc.prems(1) ne] 1(2) by auto
  qed (use Suc.prems in \<open>auto simp: pipe_empty_abs\<close>)
qed simp

text \<open>No process is asleep on a channel that was just woken.\<close>

lemma wakeup_none_asleep:
  "pr \<in> set (procs (wakeup c s)) \<Longrightarrow> \<not> (p_state pr = SLEEPING \<and> p_chan pr = Some c)"
  by (auto simp: wakeup_def wakeup1_def)

text \<open>C8. A pipe is a queue of bytes: in any interleaving of single-byte writes that find room and reads that find a
  byte, what has been read followed by what is still buffered is what was buffered followed by what has been written. The counters
  are free-running 32-bit values and may wrap around during the run.\<close>

theorem pipe_is_fifo:
  assumes "pipe_inv q" "frun (\<lambda>_ q. \<not> pipe_full q) pipe_put pipe_empty pipe_get ops q = Some (outs, q')"
  shows "pipe_inv q' \<and> pipe_abs q @ puts_of ops = outs @ pipe_abs q'"
  using pipe_queue.run_order [of q "pipe_abs q", OF _ assms(2)] assms(1) by (auto simp: pipe_rep_def)

definition pipe_ex :: pipe where
  "pipe_ex = (pipe_new (replicate PIPESIZE 0))\<lparr>pp_nread := -1, pp_nwrite := -1\<rparr>"

theorem pipe_is_fifo_witness:
  "pipe_inv pipe_ex \<and> (\<exists>q'. frun (\<lambda>_ q. \<not> pipe_full q) pipe_put pipe_empty pipe_get [Put 7, Put 8, Get] pipe_ex = Some ([7], q') \<and>
     pp_nwrite q' = 1 \<and> pipe_abs q' = [8])"
proof -
  have i: "pipe_inv pipe_ex" by (simp add: pipe_inv_def pipe_ex_def pipe_new_def pipe_len_def)
  define q' where "q' = snd (pipe_get (pipe_put 8 (pipe_put 7 pipe_ex)))"
  have "unat (- 1 :: u32) = 2 ^ 32 - 1" by (simp add: unsigned_minus_1_eq_mask mask_eq_exp_minus_1)
  then have m: "unat (- 1 :: u32) mod 512 = 511" by simp
  have r: "frun (\<lambda>_ q. \<not> pipe_full q) pipe_put pipe_empty pipe_get [Put 7, Put 8, Get] pipe_ex = Some ([7], q')"
    using m by (simp add: q'_def pipe_full_def pipe_empty_def pipe_put_def pipe_get_def pipe_ex_def pipe_new_def PIPESIZE_def)
  have n: "pp_nwrite q' = 1" by (simp add: q'_def pipe_put_def pipe_get_def pipe_ex_def)
  have "pipe_abs pipe_ex = []" by (simp add: pipe_abs_def pipe_len_def pipe_ex_def)
  then show ?thesis using pipe_is_fifo [OF i r] i r n by simp
qed

text \<open>C35. A write that fits puts all its bytes, in order, at the end of the pipe and returns their number, and leaves no
  process asleep waiting to read; a read of \<open>n\<close> bytes from a pipe that holds some then returns the first \<open>n\<close> of them
  (fewer if there are fewer), leaves the rest, and leaves no process asleep waiting to write.\<close>

theorem pipe_write_then_read:
  fixes s :: "'a kst_scheme"
  assumes "pipes s p = Some q" "pipe_inv q" "length bs \<le> PIPESIZE - pipe_len q" "bs \<noteq> []"
  shows "\<exists>s1 s2 q1 q2. pipewrite p bs (int (length bs)) s = Inr (int (length bs), s1) \<and>
    pipes s1 p = Some q1 \<and> pipe_inv q1 \<and> pipe_abs q1 = pipe_abs q @ bs \<and>
    (\<forall>pr. pr \<in> set (procs s1) \<longrightarrow> \<not> (p_state pr = SLEEPING \<and> p_chan pr = Some (ChPipeRead p))) \<and>
    piperead p (int n) s1 = Inr ((int (length (take n (pipe_abs q @ bs))), take n (pipe_abs q @ bs)), s2) \<and>
    pipes s2 p = Some q2 \<and> pipe_inv q2 \<and> pipe_abs q2 = drop n (pipe_abs q @ bs) \<and>
    (\<forall>pr. pr \<in> set (procs s2) \<longrightarrow> \<not> (p_state pr = SLEEPING \<and> p_chan pr = Some (ChPipeWrite p)))"
proof -
  obtain q1 where 1: "pipewrite_loop p bs s = Inr (True, upd_pipe p q1 s)" "pipe_inv q1" "pipe_abs q1 = pipe_abs q @ bs"
    using pipewrite_loop_ok [OF assms(1-3)] by blast
  define s1 where "s1 = wakeup (ChPipeRead p) (upd_pipe p q1 s)"
  have w: "pipewrite p bs (int (length bs)) s = Inr (int (length bs), s1)" by (simp add: pipewrite_def 1(1) s1_def)
  obtain xs q2 where r: "piperead_loop n q1 = (xs, q2)" by fastforce
  note R = piperead_loop_ok [OF 1(2) r]
  define s2 where "s2 = wakeup (ChPipeWrite p) (upd_pipe p q2 s1)"
  have p1: "pipes s1 p = Some q1" by (simp add: s1_def)
  have "\<not> pipe_empty q1" using 1(3) assms(4) by (simp add: pipe_empty_abs)
  then have "piperead p (int n) s1 = Inr ((int (length xs), xs), s2)" by (simp add: piperead_def p1 r s2_def)
  moreover have "pipes s2 p = Some q2" by (simp add: s2_def)
  ultimately show ?thesis using w p1 1(2,3) R wakeup_none_asleep [of _ "ChPipeRead p" "upd_pipe p q1 s"]
      wakeup_none_asleep [of _ "ChPipeWrite p" "upd_pipe p q2 s1"]
    unfolding s1_def [symmetric] s2_def [symmetric] by (intro exI [of _ s1] exI [of _ s2] exI [of _ q1] exI [of _ q2]) auto
qed

theorem pipe_write_then_read_witness:
  "\<exists>s :: kst. pipes s 4096 = Some pipe_ex \<and> pipe_inv pipe_ex \<and>
    (\<exists>s1 s2. pipewrite 4096 [1, 2, 3] 3 s = Inr (3, s1) \<and> piperead 4096 2 s1 = Inr ((2, [1, 2]), s2))"
proof -
  let ?s = "kst_on (fs_on (\<lambda>_. []) []) [4096 \<mapsto> pipe_ex]"
  have i: "pipe_inv pipe_ex" and l: "pipe_len pipe_ex = 0"
    by (simp_all add: pipe_inv_def pipe_ex_def pipe_new_def pipe_len_def)
  have a: "pipe_abs pipe_ex = []" by (simp add: pipe_abs_def l)
  have "length [1, 2, 3 :: u8] \<le> PIPESIZE - pipe_len pipe_ex" by (simp add: l PIPESIZE_def)
  from pipe_write_then_read [of ?s 4096 pipe_ex "[1, 2, 3]" 2] i this a show ?thesis by (intro exI [of _ ?s]) auto
qed

end
