(* ===== verification/File.thy ===== *)
theory File
  imports Pipe
begin

text \<open>
  Open files (\<^verbatim>\<open>file.c\<close>) and the creation of a pipe (\<^verbatim>\<open>pipealloc\<close> in \<^verbatim>\<open>pipe.c\<close>): permission checks, the table of
  open files with its reference counts, and reading, writing and seeking through an open file. The device switch is an argument.
\<close>

section \<open>Permissions\<close>

definition U_READ :: u8 where "U_READ = 0x01"
definition U_WRITE :: u8 where "U_WRITE = 0x02"
definition U_EXEC :: u8 where "U_EXEC = 0x04"
definition U_HIDDEN :: u8 where "U_HIDDEN = 0x08"
definition W_READ :: u8 where "W_READ = 0x10"
definition W_WRITE :: u8 where "W_WRITE = 0x20"
definition W_EXEC :: u8 where "W_EXEC = 0x40"
definition W_HIDDEN :: u8 where "W_HIDDEN = 0x80"

datatype fileop = OP_READ | OP_WRITE | OP_EXEC | OP_OPEN | OP_UNLINK | OP_LINK | OP_CREATE

definition has :: "u8 \<Rightarrow> u8 \<Rightarrow> bool" where
  "has perms b \<longleftrightarrow> perms AND b \<noteq> 0"

definition checkfileperm :: "file_t \<Rightarrow> fileop \<Rightarrow> 'a kst_scheme \<Rightarrow> int" where
  "checkfileperm f op s =
    (let x = inodes s ! the (f_ip f); owner = i_owner x; perms = i_perms x; isowner = (owner = p_uid (cur s)) in
     if p_uid (cur s) = -1 \<and> singleuser s = 1 then 0
     else if p_uid (cur s) \<noteq> -1 \<and> singleuser s = 1 then -1
     else if (case op of
         OP_READ \<Rightarrow> isowner \<and> has perms U_READ \<or> has perms W_READ
       | OP_WRITE \<Rightarrow> isowner \<and> has perms U_WRITE \<or> has perms W_WRITE
       | OP_EXEC \<Rightarrow> isowner \<and> (has perms U_READ \<and> has perms U_EXEC) \<or> has perms W_READ \<and> has perms W_EXEC
       | OP_OPEN \<Rightarrow> owner \<noteq> 0 \<and> (has perms U_READ \<or> has perms U_WRITE) \<or> has perms W_READ \<or> has perms W_WRITE
       | OP_UNLINK \<Rightarrow> owner \<noteq> 0 \<and> (has perms U_READ \<and> has perms U_WRITE) \<or> has perms W_READ \<and> has perms W_WRITE
       | _ \<Rightarrow> False)
     then 0 else 1)"

definition nofile :: file_t where
  "nofile = \<lparr>f_type = FD_NONE, f_ref = 0, f_readable = False, f_writable = False, f_pipe = 0, f_ip = None, f_off = 0\<rparr>"

definition checkinodeperm :: "nat \<Rightarrow> fileop \<Rightarrow> 'a kst_scheme \<Rightarrow> int" where
  "checkinodeperm ip op s = checkfileperm (nofile\<lparr>f_ip := Some ip\<rparr>) op s"

section \<open>The table of open files\<close>

definition filealloc :: "'a kst_scheme \<Rightarrow> nat option \<times> 'a kst_scheme" where
  "filealloc s = (case find_index (\<lambda>f. f_ref f = 0) (files s) of None \<Rightarrow> (None, s)
     | Some i \<Rightarrow> (Some i, upd_file i (\<lambda>f. f\<lparr>f_ref := 1\<rparr>) s))"

definition filedup :: "nat \<Rightarrow> 'a kst_scheme \<Rightarrow> ('a kst_scheme, nat) outcome" where
  "filedup f s = (if f_ref (files s ! f) < 1 then Inl (Panic ''filedup'')
     else Inr (f, upd_file f (\<lambda>x. x\<lparr>f_ref := f_ref x + 1\<rparr>) s))"

definition fileclose :: "nat \<Rightarrow> 'a kst_scheme \<Rightarrow> ('a kst_scheme, unit) outcome" where
  "fileclose f s =
    (if f_ref (files s ! f) < 1 then Inl (Panic ''fileclose'')
     else let s = upd_file f (\<lambda>x. x\<lparr>f_ref := f_ref x - 1\<rparr>) s in
     if f_ref (files s ! f) > 0 then Inr ((), s)
     else let ff = files s ! f; s = upd_file f (\<lambda>x. x\<lparr>f_ref := 0, f_type := FD_NONE\<rparr>) s in
     case f_type ff of
       FD_PIPE \<Rightarrow> pipeclose (f_pipe ff) (f_writable ff) s
     | FD_INODE \<Rightarrow> let ip = the (f_ip ff) in
         bnd (begin_op (i_dev (inodes s ! ip)) s) (\<lambda>(_, s).
         bnd (iput ip s) (\<lambda>(_, s). end_op (i_dev (inodes s ! ip)) s))
     | FD_NONE \<Rightarrow> Inr ((), s))"

section \<open>Operations on an open file\<close>

definition filestat :: "nat \<Rightarrow> stat \<Rightarrow> 'a kst_scheme \<Rightarrow> ('a kst_scheme, int \<times> stat) outcome" where
  "filestat f st s = (let x = files s ! f in
     if f_type x = FD_INODE
     then if checkfileperm x OP_OPEN s \<noteq> 0 then Inr ((-1, st), seterr ''not allowed'' s)
          else bnd (ilock (f_ip x) s) (\<lambda>(_, s). let st = stati (the (f_ip x)) st s in Inr ((0, st), iunlock (f_ip x) s))
     else Inr ((-1, st), s))"

definition fileread :: "'a kst_scheme devsw list \<Rightarrow> nat \<Rightarrow> int \<Rightarrow> 'a kst_scheme \<Rightarrow> ('a kst_scheme, int \<times> bytes) outcome" where
  "fileread devsw f n s = (let x = files s ! f in
     if \<not> f_readable x then Inr ((-1, []), seterr ''file is unreadable'' s)
     else case f_type x of
       FD_PIPE \<Rightarrow> piperead (f_pipe x) n s
     | FD_INODE \<Rightarrow>
         bnd (ilock (f_ip x) s) (\<lambda>(_, s).
         bnd (readi devsw (the (f_ip x)) (f_off (files s ! f)) (nat (n mod 2 ^ 32)) s) (\<lambda>((r, bs), s).
           let s = (if r > 0 then upd_file f (\<lambda>x. x\<lparr>f_off := u32add (f_off x) (nat r)\<rparr>) s else s) in
           Inr ((r, bs), iunlock (f_ip x) s)))
     | FD_NONE \<Rightarrow> Inr ((-1, []), seterr ''fd type is unknown'' s))"

definition fileseek :: "nat \<Rightarrow> int \<Rightarrow> int \<Rightarrow> 'a kst_scheme \<Rightarrow> int \<times> 'a kst_scheme" where
  "fileseek f n dir s = (let x = files s ! f in
     if \<not> f_readable x \<and> \<not> f_writable x then (-1, seterr ''file is unreadable'' s)
     else case f_type x of
       FD_PIPE \<Rightarrow> (-1, seterr ''file is the wrong type'' s)
     | FD_INODE \<Rightarrow>
         let un = nat (n mod 2 ^ 32);
             off = (if dir = 0 then un
                    else if dir = 1 then u32add (f_off x) un
                    else if dir = 2 then u32add un (i_size (inodes s ! the (f_ip x)))
                    else f_off x) in
         (s32 off, upd_file f (\<lambda>x. x\<lparr>f_off := off\<rparr>) s)
     | FD_NONE \<Rightarrow> (-1, seterr ''fd type is unknown'' s))"

definition FWMAX :: int where "FWMAX = int ((LOGSIZE - 1 - 1 - 2) div 2 * 512)"

text \<open>One transaction of \<^verbatim>\<open>filewrite\<close>.\<close>

definition filewrite1 :: "'a kst_scheme devsw list \<Rightarrow> nat \<Rightarrow> bytes \<Rightarrow> int \<Rightarrow> 'a kst_scheme \<Rightarrow> ('a kst_scheme, int) outcome" where
  "filewrite1 devsw f bs n1 s = (let ip = the (f_ip (files s ! f)) in
     bnd (begin_op (i_dev (inodes s ! ip)) s) (\<lambda>(_, s).
     bnd (ilock (Some ip) s) (\<lambda>(_, s).
     bnd (writei devsw ip bs (f_off (files s ! f)) (nat n1) s) (\<lambda>(r, s).
       let s = iunlock (Some ip) (if r > 0 then upd_file f (\<lambda>x. x\<lparr>f_off := u32add (f_off x) (nat r)\<rparr>) s else s) in
       bnd (end_op (i_dev (inodes s ! ip)) s) (\<lambda>(_, s). Inr (r, s))))))"

function filewrite_loop :: "'a kst_scheme devsw list \<Rightarrow> nat \<Rightarrow> bytes \<Rightarrow> int \<Rightarrow> int \<Rightarrow> 'a kst_scheme \<Rightarrow> ('a kst_scheme, int) outcome" where
  "filewrite_loop devsw f addr n i s =
    (if i < n
     then let n1 = min (n - i) FWMAX in
       bnd (filewrite1 devsw f (drop (nat i) addr) n1 s) (\<lambda>(r, s).
         if r = -2 then Inr (-1, seterr ''filesystem full: bitmap full'' s)
         else if r < 0 then Inr (if i = n then n else -1, s)
         else if r \<noteq> n1 then Inr (-1, seterr ''a short write to file occured'' s)
         else filewrite_loop devsw f addr n (i + r) s)
     else Inr (if i = n then n else -1, s))"
  by pat_completeness auto
termination
  by (relation "measure (\<lambda>(devsw, f, addr, n, i, s). nat (n - i))") (auto simp: FWMAX_def LOGSIZE_def MAXOPBLOCKS_def)

declare filewrite_loop.simps [simp del]

definition filewrite :: "'a kst_scheme devsw list \<Rightarrow> nat \<Rightarrow> bytes \<Rightarrow> int \<Rightarrow> 'a kst_scheme \<Rightarrow> ('a kst_scheme, int) outcome" where
  "filewrite devsw f addr n s = (let x = files s ! f in
     if \<not> f_writable x then Inr (-1, seterr ''file is unwriteable'' s)
     else case f_type x of
       FD_PIPE \<Rightarrow> pipewrite (f_pipe x) addr n s
     | FD_INODE \<Rightarrow> filewrite_loop devsw f addr n 0 s
     | FD_NONE \<Rightarrow> Inr (-1, seterr ''fd type is unknown'' s))"

section \<open>Creating a pipe\<close>

definition SIZEOF_PIPE :: u32 where "SIZEOF_PIPE = 52 + 512 + 16"

text \<open>The exit \<^verbatim>\<open>bad\<close> of \<^verbatim>\<open>pipealloc\<close>; the pipe itself is never allocated there.\<close>

definition pipealloc_bad :: "nat option \<Rightarrow> nat option \<Rightarrow> 'a kst_scheme \<Rightarrow> ('a kst_scheme, (nat \<times> nat) option) outcome" where
  "pipealloc_bad f0 f1 s =
    bnd (case f0 of None \<Rightarrow> Inr ((), s) | Some f \<Rightarrow> fileclose f s) (\<lambda>(_, s).
    bnd (case f1 of None \<Rightarrow> Inr ((), s) | Some f \<Rightarrow> fileclose f s) (\<lambda>(_, s). Inr (None, s)))"

definition pipealloc :: "'a kst_scheme \<Rightarrow> ('a kst_scheme, (nat \<times> nat) option) outcome" where
  "pipealloc s = (case filealloc s of (None, s) \<Rightarrow> pipealloc_bad None None s
     | (Some f0, s) \<Rightarrow> (case filealloc s of (None, s) \<Rightarrow> pipealloc_bad (Some f0) None s
     | (Some f1, s) \<Rightarrow>
       bnd (kmalloc SIZEOF_PIPE s) (\<lambda>(p, s).
         if p = 0 then pipealloc_bad (Some f0) (Some f1) s
         else let s = upd_pipe p (pipe_new (map (\<lambda>i. km s (p + 52 + of_nat i)) [0..<PIPESIZE])) s;
                  s = upd_file f0 (\<lambda>x. x\<lparr>f_type := FD_PIPE, f_readable := True, f_writable := False, f_pipe := p\<rparr>) s;
                  s = upd_file f1 (\<lambda>x. x\<lparr>f_type := FD_PIPE, f_readable := False, f_writable := True, f_pipe := p\<rparr>) s in
              Inr (Some (f0, f1), s))))"

end
