(* ===== verification/Vm.thy ===== *)
theory Vm
  imports Kalloc
begin

text \<open>
  Page tables and user memory (\<^verbatim>\<open>vm.c\<close>, \<^verbatim>\<open>mmu.h\<close>): the two-level tables live in kernel memory and are read and
  written there word by word. The segment descriptors of \<^verbatim>\<open>seginit\<close> and \<^verbatim>\<open>switchuvm\<close> are not modelled.
\<close>

section \<open>Addresses and entries\<close>

definition EXTMEM :: u32 where "EXTMEM = 0x100000"
definition DEVSPACE :: u32 where "DEVSPACE = 0xFE000000"
definition KERNLINK :: u32 where "KERNLINK = KERNBASE + EXTMEM"
definition PTE_P :: u32 where "PTE_P = 1"
definition PTE_W :: u32 where "PTE_W = 2"
definition PTE_U :: u32 where "PTE_U = 4"
definition NPDENTRIES :: nat where "NPDENTRIES = 1024"
definition NPTENTRIES :: u32 where "NPTENTRIES = 1024"

definition PDX :: "u32 \<Rightarrow> u32" where "PDX va = drop_bit 22 va AND 0x3FF"
definition PTX :: "u32 \<Rightarrow> u32" where "PTX va = drop_bit 12 va AND 0x3FF"
definition PTE_ADDR :: "u32 \<Rightarrow> u32" where "PTE_ADDR pte = pte AND NOT 0xFFF"
definition PTE_FLAGS :: "u32 \<Rightarrow> u32" where "PTE_FLAGS pte = pte AND 0xFFF"

section \<open>Walking and mapping\<close>

definition walkpgdir :: "u32 \<Rightarrow> u32 \<Rightarrow> bool \<Rightarrow> 'a kst_scheme \<Rightarrow> u32 \<times> 'a kst_scheme" where
  "walkpgdir pgdir va alloc s =
    (let pde = pgdir + 4 * PDX va; e = get32 (km s) pde in
     if e AND PTE_P \<noteq> 0 then (p2v (PTE_ADDR e) + 4 * PTX va, s)
     else if \<not> alloc then (0, s)
     else let (pgtab, s) = kalloc s in
       if pgtab = 0 then (0, s)
       else let m = memset (km s) pgtab 0 PGSIZE in
         (pgtab + 4 * PTX va, s\<lparr>km := put32 m pde (v2p pgtab OR PTE_P OR PTE_W OR PTE_U)\<rparr>))"

text \<open>The loop of \<^verbatim>\<open>mappages\<close>; \<open>n\<close> is the number of pages after the one at \<open>a\<close>, that is \<^verbatim>\<open>(last - a) / PGSIZE\<close>.\<close>

fun mappages_loop :: "u32 \<Rightarrow> nat \<Rightarrow> u32 \<Rightarrow> u32 \<Rightarrow> u32 \<Rightarrow> 'a kst_scheme \<Rightarrow> ('a kst_scheme, int) outcome" where
  "mappages_loop pgdir n a pa perm s =
    (case walkpgdir pgdir a True s of (pte, s) \<Rightarrow>
       if pte = 0 then Inr (-1, s)
       else if get32 (km s) pte AND PTE_P \<noteq> 0 then Inl (Panic ''remap'')
       else let s = s\<lparr>km := put32 (km s) pte (pa OR perm OR PTE_P)\<rparr> in
         case n of 0 \<Rightarrow> Inr (0, s) | Suc n \<Rightarrow> mappages_loop pgdir n (a + PGSIZE) (pa + PGSIZE) perm s)"

declare mappages_loop.simps [simp del]

definition mappages :: "u32 \<Rightarrow> u32 \<Rightarrow> u32 \<Rightarrow> u32 \<Rightarrow> u32 \<Rightarrow> 'a kst_scheme \<Rightarrow> ('a kst_scheme, int) outcome" where
  "mappages pgdir va sz pa perm s =
    (let a = PGROUNDDOWN va; last = PGROUNDDOWN (va + sz - 1) in
     mappages_loop pgdir (unat ((last - a) div PGSIZE)) a pa perm s)"

section \<open>Kernel mappings\<close>

record kmap =
  virt :: u32
  phys_start :: u32
  phys_end :: u32
  perm :: u32

definition kmap_table :: "u32 \<Rightarrow> kmap list" where
  "kmap_table data =
    [\<lparr>virt = KERNBASE, phys_start = 0, phys_end = EXTMEM, perm = PTE_W\<rparr>,
     \<lparr>virt = KERNLINK, phys_start = v2p KERNLINK, phys_end = v2p data, perm = 0\<rparr>,
     \<lparr>virt = data, phys_start = v2p data, phys_end = PHYSTOP, perm = PTE_W\<rparr>,
     \<lparr>virt = DEVSPACE, phys_start = DEVSPACE, phys_end = 0, perm = PTE_W\<rparr>]"

fun setupkvm_loop :: "u32 \<Rightarrow> kmap list \<Rightarrow> 'a kst_scheme \<Rightarrow> ('a kst_scheme, u32) outcome" where
  "setupkvm_loop pgdir [] s = Inr (pgdir, s)"
| "setupkvm_loop pgdir (k # ks) s =
     bnd (mappages pgdir (virt k) (phys_end k - phys_start k) (phys_start k) (perm k) s) (\<lambda>(r, s).
       if r < 0 then Inr (0, s) else setupkvm_loop pgdir ks s)"

definition setupkvm :: "'a kst_scheme \<Rightarrow> ('a kst_scheme, u32) outcome" where
  "setupkvm s = (let (pgdir, s) = kalloc s in
     if pgdir = 0 then Inr (0, s)
     else if p2v PHYSTOP > DEVSPACE then Inl (Panic ''PHYSTOP too high'')
     else setupkvm_loop pgdir (kmap_table (kdata s)) (s\<lparr>km := memset (km s) pgdir 0 PGSIZE\<rparr>))"

definition switchkvm :: "'a kst_scheme \<Rightarrow> 'a kst_scheme" where
  "switchkvm s = s\<lparr>cr3 := v2p (kpgdir s)\<rparr>"

definition kvmalloc :: "'a kst_scheme \<Rightarrow> ('a kst_scheme, unit) outcome" where
  "kvmalloc s = bnd (setupkvm s) (\<lambda>(d, s). Inr ((), switchkvm (s\<lparr>kpgdir := d\<rparr>)))"

definition switchuvm :: "nat \<Rightarrow> 'a kst_scheme \<Rightarrow> ('a kst_scheme, unit) outcome" where
  "switchuvm p s = (if p_pgdir (procs s ! p) = 0 then Inl (Panic ''switchuvm: no pgdir'')
     else Inr ((), s\<lparr>cr3 := v2p (p_pgdir (procs s ! p))\<rparr>))"

section \<open>User memory\<close>

fun store :: "mem \<Rightarrow> u32 \<Rightarrow> bytes \<Rightarrow> mem" where
  "store m a [] = m"
| "store m a (c # cs) = store (m(a := c)) (a + 1) cs"

definition inituvm :: "u32 \<Rightarrow> bytes \<Rightarrow> 'a kst_scheme \<Rightarrow> ('a kst_scheme, unit) outcome" where
  "inituvm pgdir init s =
    (if length init \<ge> unat PGSIZE then Inl (Panic ''inituvm: more than a page'')
     else let (mem, s) = kalloc s in
       if mem = 0 then Inl (Fault ''inituvm: no memory'')
       else bnd (mappages pgdir 0 PGSIZE (v2p mem) (PTE_W OR PTE_U) (s\<lparr>km := memset (km s) mem 0 PGSIZE\<rparr>)) (\<lambda>(_, s).
         Inr ((), s\<lparr>km := store (km s) mem init\<rparr>)))"

text \<open>\<open>i\<close> steps through the offsets of the pages; past \<open>2 ^ 32\<close> it would start again from 0.\<close>

function loaduvm_loop :: "'a kst_scheme devsw list \<Rightarrow> u32 \<Rightarrow> u32 \<Rightarrow> nat \<Rightarrow> u32 \<Rightarrow> nat \<Rightarrow> nat \<Rightarrow> 'a kst_scheme \<Rightarrow> ('a kst_scheme, int) outcome" where
  "loaduvm_loop devsw pgdir addr ip offset sz i s =
    (if i \<ge> sz then Inr (0, s)
     else if i \<ge> 2 ^ 32 then Inl (Hang ''loaduvm'')
     else case walkpgdir pgdir (addr + of_nat i) False s of (pte, s) \<Rightarrow>
       if pte = 0 then Inl (Panic ''loaduvm: address should exist'')
       else let pa = PTE_ADDR (get32 (km s) pte); n = min (sz - i) 4096 in
         bnd (readi devsw ip (unat (offset + of_nat i)) n s) (\<lambda>((r, bs), s).
           let s = s\<lparr>km := store (km s) (p2v pa) bs\<rparr> in
           if r \<noteq> int n then Inr (-1, s) else loaduvm_loop devsw pgdir addr ip offset sz (i + 4096) s))"
  by pat_completeness auto
termination
  by (relation "measure (\<lambda>(devsw, pgdir, addr, ip, offset, sz, i, s). sz - i)") auto

declare loaduvm_loop.simps [simp del]

definition loaduvm :: "'a kst_scheme devsw list \<Rightarrow> u32 \<Rightarrow> u32 \<Rightarrow> nat \<Rightarrow> u32 \<Rightarrow> u32 \<Rightarrow> 'a kst_scheme \<Rightarrow> ('a kst_scheme, int) outcome" where
  "loaduvm devsw pgdir addr ip offset sz s =
    (if addr mod PGSIZE \<noteq> 0 then Inl (Panic ''loaduvm: addr must be page aligned'')
     else loaduvm_loop devsw pgdir addr ip offset (unat sz) 0 s)"

function deallocuvm_loop :: "u32 \<Rightarrow> nat \<Rightarrow> nat \<Rightarrow> 'a kst_scheme \<Rightarrow> ('a kst_scheme, unit) outcome" where
  "deallocuvm_loop pgdir oldsz a s =
    (if a \<ge> oldsz then Inr ((), s)
     else if a \<ge> 2 ^ 32 then Inl (Hang ''deallocuvm'')
     else case walkpgdir pgdir (of_nat a) False s of (pte, s) \<Rightarrow>
       if pte = 0 then deallocuvm_loop pgdir oldsz (a + (unat NPTENTRIES - 1) * 4096 + 4096) s
       else let e = get32 (km s) pte in
         if e AND PTE_P \<noteq> 0
         then let pa = PTE_ADDR e in
           if pa = 0 then Inl (Panic ''kfree'')
           else bnd (kfree (p2v pa) s) (\<lambda>(_, s).
             deallocuvm_loop pgdir oldsz (a + 4096) (s\<lparr>km := put32 (km s) pte 0\<rparr>))
         else deallocuvm_loop pgdir oldsz (a + 4096) s)"
  by pat_completeness auto
termination
  by (relation "measure (\<lambda>(pgdir, oldsz, a, s). oldsz - a)") auto

declare deallocuvm_loop.simps [simp del]

definition deallocuvm :: "u32 \<Rightarrow> u32 \<Rightarrow> u32 \<Rightarrow> 'a kst_scheme \<Rightarrow> ('a kst_scheme, u32) outcome" where
  "deallocuvm pgdir oldsz newsz s =
    (if newsz \<ge> oldsz then Inr (oldsz, s)
     else bnd (deallocuvm_loop pgdir (unat oldsz) (unat (PGROUNDUP newsz)) s) (\<lambda>(_, s). Inr (newsz, s)))"

text \<open>The result of \<^verbatim>\<open>mappages\<close> is not looked at.\<close>

function allocuvm_loop :: "u32 \<Rightarrow> u32 \<Rightarrow> u32 \<Rightarrow> u32 \<Rightarrow> 'a kst_scheme \<Rightarrow> ('a kst_scheme, u32) outcome" where
  "allocuvm_loop pgdir oldsz newsz a s =
    (if a \<ge> newsz then Inr (newsz, s)
     else if unat a + 4096 \<ge> 2 ^ 32 then Inl (Hang ''allocuvm'')
     else let (mem, s) = kalloc s in
       if mem = 0 then bnd (deallocuvm pgdir newsz oldsz s) (\<lambda>(_, s). Inr (0, s))
       else bnd (mappages pgdir a PGSIZE (v2p mem) (PTE_W OR PTE_U) (s\<lparr>km := memset (km s) mem 0 PGSIZE\<rparr>)) (\<lambda>(_, s).
         allocuvm_loop pgdir oldsz newsz (a + PGSIZE) s))"
  by pat_completeness auto
termination
proof (relation "measure (\<lambda>(pgdir, oldsz, newsz, a, s). 2 ^ 32 - unat a)", goal_cases)
  case (2 pgdir oldsz newsz a s x xa y xb)
  then have "unat (a + of_nat 4096) = unat a + 4096" by (intro unat_add_of_nat) simp
  then show ?case using 2(2) by (simp add: PGSIZE_def)
qed simp

declare allocuvm_loop.simps [simp del]

definition allocuvm :: "u32 \<Rightarrow> u32 \<Rightarrow> u32 \<Rightarrow> 'a kst_scheme \<Rightarrow> ('a kst_scheme, u32) outcome" where
  "allocuvm pgdir oldsz newsz s =
    (if newsz \<ge> KERNBASE then Inr (0, s)
     else if newsz < oldsz then Inr (oldsz, s)
     else allocuvm_loop pgdir oldsz newsz (PGROUNDUP oldsz) s)"

fun freevm_loop :: "u32 \<Rightarrow> nat list \<Rightarrow> 'a kst_scheme \<Rightarrow> ('a kst_scheme, unit) outcome" where
  "freevm_loop pgdir [] s = Inr ((), s)"
| "freevm_loop pgdir (i # is) s =
    (let e = get32 (km s) (pgdir + 4 * of_nat i) in
     bnd (if e AND PTE_P \<noteq> 0 then kfree (p2v (PTE_ADDR e)) s else Inr ((), s)) (\<lambda>(_, s). freevm_loop pgdir is s))"

definition freevm :: "u32 \<Rightarrow> 'a kst_scheme \<Rightarrow> ('a kst_scheme, unit) outcome" where
  "freevm pgdir s =
    (if pgdir = 0 then Inl (Panic ''freevm: no pgdir'')
     else bnd (deallocuvm pgdir KERNBASE 0 s) (\<lambda>(_, s).
          bnd (freevm_loop pgdir [0..<NPDENTRIES] s) (\<lambda>(_, s). kfree pgdir s)))"

definition clearpteu :: "u32 \<Rightarrow> u32 \<Rightarrow> 'a kst_scheme \<Rightarrow> ('a kst_scheme, unit) outcome" where
  "clearpteu pgdir uva s = (case walkpgdir pgdir uva False s of (pte, s) \<Rightarrow>
     if pte = 0 then Inl (Panic ''clearpteu'')
     else Inr ((), s\<lparr>km := put32 (km s) pte (get32 (km s) pte AND NOT PTE_U)\<rparr>))"

function copyuvm_loop :: "u32 \<Rightarrow> u32 \<Rightarrow> nat \<Rightarrow> nat \<Rightarrow> 'a kst_scheme \<Rightarrow> ('a kst_scheme, u32) outcome" where
  "copyuvm_loop pgdir d sz i s =
    (if i \<ge> sz then Inr (d, s)
     else if i \<ge> 2 ^ 32 then Inl (Hang ''copyuvm'')
     else case walkpgdir pgdir (of_nat i) False s of (pte, s) \<Rightarrow>
       if pte = 0 then Inl (Panic ''copyuvm: pte should exist'')
       else let e = get32 (km s) pte in
       if e AND PTE_P = 0 then Inl (Panic ''copyuvm: page not present'')
       else let (mem, s) = kalloc s in
       if mem = 0 then bnd (freevm d s) (\<lambda>(_, s). Inr (0, s))
       else bnd (mappages d (of_nat i) PGSIZE (v2p mem) (PTE_FLAGS e) (s\<lparr>km := memmove (km s) mem (p2v (PTE_ADDR e)) PGSIZE\<rparr>)) (\<lambda>(r, s).
         if r < 0 then bnd (freevm d s) (\<lambda>(_, s). Inr (0, s))
         else copyuvm_loop pgdir d sz (i + 4096) s))"
  by pat_completeness auto
termination
  by (relation "measure (\<lambda>(pgdir, d, sz, i, s). sz - i)") auto

declare copyuvm_loop.simps [simp del]

definition copyuvm :: "u32 \<Rightarrow> u32 \<Rightarrow> 'a kst_scheme \<Rightarrow> ('a kst_scheme, u32) outcome" where
  "copyuvm pgdir sz s = bnd (setupkvm s) (\<lambda>(d, s).
     if d = 0 then Inr (0, s) else copyuvm_loop pgdir d (unat sz) 0 s)"

text \<open>\<^verbatim>\<open>uva2ka\<close> reads the entry without looking whether there is one.\<close>

definition uva2ka :: "u32 \<Rightarrow> u32 \<Rightarrow> 'a kst_scheme \<Rightarrow> ('a kst_scheme, u32) outcome" where
  "uva2ka pgdir uva s = (case walkpgdir pgdir uva False s of (pte, s) \<Rightarrow>
     if pte = 0 then Inl (Fault ''uva2ka: no page table'')
     else let e = get32 (km s) pte in
       Inr (if e AND PTE_P = 0 \<or> e AND PTE_U = 0 then 0 else p2v (PTE_ADDR e), s))"

lemma page_rest: "0 < unat (PGSIZE - (va - PGROUNDDOWN va))"
proof -
  have "va mod PGSIZE < PGSIZE" by (simp add: PGSIZE_def word_mod_less_divisor)
  then have "PGSIZE - (va - PGROUNDDOWN va) \<noteq> 0" unfolding PGROUNDDOWN_page(2) by auto
  then show ?thesis by (simp add: unat_gt_0)
qed

function copyout_loop :: "u32 \<Rightarrow> u32 \<Rightarrow> bytes \<Rightarrow> 'a kst_scheme \<Rightarrow> ('a kst_scheme, int) outcome" where
  "copyout_loop pgdir va buf s =
    (if buf = [] then Inr (0, s)
     else let va0 = PGROUNDDOWN va in
       bnd (uva2ka pgdir va0 s) (\<lambda>(pa0, s).
         if pa0 = 0 then Inr (-1, s)
         else let n = min (unat (PGSIZE - (va - va0))) (length buf) in
           copyout_loop pgdir (va0 + PGSIZE) (drop n buf) (s\<lparr>km := store (km s) (pa0 + (va - va0)) (take n buf)\<rparr>)))"
  by pat_completeness auto
termination
  by (relation "measure (\<lambda>(pgdir, va, buf, s). length buf)") (auto simp: page_rest)

declare copyout_loop.simps [simp del]

definition copyout :: "u32 \<Rightarrow> u32 \<Rightarrow> bytes \<Rightarrow> 'a kst_scheme \<Rightarrow> ('a kst_scheme, int) outcome" where
  "copyout pgdir va p s = copyout_loop pgdir va p s"

section \<open>Memory as a process sees it\<close>

text \<open>
  The translation the processor makes for an access in kernel mode under the given page directory: the kernel address
  of the byte at \<open>va\<close>, or a page fault. System calls read and write the memory of the calling process this way.
\<close>

definition va2ka :: "u32 \<Rightarrow> mem \<Rightarrow> u32 \<Rightarrow> u32 option" where
  "va2ka pgdir m va =
    (let e = get32 m (pgdir + 4 * PDX va) in
     if e AND PTE_P = 0 then None
     else let f = get32 m (p2v (PTE_ADDR e) + 4 * PTX va) in
       if f AND PTE_P = 0 then None else Some (p2v (PTE_ADDR f) + (va AND 0xFFF)))"

definition uload1 :: "u32 \<Rightarrow> mem \<Rightarrow> u32 \<Rightarrow> u8 option" where
  "uload1 pgdir m va = map_option m (va2ka pgdir m va)"

fun uload :: "u32 \<Rightarrow> mem \<Rightarrow> u32 \<Rightarrow> nat \<Rightarrow> bytes option" where
  "uload pgdir m va 0 = Some []"
| "uload pgdir m va (Suc n) = (case uload1 pgdir m va of None \<Rightarrow> None
     | Some c \<Rightarrow> map_option ((#) c) (uload pgdir m (va + 1) n))"

fun ustore :: "u32 \<Rightarrow> mem \<Rightarrow> u32 \<Rightarrow> bytes \<Rightarrow> mem option" where
  "ustore pgdir m va [] = Some m"
| "ustore pgdir m va (c # cs) = (case va2ka pgdir m va of None \<Rightarrow> None | Some a \<Rightarrow> ustore pgdir (m(a := c)) (va + 1) cs)"

end
