(* ===== verification/Mailbox.thy ===== *)
theory Mailbox
  imports Kmalloc Fifo
begin

text \<open>
  Message passing between processes (the mailbox operations of \<^verbatim>\<open>proc.c\<close>). A mailbox is a linked list of
  messages; \<^verbatim>\<open>mbox->lock\<close> makes each operation on it atomic. The trace output that \<^verbatim>\<open>msgnote\<close> enables is not modelled.
\<close>

section \<open>Operations\<close>

definition mbox :: "nat \<Rightarrow> 'a pst_scheme \<Rightarrow> mailbox" where
  "mbox i s = p_mbox (procs s ! i)"

definition upd_mbox :: "nat \<Rightarrow> (mailbox \<Rightarrow> mailbox) \<Rightarrow> 'a pst_scheme \<Rightarrow> 'a pst_scheme" where
  "upd_mbox i f s = upd_proc i (\<lambda>p. p\<lparr>p_mbox := f (p_mbox p)\<rparr>) s"

definition upd_msg :: "u32 \<Rightarrow> message \<Rightarrow> 'a kst_scheme \<Rightarrow> 'a kst_scheme" where
  "upd_msg a m s = s\<lparr>msgs := (msgs s)(a := Some m)\<rparr>"

definition SIZEOF_SPINLOCK :: u32 where "SIZEOF_SPINLOCK = 52"

definition initmailbox :: "nat \<Rightarrow> 'a kst_scheme \<Rightarrow> ('a kst_scheme, unit) outcome" where
  "initmailbox i s = bnd (kmalloc SIZEOF_SPINLOCK s) (\<lambda>(l, s).
     if l = 0 then Inl (Fault ''initmailbox: initlock of a null lock'')
     else Inr ((), upd_mbox i (\<lambda>b. b\<lparr>mb_lock := l\<rparr>) s))"

definition add_message :: "nat \<Rightarrow> u32 \<Rightarrow> 'a kst_scheme \<Rightarrow> ('a kst_scheme, int) outcome" where
  "add_message i m s = (case msgs s m of None \<Rightarrow> Inl (Fault ''add_message: no message'')
     | Some x \<Rightarrow>
       let s = upd_msg m (x\<lparr>m_next := 0\<rparr>) s; b = mbox i s in
       if mb_head b = 0 \<and> mb_tail b = 0 then Inr (0, upd_mbox i (\<lambda>b. b\<lparr>mb_tail := m, mb_head := m\<rparr>) s)
       else case msgs s (mb_tail b) of None \<Rightarrow> Inl (Fault ''add_message: no last message'')
         | Some t \<Rightarrow> Inr (0, upd_mbox i (\<lambda>b. b\<lparr>mb_tail := m\<rparr>) (upd_msg (mb_tail b) (t\<lparr>m_next := m\<rparr>) s)))"

definition rem_message :: "nat \<Rightarrow> 'a kst_scheme \<Rightarrow> ('a kst_scheme, u32) outcome" where
  "rem_message i s = (let b = mbox i s; m = mb_head b in
     if m = 0 then Inr (0, s)
     else case msgs s m of None \<Rightarrow> Inl (Fault ''rem_message: no message'')
       | Some x \<Rightarrow>
         let s = (if mb_head b = mb_tail b then upd_mbox i (\<lambda>b. b\<lparr>mb_head := 0, mb_tail := 0\<rparr>) s
                  else upd_mbox i (\<lambda>b. b\<lparr>mb_head := m_next x\<rparr>) s) in
         Inr (m, upd_msg m (x\<lparr>m_next := 0\<rparr>) s))"

definition free_message :: "u32 \<Rightarrow> 'a kst_scheme \<Rightarrow> ('a kst_scheme, u32) outcome" where
  "free_message m s = (case msgs s m of None \<Rightarrow> Inl (Fault ''free_message: no message'')
     | Some x \<Rightarrow>
       bnd (kmfree (m_data x) s) (\<lambda>(_, s).
       bnd (kmfree m (s\<lparr>msgs := (msgs s)(m := None)\<rparr>)) (\<lambda>(_, s). Inr (m_next x, s))))"

partial_function (option) flush_loop :: "u32 \<Rightarrow> 'a kst_scheme \<Rightarrow> ('a kst_scheme, unit) outcome option" where
  "flush_loop c s = (if c = 0 then Some (Inr ((), s))
     else case free_message c s of Inl e \<Rightarrow> Some (Inl e) | Inr (c, s) \<Rightarrow> flush_loop c s)"

text \<open>The list is freed; the mailbox keeps pointing at it.\<close>

definition flush_mailbox :: "nat \<Rightarrow> 'a kst_scheme \<Rightarrow> ('a kst_scheme, unit) outcome" where
  "flush_mailbox i s = (case flush_loop (mb_head (mbox i s)) s of None \<Rightarrow> Inl (Hang ''flush_mailbox'') | Some r \<Rightarrow> r)"

text \<open>Both receive calls look at the mailbox and, if it is empty, release its lock before they mark the process as waiting.
  \<open>msg_block\<close> is that second part, up to \<^verbatim>\<open>sched()\<close>.\<close>

definition msg_block :: "'a kst_scheme \<Rightarrow> 'a kst_scheme" where
  "msg_block s = upd_cur (\<lambda>p. p\<lparr>p_state := MSGWAIT\<rparr>) s"

definition precvwait_rest :: "'a kst_scheme \<Rightarrow> ('a kst_scheme, u32) outcome" where
  "precvwait_rest s = (case msgs s (mb_head (p_mbox (cur s))) of None \<Rightarrow> Inl (Fault ''precvwait: no message'')
     | Some x \<Rightarrow> Inr (m_size x, s))"

definition precvwait :: "'a kst_scheme \<Rightarrow> ('a kst_scheme, u32) outcome" where
  "precvwait s = (if mb_head (p_mbox (cur s)) = 0 then Inl (Sched (msg_block s)) else precvwait_rest s)"

definition precvmsg_rest :: "'a kst_scheme \<Rightarrow> ('a kst_scheme, u32) outcome" where
  "precvmsg_rest s = (let i = the (curproc s); m = mb_head (mbox i s) in
     case msgs s m of None \<Rightarrow> Inl (Fault ''precvmsg: no message'')
     | Some x \<Rightarrow>
       let s = upd_mbox i (\<lambda>b. b\<lparr>mb_head := m_next x\<rparr>) s;
           s = (if mb_head (mbox i s) = 0 then upd_mbox i (\<lambda>b. b\<lparr>mb_tail := 0\<rparr>) s else s) in
       Inr (m, upd_msg m (x\<lparr>m_next := 0\<rparr>) s))"

definition precvmsg :: "'a kst_scheme \<Rightarrow> ('a kst_scheme, u32) outcome" where
  "precvmsg s = (if mb_head (p_mbox (cur s)) = 0 then Inl (Sched (msg_block s)) else precvmsg_rest s)"

definition psendmsg :: "nat \<Rightarrow> u32 \<Rightarrow> 'a kst_scheme \<Rightarrow> ('a kst_scheme, int) outcome" where
  "psendmsg p msg s = bnd (add_message p msg s) (\<lambda>(_, s).
     Inr (0, if p_state (procs s ! p) = MSGWAIT then upd_proc p (\<lambda>x. x\<lparr>p_state := RUNNABLE\<rparr>) s else s))"

section \<open>The list of messages\<close>

fun mchain :: "(u32 \<Rightarrow> message option) \<Rightarrow> u32 \<Rightarrow> u32 list \<Rightarrow> bool" where
  "mchain M a [] \<longleftrightarrow> a = 0"
| "mchain M a (x # xs) \<longleftrightarrow> a = x \<and> x \<noteq> 0 \<and> (case M x of None \<Rightarrow> False | Some m \<Rightarrow> mchain M (m_next m) xs)"

text \<open>The mailbox of process \<open>i\<close> holds the messages \<open>xs\<close>, first come first; \<open>i\<close> is the process that receives.\<close>

definition mb_rep :: "nat \<Rightarrow> 'a kst_scheme \<Rightarrow> u32 list \<Rightarrow> bool" where
  "mb_rep i s xs \<longleftrightarrow> curproc s = Some i \<and> i < length (procs s) \<and> msgs s 0 = None \<and> mchain (msgs s) (mb_head (mbox i s)) xs \<and> distinct xs \<and>
     mb_tail (mbox i s) = (if xs = [] then 0 else last xs)"

definition mb_room :: "nat \<Rightarrow> u32 \<Rightarrow> 'a kst_scheme \<Rightarrow> bool" where
  "mb_room i m s \<longleftrightarrow> msgs s m \<noteq> None \<and> (\<forall>xs. mb_rep i s xs \<longrightarrow> m \<notin> set xs)"

definition mb_put :: "nat \<Rightarrow> u32 \<Rightarrow> 'a kst_scheme \<Rightarrow> 'a kst_scheme" where
  "mb_put i m s = (case psendmsg i m s of Inl _ \<Rightarrow> s | Inr (_, s) \<Rightarrow> s)"

definition mb_get :: "'a kst_scheme \<Rightarrow> u32 \<times> 'a kst_scheme" where
  "mb_get s = (case precvmsg s of Inl _ \<Rightarrow> (0, s) | Inr r \<Rightarrow> r)"

lemma mbox_sels [simp]:
  "mbox i (upd_msg a m s) = mbox i s" "msgs (upd_msg a m s) = (msgs s)(a := Some m)" "msgs (upd_mbox i f s) = msgs s"
  "procs (upd_msg a m s) = procs s" "curproc (upd_msg a m s) = curproc s" "curproc (upd_mbox i f s) = curproc s"
  "length (procs (upd_mbox i f s)) = length (procs s)"
  "i < length (procs s) \<Longrightarrow> mbox i (upd_mbox i f s) = f (mbox i s)"
  "i < length (procs s) \<Longrightarrow> p_state (procs (upd_mbox i f s) ! i) = p_state (procs s ! i)"
  "msgs (upd_proc i g s) = msgs s" "curproc (upd_proc i g s) = curproc s"
  by (simp_all add: mbox_def upd_mbox_def upd_msg_def upd_proc_def)

lemma mbox_state: "i < length (procs s) \<Longrightarrow> mbox i (upd_proc i (\<lambda>x. x\<lparr>p_state := st\<rparr>) s) = mbox i s"
  by (simp add: mbox_def upd_proc_def)

lemma mchain_cong: "mchain M a xs \<Longrightarrow> (\<And>x. x \<in> set xs \<Longrightarrow> M' x = M x) \<Longrightarrow> mchain M' a xs"
  by (induction xs arbitrary: a) (auto split: option.splits)

lemma mchain_snoc:
  assumes "mchain M a xs" "xs \<noteq> []" "distinct xs" "m \<notin> set xs" "m \<noteq> 0" "M' m = Some y" "m_next y = 0"
    "M (last xs) = Some t" "M' (last xs) = Some (t\<lparr>m_next := m\<rparr>)" "\<And>x. x \<noteq> m \<Longrightarrow> x \<noteq> last xs \<Longrightarrow> M' x = M x"
  shows "mchain M' a (xs @ [m])"
  using assms(1-4,8,9,10)
proof (induction xs arbitrary: a)
  case (Cons z zs)
  show ?case
  proof (cases "zs = []")
    case True
    then show ?thesis using Cons.prems assms(5-7) by simp
  next
    case False
    then have "z \<noteq> last zs" using Cons.prems(3) last_in_set [OF False] by auto
    then have "M' z = M z" using Cons.prems(4) Cons.prems(7) [of z] False by auto
    moreover obtain w where "M z = Some w" "mchain M (m_next w) zs" using Cons.prems(1) by (auto split: option.splits)
    moreover have "mchain M' (m_next w) (zs @ [m])" using Cons.IH [OF calculation(3)] Cons.prems False by simp
    ultimately show ?thesis using Cons.prems(1) by simp
  qed
qed simp

lemma add_message_ok:
  assumes "mb_rep i s xs" "msgs s m = Some x" "m \<notin> set xs"
  shows "\<exists>s'. add_message i m s = Inr (0, s') \<and> mb_rep i s' (xs @ [m]) \<and> p_state (procs s' ! i) = p_state (procs s ! i) \<and>
    length (procs s') = length (procs s)"
proof -
  note r = assms(1) [unfolded mb_rep_def]
  have m0: "m \<noteq> 0" using r assms(2) by auto
  show ?thesis
  proof (cases "xs = []")
    case True
    then show ?thesis using r assms(2) m0 by (auto simp: add_message_def mb_rep_def Let_def)
  next
    case False
    have "\<forall>y \<in> set xs. y \<noteq> 0 \<and> msgs s y \<noteq> None" using r
    proof -
      have "mchain M a ys \<Longrightarrow> \<forall>y \<in> set ys. y \<noteq> 0 \<and> M y \<noteq> None" for M a ys
        by (induction ys arbitrary: a) (auto split: option.splits)
      then show ?thesis using r by blast
    qed
    then obtain t where t: "msgs s (last xs) = Some t" "last xs \<noteq> 0" using False last_in_set [OF False] by blast
    let ?M = "(msgs s)(m := Some (x\<lparr>m_next := 0\<rparr>), last xs := Some (t\<lparr>m_next := m\<rparr>))"
    have nm: "last xs \<noteq> m" using assms(3) last_in_set [OF False] by auto
    have "mchain ?M (mb_head (mbox i s)) (xs @ [m])"
      using r assms(3) m0 t nm False by (intro mchain_snoc [of "msgs s"]) auto
    then show ?thesis using r assms(2,3) False t nm by (auto simp: add_message_def mb_rep_def Let_def)
  qed
qed

lemma psendmsg_ok:
  assumes "mb_rep i s xs" "msgs s m = Some x" "m \<notin> set xs"
  shows "\<exists>s'. psendmsg i m s = Inr (0, s') \<and> mb_rep i s' (xs @ [m]) \<and>
    p_state (procs s' ! i) = (if p_state (procs s ! i) = MSGWAIT then RUNNABLE else p_state (procs s ! i))"
proof -
  obtain s1 where s1: "add_message i m s = Inr (0, s1)" "mb_rep i s1 (xs @ [m])" "p_state (procs s1 ! i) = p_state (procs s ! i)"
    using add_message_ok [OF assms] by blast
  have "i < length (procs s1)" using s1(2) by (simp add: mb_rep_def)
  then show ?thesis using s1 by (auto simp: psendmsg_def mb_rep_def mbox_state)
qed

lemma precvmsg_ok:
  assumes "mb_rep i s (x # xs)"
  shows "\<exists>s'. precvmsg s = Inr (x, s') \<and> mb_rep i s' xs"
proof -
  obtain m where m: "msgs s x = Some m" "mchain (msgs s) (m_next m) xs" "x \<noteq> 0" "mb_head (mbox i s) = x" "x \<notin> set xs"
    using assms by (auto simp: mb_rep_def split: option.splits)
  have "mchain ((msgs s)(x := Some (m\<lparr>m_next := 0\<rparr>))) (m_next m) xs" using m(2,5) by (auto intro: mchain_cong)
  moreover have "mb_head (p_mbox (cur s)) = x" "curproc s = Some i" "i < length (procs s)"
    using assms m(4) by (auto simp: mb_rep_def mbox_def cur_def)
  moreover have "xs = [] \<longleftrightarrow> m_next m = 0" using m(2) by (cases xs) auto
  ultimately show ?thesis using assms m by (auto simp: precvmsg_def precvmsg_rest_def mb_rep_def Let_def)
qed

interpretation mail: fifo "mb_rep i" "mb_room i" "mb_put i" "\<lambda>s. mb_head (mbox i s) = 0" mb_get for i
proof (unfold_locales, goal_cases)
  case (1 s xs m)
  then obtain y where y: "msgs s m = Some y" "m \<notin> set xs" by (auto simp: mb_room_def)
  show ?case using psendmsg_ok [OF 1(1) y] by (auto simp: mb_put_def)
next
  case (2 s xs)
  then show ?case by (cases xs) (auto simp: mb_rep_def)
next
  case (3 s x xs)
  then show ?case using precvmsg_ok [OF 3] by (auto simp: mb_get_def)
qed

section \<open>Properties\<close>

text \<open>C9. The mailbox of a process is a queue: in any interleaving of sends of messages that are not already in it and of
  receives that find a message, the messages received, in order, followed by those still in the mailbox are those it held
  at first followed by those sent.\<close>

theorem mailbox_is_fifo:
  fixes s :: "'a kst_scheme"
  assumes "mb_rep i s xs" "frun (mb_room i) (mb_put i) (\<lambda>s. mb_head (mbox i s) = 0) mb_get ops s = Some (outs, s')"
  shows "\<exists>ys. mb_rep i s' ys \<and> xs @ puts_of ops = outs @ ys"
  using mail.run_order [OF assms] .



definition mail_ex :: kst where
  "mail_ex = (kst_on ((fs_on (\<lambda>_. []) [])\<lparr>procs := [zero_proc\<lparr>p_state := RUNNING\<rparr>], curproc := Some 0\<rparr>) Map.empty)
     \<lparr>msgs := [0x80200008 \<mapsto> \<lparr>m_size = 3, m_data = 0x80200100, m_next = 0\<rparr>]\<rparr>"

lemma mail_ex_ok:
  "mb_rep 0 mail_ex []" "msgs mail_ex 0x80200008 = Some \<lparr>m_size = 3, m_data = 0x80200100, m_next = 0\<rparr>"
  "p_state (procs mail_ex ! 0) = RUNNING"
  by (simp_all add: mb_rep_def mail_ex_def mbox_def zero_proc_def)



theorem mailbox_is_fifo_witness:
  "\<exists>s'. frun (mb_room 0) (mb_put 0) (\<lambda>s. mb_head (mbox 0 s) = 0) mb_get [Put 0x80200008, Get] mail_ex = Some ([0x80200008], s') \<and>
    mb_rep 0 s' []"
proof -
  obtain s1 where s1: "psendmsg 0 0x80200008 mail_ex = Inr (0, s1)" "mb_rep 0 s1 [0x80200008]"
    using psendmsg_ok [OF mail_ex_ok(1,2)] by auto
  obtain s2 where s2: "precvmsg s1 = Inr (0x80200008, s2)" using precvmsg_ok [OF s1(2)] by auto
  have "x \<notin> set xs" if "mb_rep 0 mail_ex xs" for x xs using that mail_ex_ok(1) by (cases xs) (auto simp: mb_rep_def)
  then have "mb_room 0 0x80200008 mail_ex" by (auto simp: mb_room_def mail_ex_ok(2))
  then have r: "frun (mb_room 0) (mb_put 0) (\<lambda>s. mb_head (mbox 0 s) = 0) mb_get [Put 0x80200008, Get] mail_ex = Some ([0x80200008], s2)"
    using s1 s2 by (auto simp: mb_put_def mb_get_def mb_rep_def)
  show ?thesis using mailbox_is_fifo [OF mail_ex_ok(1) r] r by auto
qed

end
