(* ===== verification/Heap.thy ===== *)
theory Heap
  imports Kmalloc
begin

text \<open>
  The correctness of the kernel's general allocator: the circular list of free blocks as a list of addresses and sizes, what
  \<^verbatim>\<open>kmfree\<close> and \<^verbatim>\<open>kmalloc\<close> do to it, and that both return.
\<close>

section \<open>Headers in memory\<close>

text \<open>The header of the block at \<open>c\<close> does not change when memory outside its eight bytes does.\<close>

lemma unat_4: "unat (c :: u32) + 8 \<le> 2 ^ 32 \<Longrightarrow> unat (c + 4) = unat c + 4"
  using unat_off [of c 4] by simp

lemma header_frame:
  assumes "unat c + 8 \<le> 2 ^ 32" "\<And>x. unat c \<le> unat x \<Longrightarrow> unat x < unat c + 8 \<Longrightarrow> m' x = m x"
  shows "hptr m' c = hptr m c" "hsize m' c = hsize m c"
  using assms unat_4 [OF assms(1)] by (auto simp: hptr_def hsize_def intro!: get32_frame)

lemma set_frame:
  assumes "unat a + 8 \<le> 2 ^ 32" "unat x < unat a \<or> unat a + 8 \<le> unat x"
  shows "set_hptr a p m x = m x" "set_hsize a n m x = m x"
  using assms unat_4 [OF assms(1)] by (auto simp: set_hptr_def set_hsize_def intro!: put32_frame)

lemma header_same [simp]:
  assumes "unat a + 8 \<le> 2 ^ 32"
  shows "hptr (set_hptr a p m) a = p" "hsize (set_hsize a n m) a = n"
    "hsize (set_hptr a p m) a = hsize m a" "hptr (set_hsize a n m) a = hptr m a"
proof -
  show "hptr (set_hptr a p m) a = p" "hsize (set_hsize a n m) a = n"
    by (simp_all add: hptr_def hsize_def set_hptr_def set_hsize_def)
  have "get32 (put32 m a p) (a + 4) = get32 m (a + 4)"
    using assms unat_4 [OF assms] by (intro get32_frame put32_frame) auto
  moreover have "get32 (put32 m (a + 4) n) a = get32 m a"
    using assms unat_4 [OF assms] by (intro get32_frame put32_frame) auto
  ultimately show "hsize (set_hptr a p m) a = hsize m a" "hptr (set_hsize a n m) a = hptr m a"
    by (simp_all add: hptr_def hsize_def set_hptr_def set_hsize_def)
qed

lemma header_other:
  assumes "unat a + 8 \<le> 2 ^ 32" "unat c + 8 \<le> 2 ^ 32" "unat a + 8 \<le> unat c \<or> unat c + 8 \<le> unat a"
  shows "hptr (set_hptr a p m) c = hptr m c" "hsize (set_hptr a p m) c = hsize m c"
    "hptr (set_hsize a n m) c = hptr m c" "hsize (set_hsize a n m) c = hsize m c"
  using assms by (auto intro!: header_frame set_frame)

lemma unat_end:
  assumes "unat a + 8 * unat w < 2 ^ 32"
  shows "unat (a + HDR * w) = unat a + 8 * unat w"
proof -
  have "a + HDR * w = a + of_nat (8 * unat w)" by (simp add: HDR_def)
  then show ?thesis using unat_off [OF assms] by (simp only:)
qed

section \<open>The circular list\<close>

text \<open>A block is its address and its size in units. \<open>path m p rs\<close>: from the block at \<open>p\<close> the links lead through the blocks
  \<open>rs\<close>, whose headers have these sizes. The list is circular if the path from its last block leads through all of it.\<close>

type_synonym blk = "u32 \<times> nat"

fun path :: "mem \<Rightarrow> u32 \<Rightarrow> blk list \<Rightarrow> bool" where
  "path m p [] \<longleftrightarrow> True"
| "path m p ((a, n) # rs) \<longleftrightarrow> hptr m p = a \<and> unat (hsize m a) = n \<and> path m a rs"

fun lst :: "u32 \<Rightarrow> blk list \<Rightarrow> u32" where
  "lst p [] = p"
| "lst p ((a, n) # rs) = lst a rs"

definition circ :: "mem \<Rightarrow> blk list \<Rightarrow> bool" where
  "circ m bs \<longleftrightarrow> path m (lst 0 bs) bs"

lemma path_append: "path m p (xs @ ys) \<longleftrightarrow> path m p xs \<and> path m (lst p xs) ys"
  by (induction m p xs rule: path.induct) auto

lemma lst_append: "lst p (xs @ ys) = lst (lst p xs) ys"
  by (induction p xs rule: lst.induct) auto

lemma lst_Cons: "lst p (x # xs) = lst (fst x) xs"
  by (cases x) simp

lemma lst_nonempty: "xs \<noteq> [] \<Longrightarrow> lst p xs = lst q xs"
  by (cases xs) (auto simp: lst_Cons)

lemma lst_in: "lst p xs = p \<or> lst p xs \<in> fst ` set xs"
  by (induction p xs rule: lst.induct) auto

lemma lst_mem: "xs \<noteq> [] \<Longrightarrow> lst p xs \<in> fst ` set xs"
  using lst_in [of "fst (hd xs)" "tl xs"] by (cases xs) (auto simp: lst_Cons)

lemma circ_rotate: "circ m (xs @ ys) \<longleftrightarrow> circ m (ys @ xs)"
proof (cases "xs = [] \<or> ys = []")
  case False
  then have "lst q xs = lst 0 xs" "lst q ys = lst 0 ys" for q using lst_nonempty by auto
  then have "lst 0 (xs @ ys) = lst 0 ys" "lst 0 (ys @ xs) = lst 0 xs" "lst (lst 0 ys) xs = lst 0 xs" "lst (lst 0 xs) ys = lst 0 ys"
    by (simp_all add: lst_append)
  then show ?thesis by (auto simp: circ_def path_append)
qed auto

text \<open>The path depends on the headers of its blocks, of its start only on the link and of its last block only on the size.\<close>

lemma path_frame:
  assumes "path m p rs" "hptr m' p' = hptr m p"
    "\<forall>x \<in> set rs. hptr m' (fst x) = hptr m (fst x) \<and> hsize m' (fst x) = hsize m (fst x)"
  shows "path m' p' rs"
  using assms by (induction m p rs arbitrary: p' rule: path.induct) auto

lemma path_snoc: "path m p (rs @ [(a, n)]) \<longleftrightarrow> path m p rs \<and> hptr m (lst p rs) = a \<and> unat (hsize m a) = n"
  by (auto simp: path_append)

section \<open>The layout\<close>

text \<open>The blocks lie in address order between two addresses; a block without units still has its header.\<close>

definition bend :: "blk \<Rightarrow> nat" where "bend x = unat (fst x) + 8 * max 1 (snd x)"
definition ext :: "blk \<Rightarrow> nat set" where "ext x = {unat (fst x)..<bend x}"

fun lay :: "nat \<Rightarrow> blk list \<Rightarrow> nat \<Rightarrow> bool" where
  "lay lo [] hi \<longleftrightarrow> lo \<le> hi"
| "lay lo (x # xs) hi \<longleftrightarrow> lo \<le> unat (fst x) \<and> lay (bend x) xs hi"

lemma bend_gt: "unat (fst x) + 8 \<le> bend x" by (simp add: bend_def)

lemma lay_bounds: "lay lo xs hi \<Longrightarrow> lo \<le> hi \<and> (\<forall>x \<in> set xs. lo \<le> unat (fst x) \<and> bend x \<le> hi)"
proof (induction lo xs hi rule: lay.induct)
  case (2 lo x xs hi)
  then have "bend x \<le> hi" "\<forall>y \<in> set xs. bend x \<le> unat (fst y) \<and> bend y \<le> hi" "lo \<le> unat (fst x)" by auto
  then show ?case using bend_gt [of x] by fastforce
qed simp

lemma lay_app: "lay lo (xs @ x # ys) hi \<longleftrightarrow> lay lo xs (unat (fst x)) \<and> lay (bend x) ys hi"
  by (induction xs arbitrary: lo) auto

lemma lay_mono: "lay lo xs hi \<Longrightarrow> lo' \<le> lo \<Longrightarrow> hi \<le> hi' \<Longrightarrow> lay lo' xs hi'"
  by (induction lo xs hi arbitrary: lo' rule: lay.induct) auto

section \<open>The search for the place of a block\<close>

definition TOP :: nat where "TOP = 0x8E000000"

definition flist :: "mem \<Rightarrow> u32 \<Rightarrow> blk list \<Rightarrow> bool" where
  "flist m b fs \<longleftrightarrow> circ m fs \<and> fs \<noteq> [] \<and> hd fs = (b, 0) \<and> lay (unat b) fs TOP \<and> (\<forall>x \<in> set (tl fs). 1 \<le> snd x)"

definition stop :: "mem \<Rightarrow> u32 \<Rightarrow> u32 \<Rightarrow> bool" where
  "stop m bp p \<longleftrightarrow> p < bp \<and> bp < hptr m p \<or> hptr m p \<le> p \<and> (p < bp \<or> bp < hptr m p)"

lemma find_unfold: "kmfree_find m bp p = (if stop m bp p then Some p else kmfree_find m bp (hptr m p))"
  by (subst kmfree_find.simps) (auto simp: stop_def)

lemma find_path:
  assumes "path m p (us @ [(t, k)])" "\<not> stop m bp p" "\<forall>x \<in> set us. \<not> stop m bp (fst x)" "stop m bp t"
  shows "kmfree_find m bp p = Some t"
  using assms
proof (induction us arbitrary: p)
  case Nil
  then show ?case by (simp add: find_unfold [of m bp p] find_unfold [of m bp t])
next
  case (Cons x us)
  then show ?case by (cases x) (simp add: find_unfold [of m bp p])
qed

lemma circ_next:
  assumes "circ m (X @ x # Y)"
  shows "hptr m (fst x) = fst (hd (Y @ X @ [x]))"
proof -
  have "circ m ((Y @ X) @ [x])" using assms circ_rotate [of m "X @ [x]" Y] by simp
  then have "path m (fst x) ((Y @ X) @ [x])" unfolding circ_def lst_append by (simp add: lst_Cons)
  moreover have "path m q (z # zs) \<Longrightarrow> hptr m q = fst z" for q z zs by (cases z) simp
  ultimately show ?thesis by (cases "(Y @ X) @ [x]") (auto simp: append_assoc)
qed

lemma flist_order:
  assumes "flist m b (X @ x # Y)"
  shows "\<forall>y \<in> set X. bend y \<le> unat (fst x)" "\<forall>y \<in> set Y. bend x \<le> unat (fst y)" "bend x \<le> TOP" "unat b \<le> unat (fst x)"
  using assms lay_bounds [of "unat b" X "unat (fst x)"] lay_bounds [of "bend x" Y TOP]
  unfolding flist_def lay_app by auto

lemma flist_last:
  assumes "flist m b (X @ [x])"
  shows "hptr m (fst x) = b"
proof -
  have "hd (X @ [x]) = (b, 0)" "circ m (X @ [x])" using assms by (simp_all add: flist_def)
  then show ?thesis using circ_next [of m X x "[]"] by simp
qed

text \<open>The search stops only at the last block below \<open>bp\<close>.\<close>

lemma stop_iff:
  assumes "flist m b (X @ x # Y)" "unat b < unat bp"
  shows "stop m bp (fst x) \<longleftrightarrow> unat (fst x) < unat bp \<and> (\<forall>y \<in> set Y. unat bp < unat (fst y))"
proof (cases Y)
  case Nil
  then have "hptr m (fst x) = b" using flist_last [of m b X x] assms(1) by simp
  then show ?thesis using Nil assms(2) flist_order(4) [OF assms(1)]
    by (auto simp: stop_def word_less_nat_alt word_le_nat_alt)
next
  case (Cons y ys)
  have n: "hptr m (fst x) = fst y" using circ_next [of m X x Y] assms(1) Cons by (simp add: flist_def)
  have o: "unat (fst x) < unat (fst y)" using flist_order(2) [OF assms(1)] bend_gt [of x] Cons by auto
  have "flist m b ((X @ [x]) @ y # ys)" using assms(1) Cons by simp
  then have "\<forall>z \<in> set ys. unat (fst y) < unat (fst z)" using flist_order(2) bend_gt [of y] by fastforce
  then show ?thesis using n o Cons by (auto simp: stop_def word_less_nat_alt word_le_nat_alt)
qed

lemma find_ok:
  assumes "flist m b (X @ (t, k) # Y)" "unat t < unat bp" "\<forall>y \<in> set Y. unat bp < unat (fst y)" "f \<in> fst ` set (X @ (t, k) # Y)"
  shows "kmfree_find m bp f = Some t"
proof -
  let ?fs = "X @ (t, k) # Y"
  have b: "unat b < unat bp" using flist_order(4) [OF assms(1)] assms(2) by simp
  have st: "stop m bp t" using stop_iff [OF assms(1) b] assms(2,3) by simp
  have ns: "\<not> stop m bp (fst x)" if "x \<in> set X \<union> set Y" for x
  proof (cases "x \<in> set X")
    case True
    then obtain U V where X: "X = U @ x # V" by (auto simp: in_set_conv_decomp)
    then show ?thesis using stop_iff [of m b U x "V @ (t, k) # Y"] assms(1,2) b by auto
  next
    case False
    then have "x \<in> set Y" using that by simp
    then obtain U V where Y: "Y = U @ x # V" by (auto dest: split_list)
    then show ?thesis using stop_iff [of m b "X @ (t, k) # U" x V] assms(1,3) b by auto
  qed
  show ?thesis
  proof (cases "f = t")
    case True
    then show ?thesis using st by (simp add: find_unfold)
  next
    case False
    then obtain j where f: "(f, j) \<in> set X \<union> set Y" using assms(4) by force
    have c: "circ m ((Y @ X) @ [(t, k)])" using assms(1) circ_rotate [of m "X @ [(t, k)]" Y] by (simp add: flist_def)
    have "(f, j) \<in> set (Y @ X)" using f by auto
    then obtain A B where AB: "Y @ X = A @ (f, j) # B" by (auto dest: split_list simp del: set_append)
    then have "path m f (B @ [(t, k)])" using c unfolding circ_def by (simp add: path_append lst_append)
    moreover have "set B \<subseteq> set (Y @ X)" unfolding AB by auto
    then have "\<forall>x \<in> set B. \<not> stop m bp (fst x)" "\<not> stop m bp f" using ns f by force+
    ultimately show ?thesis using find_path st by blast
  qed
qed

section \<open>Giving a block back\<close>

definition hframe :: "u32 \<Rightarrow> mem \<Rightarrow> mem \<Rightarrow> bool" where
  "hframe a m m' \<longleftrightarrow> (\<forall>x. unat x < unat a \<or> unat a + 8 \<le> unat x \<longrightarrow> m' x = m x)"

lemma hframe_set: "unat a + 8 \<le> 2 ^ 32 \<Longrightarrow> hframe a m (set_hptr a p m)" "unat a + 8 \<le> 2 ^ 32 \<Longrightarrow> hframe a m (set_hsize a n m)"
  using set_frame by (auto simp: hframe_def)

lemma hframe_trans: "hframe a m m' \<Longrightarrow> hframe a m' m'' \<Longrightarrow> hframe a m m''"
  by (simp add: hframe_def)

lemma hframe_header:
  assumes "hframe a m m'" "unat c + 8 \<le> 2 ^ 32" "unat a + 8 \<le> unat c \<or> unat c + 8 \<le> unat a"
  shows "hptr m' c = hptr m c" "hsize m' c = hsize m c"
  using assms by (auto simp: hframe_def intro!: header_frame)

lemma hframe_headers:
  assumes "hframe a m m'" "\<forall>y \<in> S. unat (fst y) + 8 \<le> 2 ^ 32 \<and> (unat a + 8 \<le> unat (fst y) \<or> unat (fst y) + 8 \<le> unat a)"
  shows "\<forall>y \<in> S. hptr m' (fst y) = hptr m (fst y) \<and> hsize m' (fst y) = hsize m (fst y)"
proof
  fix y
  assume "y \<in> S"
  then have "unat (fst y) + 8 \<le> 2 ^ 32" "unat a + 8 \<le> unat (fst y) \<or> unat (fst y) + 8 \<le> unat a" using assms(2) by blast+
  from hframe_header [OF assms(1) this]
  show "hptr m' (fst y) = hptr m (fst y) \<and> hsize m' (fst y) = hsize m (fst y)" by simp
qed

lemma ext_join:
  assumes "unat q = unat p + 8 * n" "1 \<le> n" "1 \<le> j"
  shows "ext (p, n) \<union> ext (q, j) = ext (p, n + j)"
  using assms by (auto simp: ext_def bend_def)

text \<open>The two halves of the joining: with the block above, then with the block below.\<close>

definition join_next :: "u32 \<Rightarrow> u32 \<Rightarrow> mem \<Rightarrow> mem" where
  "join_next bp q m = (if bp + HDR * hsize m bp = q
     then (let m = set_hsize bp (hsize m bp + hsize m q) m in set_hptr bp (hptr m q) m) else set_hptr bp q m)"

definition join_prev :: "u32 \<Rightarrow> u32 \<Rightarrow> mem \<Rightarrow> mem" where
  "join_prev bp p m = (if p + HDR * hsize m p = bp
     then (let m = set_hsize p (hsize m p + hsize m bp) m in set_hptr p (hptr m bp) m) else set_hptr p bp m)"

lemma join_split: "kmfree_join bp p m = join_prev bp p (join_next bp (hptr m p) m)"
  by (simp add: kmfree_join_def join_next_def join_prev_def Let_def)

definition between :: "blk list \<Rightarrow> blk \<Rightarrow> blk list \<Rightarrow> blk \<Rightarrow> bool" where
  "between X t Y x \<longleftrightarrow> bend t \<le> unat (fst x) \<and> lay (bend x) Y TOP \<and> 1 \<le> snd x"

lemma between_apart:
  assumes "flist m b (X @ t # Y)" "between X t Y x"
  shows "\<forall>y \<in> set (X @ t # Y). unat (fst y) + 8 \<le> 2 ^ 32 \<and> (unat (fst x) + 8 \<le> unat (fst y) \<or> unat (fst y) + 8 \<le> unat (fst x))"
    "unat (fst x) + 8 * snd x < 2 ^ 32" "\<forall>y \<in> set Y. bend x \<le> unat (fst y) \<and> 1 \<le> snd y"
proof -
  have l: "bend x \<le> TOP" "\<forall>y \<in> set Y. bend x \<le> unat (fst y) \<and> bend y \<le> TOP" "bend t \<le> unat (fst x)"
    using assms(2) lay_bounds [of "bend x" Y TOP] by (auto simp: between_def)
  have o: "\<forall>y \<in> set X. bend y \<le> unat (fst t)" using flist_order(1) [OF assms(1)] .
  have g: "unat (fst y) + 8 \<le> bend y" for y by (rule bend_gt)
  show "unat (fst x) + 8 * snd x < 2 ^ 32" using l(1) by (simp add: bend_def TOP_def)
  show "\<forall>y \<in> set Y. bend x \<le> unat (fst y) \<and> 1 \<le> snd y" using l(2) assms(1) by (cases X) (auto simp: flist_def)
  have T: "TOP \<le> 2 ^ 32" by (simp add: TOP_def)
  show "\<forall>y \<in> set (X @ t # Y). unat (fst y) + 8 \<le> 2 ^ 32 \<and> (unat (fst x) + 8 \<le> unat (fst y) \<or> unat (fst y) + 8 \<le> unat (fst x))"
  proof
    fix y
    assume "y \<in> set (X @ t # Y)"
    then consider "y \<in> set X" | "y = t" | "y \<in> set Y" by auto
    then show "unat (fst y) + 8 \<le> 2 ^ 32 \<and> (unat (fst x) + 8 \<le> unat (fst y) \<or> unat (fst y) + 8 \<le> unat (fst x))"
      using l o g [of x] g [of y] g [of t] T by cases fastforce+
  qed
qed

lemma circ_path: "circ m (X @ (t, k) # Y) \<Longrightarrow> path m t (Y @ X @ [(t, k)])"
  using circ_rotate [of m "X @ [(t, k)]" Y] by (simp add: circ_def lst_append)

lemma join_next_ok:
  assumes fl: "flist m b (X @ (t, k) # Y)" and bt: "between X (t, k) Y (bp, n)" and n: "unat (hsize m bp) = n"
    and m1: "m1 = join_next bp (hptr m t) m"
  shows "\<exists>n1 Y1. unat (hsize m1 bp) = n1 \<and> path m1 bp (Y1 @ X @ [(t, k)]) \<and> between X (t, k) Y1 (bp, n1) \<and>
    (\<Union>(ext ` set Y1)) \<union> ext (bp, n1) = (\<Union>(ext ` set Y)) \<union> ext (bp, n) \<and> hframe bp m m1 \<and> set Y1 \<subseteq> set Y \<and> n \<le> n1"
proof -
  note ap = between_apart [OF fl bt, unfolded fst_conv snd_conv]
  have p8: "unat bp + 8 \<le> 2 ^ 32" using ap(2) bt by (simp add: between_def)
  have pth: "path m t (Y @ X @ [(t, k)])" using fl circ_path by (auto simp: flist_def)
  have e: "unat (bp + HDR * hsize m bp) = unat bp + 8 * n" using unat_end [of bp "hsize m bp"] ap(2) unfolding n by simp
  show ?thesis
  proof (cases "bp + HDR * hsize m bp = hptr m t")
    case True
    have "Y \<noteq> []"
    proof
      assume "Y = []"
      then have "hptr m t = b" using flist_last [of m b X "(t, k)"] fl by simp
      then show False using True e flist_order(4) [OF fl] bt by (simp add: between_def bend_def)
    qed
    then obtain q j Y1 where Y: "Y = (q, j) # Y1" by (metis list.exhaust surj_pair)
    have q: "hptr m t = q" "unat (hsize m q) = j" "1 \<le> j" using pth ap(3) Y by auto
    have uq: "unat q = unat bp + 8 * n" using True q(1) e by simp
    have m1': "m1 = set_hptr bp (hptr m q) (set_hsize bp (hsize m bp + hsize m q) m)"
      using True q(1) ap(1) Y header_other(3) [OF p8, of q] by (auto simp: m1 join_next_def Let_def)
    have fr: "hframe bp m m1" unfolding m1' by (rule hframe_trans [OF hframe_set(2) [OF p8] hframe_set(1) [OF p8]])
    have hd: "\<forall>x \<in> set (X @ (t, k) # Y). hptr m1 (fst x) = hptr m (fst x) \<and> hsize m1 (fst x) = hsize m (fst x)"
      by (rule hframe_headers [OF fr ap(1)])
    have "unat (hsize m bp + hsize m q) = n + j"
    proof -
      have "bend (q, j) \<le> TOP" using bt Y lay_bounds [of "bend (q, j)" Y1 TOP] by (auto simp: between_def)
      then show ?thesis using uq n q(2) q(3) by (simp add: unat_word_ariths bend_def TOP_def)
    qed
    then have "unat (hsize m1 bp) = n + j" using p8 m1' by simp
    moreover have "path m1 bp (Y1 @ X @ [(t, k)])"
    proof (rule path_frame)
      show "path m q (Y1 @ X @ [(t, k)])" using pth Y by simp
      show "hptr m1 bp = hptr m q" using p8 m1' by simp
      show "\<forall>x \<in> set (Y1 @ X @ [(t, k)]). hptr m1 (fst x) = hptr m (fst x) \<and> hsize m1 (fst x) = hsize m (fst x)"
        using hd unfolding Y by (simp add: ball_Un)
    qed
    moreover have "between X (t, k) Y1 (bp, n + j)" using bt Y uq q(3) by (auto simp: between_def bend_def add.assoc)
    moreover have "(\<Union>(ext ` set Y1)) \<union> ext (bp, n + j) = (\<Union>(ext ` set Y)) \<union> ext (bp, n)"
      using ext_join [OF uq, of j] bt q(3) Y by (auto simp: between_def)
    ultimately show ?thesis using fr Y by auto
  next
    case False
    then have m1': "m1 = set_hptr bp (hptr m t) m" by (simp add: m1 join_next_def)
    have fr: "hframe bp m m1" unfolding m1' by (rule hframe_set(1) [OF p8])
    have "path m1 bp (Y @ X @ [(t, k)])"
    proof (rule path_frame [OF pth])
      show "hptr m1 bp = hptr m t" using p8 m1' by simp
      show "\<forall>x \<in> set (Y @ X @ [(t, k)]). hptr m1 (fst x) = hptr m (fst x) \<and> hsize m1 (fst x) = hsize m (fst x)"
        using hframe_headers [OF fr ap(1)] by (simp add: ball_Un)
    qed
    then show ?thesis using bt n fr m1' p8 by (intro exI [of _ n] exI [of _ Y]) simp
  qed
qed

lemma join_prev_ok:
  assumes n1: "unat (hsize m1 bp) = n1" and pth: "path m1 bp (Y @ X @ [(t, k)])" and bt: "between X (t, k) Y (bp, n1)"
    and l: "lay (unat b) X (unat t)" "unat b \<le> unat t" and h: "hd (X @ [(t, k)]) = (b, 0)" and sz: "\<forall>x \<in> set (tl (X @ (t, k) # Y)). 1 \<le> snd x"
    and m2: "m2 = join_prev bp t m1"
  shows "\<exists>fs. flist m2 b fs \<and> t \<in> fst ` set fs \<and> hframe t m1 m2 \<and>
    \<Union>(ext ` set fs) = \<Union>(ext ` set X) \<union> ext (t, k) \<union> (\<Union>(ext ` set Y) \<union> ext (bp, n1)) \<and> (\<exists>y \<in> set fs. n1 \<le> snd y)"
proof -
  have lb: "bend (t, k) \<le> unat bp" "bend (bp, n1) \<le> TOP" "\<forall>y \<in> set Y. bend (bp, n1) \<le> unat (fst y) \<and> bend y \<le> TOP" "1 \<le> n1"
    using bt lay_bounds [of "bend (bp, n1)" Y TOP] by (auto simp: between_def)
  have lx: "\<forall>y \<in> set X. bend y \<le> unat t" using lay_bounds [OF l(1)] by simp
  have T: "TOP < 2 ^ 32" by (simp add: TOP_def)
  have b8: "unat t + 8 \<le> unat bp" "unat bp + 8 \<le> 2 ^ 32" using lb bend_gt [of "(t, k)"] bend_gt [of "(bp, n1)"] T by auto
  then have t8: "unat t + 8 \<le> 2 ^ 32" by simp
  have ap: "\<forall>y \<in> set ((bp, n1) # Y @ X). unat (fst y) + 8 \<le> 2 ^ 32 \<and> (unat t + 8 \<le> unat (fst y) \<or> unat (fst y) + 8 \<le> unat t)"
  proof
    fix y
    assume "y \<in> set ((bp, n1) # Y @ X)"
    then consider "y = (bp, n1)" | "y \<in> set Y" | "y \<in> set X" by auto
    then show "unat (fst y) + 8 \<le> 2 ^ 32 \<and> (unat t + 8 \<le> unat (fst y) \<or> unat (fst y) + 8 \<le> unat t)"
      using b8 lb lx T bend_gt [of y] bend_gt [of "(bp, n1)"] by cases fastforce+
  qed
  have p: "path m1 bp (Y @ X)" "hptr m1 (lst bp (Y @ X)) = t" "unat (hsize m1 t) = k"
    using pth path_snoc [of m1 bp "Y @ X" t k] by simp_all
  show ?thesis
  proof (cases "t + HDR * hsize m1 t = bp")
    case True
    have e: "unat bp = unat t + 8 * k"
      using True unat_end [of t "hsize m1 t"] lb(1) b8(2) unfolding p(3) by (simp add: bend_def)
    then have k: "1 \<le> k" using b8(1) by simp
    then have X: "X \<noteq> []" using h by auto
    have m2': "m2 = set_hptr t (hptr m1 bp) (set_hsize t (hsize m1 t + hsize m1 bp) m1)"
      using True header_other(3) [OF t8 b8(2)] b8(1) by (simp add: m2 join_prev_def Let_def)
    have fr: "hframe t m1 m2" unfolding m2' by (rule hframe_trans [OF hframe_set(2) [OF t8] hframe_set(1) [OF t8]])
    note hd = hframe_headers [OF fr ap]
    have s: "unat (hsize m2 t) = k + n1"
      using t8 e lb(2,4) p(3) n1 T by (simp add: m2' unat_word_ariths bend_def)
    have "path m2 t (Y @ X)" by (rule path_frame [OF p(1)]) (use hd t8 m2' in \<open>simp_all add: ball_Un\<close>)
    moreover have "lst t (Y @ X) = lst bp (Y @ X)" "lst bp (Y @ X) \<in> fst ` set (Y @ X)"
      using X lst_nonempty [of "Y @ X" t bp] lst_mem [of "Y @ X"] by simp_all
    then have "hptr m2 (lst t (Y @ X)) = t" using hd p(2) by force
    ultimately have "path m2 t (Y @ X @ [(t, k + n1)])" using s path_snoc [of m2 t "Y @ X"] by simp
    then have "circ m2 (X @ (t, k + n1) # Y)"
      using circ_rotate [of m2 "X @ [(t, k + n1)]" Y] by (simp add: circ_def lst_append)
    moreover have "lay (unat b) (X @ (t, k + n1) # Y) TOP" using l bt e k lb(4) by (simp add: lay_app between_def bend_def add_mult_distrib2 add.assoc)
    ultimately have "flist m2 b (X @ (t, k + n1) # Y)" using h sz X k by (cases X) (auto simp: flist_def)
    moreover have "ext (t, k) \<union> ext (bp, n1) = ext (t, k + n1)" using ext_join [OF e k lb(4)] .
    ultimately show ?thesis using fr by (intro exI [of _ "X @ (t, k + n1) # Y"]) auto
  next
    case False
    then have m2': "m2 = set_hptr t bp m1" by (simp add: m2 join_prev_def)
    have fr: "hframe t m1 m2" unfolding m2' by (rule hframe_set(1) [OF t8])
    note hd = hframe_headers [OF fr ap]
    have "path m2 bp (Y @ X)" by (rule path_frame [OF p(1)]) (use hd in \<open>simp_all add: ball_Un\<close>)
    moreover have "hptr m2 (lst bp (Y @ X)) = t" using hd p(2) lst_in [of bp "Y @ X"] by force
    moreover have "unat (hsize m2 t) = k" "hptr m2 t = bp" "unat (hsize m2 bp) = n1" using t8 m2' p(3) hd n1 by auto
    ultimately have "path m2 t ((bp, n1) # Y @ X @ [(t, k)])" using path_snoc [of m2 bp "Y @ X"] by simp
    then have "circ m2 (X @ (t, k) # (bp, n1) # Y)"
      using circ_rotate [of m2 "X @ [(t, k)]" "(bp, n1) # Y"] by (simp add: circ_def lst_append)
    moreover have "lay (unat b) (X @ (t, k) # (bp, n1) # Y) TOP" using l bt by (simp add: lay_app between_def)
    ultimately have "flist m2 b (X @ (t, k) # (bp, n1) # Y)" using h sz lb(4) by (cases X) (auto simp: flist_def)
    then show ?thesis using fr by (intro exI [of _ "X @ (t, k) # (bp, n1) # Y"]) auto
  qed
qed

lemma lay_split:
  assumes "lay lo fs hi" "fs \<noteq> []" "unat (fst (hd fs)) < b"
  shows "\<exists>X t Y. fs = X @ t # Y \<and> unat (fst t) < b \<and> (\<forall>y \<in> set Y. b \<le> unat (fst y))"
  using assms
proof (induction fs arbitrary: lo)
  case (Cons x xs)
  show ?case
  proof (cases "xs = [] \<or> b \<le> unat (fst (hd xs))")
    case True
    then have "\<forall>y \<in> set xs. b \<le> unat (fst y)"
    proof (cases xs)
      case (Cons z zs)
      then show ?thesis using True Cons.prems(1) lay_bounds [of "bend z" zs hi] bend_gt [of z] by fastforce
    qed simp
    then show ?thesis using Cons.prems(3) by (intro exI [of _ "[]"] exI [of _ x] exI [of _ xs]) simp
  next
    case False
    then have "xs \<noteq> []" "unat (fst (hd xs)) < b" "lay (bend x) xs hi" using Cons.prems(1) by (simp_all add: not_le)
    then obtain X t Y where "xs = X @ t # Y" "unat (fst t) < b" "\<forall>y \<in> set Y. b \<le> unat (fst y)"
      using Cons.IH [of "bend x"] by blast
    then show ?thesis by (intro exI [of _ "x # X"] exI [of _ t] exI [of _ Y]) simp
  qed
qed simp

lemma place:
  assumes "flist m b fs" "unat b < unat bp" "1 \<le> n" "bend (bp, n) \<le> TOP" "\<forall>y \<in> set fs. ext y \<inter> ext (bp, n) = {}"
  shows "\<exists>X t k Y. fs = X @ (t, k) # Y \<and> unat t < unat bp \<and> (\<forall>y \<in> set Y. unat bp < unat (fst y)) \<and> between X (t, k) Y (bp, n)"
proof -
  obtain X x Y where fs: "fs = X @ x # Y" "unat (fst x) < unat bp" "\<forall>y \<in> set Y. unat bp \<le> unat (fst y)"
    using lay_split [of "unat b" fs TOP "unat bp"] assms(1,2) unfolding flist_def by fastforce
  obtain t k where x: "x = (t, k)" by (cases x)
  have d: "bend y \<le> unat bp \<or> bend (bp, n) \<le> unat (fst y)" if "y \<in> set fs" for y
  proof (rule ccontr)
    assume "\<not> ?thesis"
    then have "max (unat bp) (unat (fst y)) \<in> ext y \<inter> ext (bp, n)" using bend_gt [of y] bend_gt [of "(bp, n)"] by (auto simp: ext_def)
    then show False using assms(5) that by blast
  qed
  have t: "bend x \<le> unat bp" using d [of x] fs bend_gt [of "(bp, n)"] by auto
  have Y: "bend (bp, n) \<le> unat (fst y)" if "y \<in> set Y" for y using d [of y] fs that bend_gt [of y] by auto
  have "lay (bend x) Y TOP" using assms(1) fs(1) by (simp add: flist_def lay_app)
  then have "lay (bend (bp, n)) Y TOP" using Y assms(4) by (cases Y) auto
  then have "between X (t, k) Y (bp, n)" using t assms(3) x by (simp add: between_def)
  moreover have "\<forall>y \<in> set Y. unat bp < unat (fst y)" using Y bend_gt [of "(bp, n)"] by fastforce
  ultimately show ?thesis using fs(1,2) x by auto
qed

lemma kmfree_mem:
  assumes "flist m b fs" "f \<in> fst ` set fs" "unat b < unat bp" "1 \<le> n" "bend (bp, n) \<le> TOP"
    "\<forall>y \<in> set fs. ext y \<inter> ext (bp, n) = {}" "unat (hsize m bp) = n"
  shows "\<exists>t fs'. kmfree_find m bp f = Some t \<and> flist (kmfree_join bp t m) b fs' \<and> t \<in> fst ` set fs' \<and>
    \<Union>(ext ` set fs') = \<Union>(ext ` set fs) \<union> ext (bp, n) \<and> (\<exists>y \<in> set fs'. n \<le> snd y) \<and>
    (\<forall>x. unat x \<notin> \<Union>(ext ` set fs) \<union> ext (bp, n) \<longrightarrow> kmfree_join bp t m x = m x)"
proof -
  obtain X t k Y where fs: "fs = X @ (t, k) # Y" "unat t < unat bp" "\<forall>y \<in> set Y. unat bp < unat (fst y)" "between X (t, k) Y (bp, n)"
    using place [OF assms(1,3,4,5,6)] by blast
  note fl = assms(1) [unfolded fs(1)]
  have find: "kmfree_find m bp f = Some t" using find_ok [OF fl fs(2,3)] assms(2) fs(1) by simp
  define m1 where "m1 = join_next bp (hptr m t) m"
  define m2 where "m2 = join_prev bp t m1"
  obtain n1 Y1 where 1: "unat (hsize m1 bp) = n1" "path m1 bp (Y1 @ X @ [(t, k)])" "between X (t, k) Y1 (bp, n1)"
    "(\<Union>(ext ` set Y1)) \<union> ext (bp, n1) = (\<Union>(ext ` set Y)) \<union> ext (bp, n)" "hframe bp m m1" "set Y1 \<subseteq> set Y" "n \<le> n1"
    using join_next_ok [OF fl fs(4) assms(7) m1_def] by blast
  have l: "lay (unat b) X (unat t)" "unat b \<le> unat t" "hd (X @ [(t, k)]) = (b, 0)"
    using fl flist_order(4) [OF fl] by (auto simp: flist_def lay_app hd_append split: if_splits)
  have "\<forall>x \<in> set (tl (X @ (t, k) # Y1)). 1 \<le> snd x" using fl 1(6) by (cases X) (auto simp: flist_def)
  then obtain fs' where 2: "flist m2 b fs'" "t \<in> fst ` set fs'" "hframe t m1 m2"
    "\<Union>(ext ` set fs') = \<Union>(ext ` set X) \<union> ext (t, k) \<union> (\<Union>(ext ` set Y1) \<union> ext (bp, n1))" "\<exists>y \<in> set fs'. n1 \<le> snd y"
    using join_prev_ok [OF 1(1,2,3) l _ m2_def] by blast
  have "kmfree_join bp t m = m2" by (simp add: join_split m1_def m2_def)
  moreover have "\<Union>(ext ` set fs') = \<Union>(ext ` set fs) \<union> ext (bp, n)" unfolding 2(4) 1(4) fs(1) by auto
  moreover have "m2 x = m x" if "unat x \<notin> \<Union>(ext ` set fs) \<union> ext (bp, n)" for x
  proof -
    have "unat x \<notin> ext (t, k)" "unat x \<notin> ext (bp, n)" using that fs(1) by auto
    then show ?thesis using 1(5) 2(3) bend_gt [of "(t, k)"] bend_gt [of "(bp, n)"] unfolding hframe_def ext_def by auto
  qed
  moreover have "\<exists>y \<in> set fs'. n \<le> snd y" using 2(5) 1(7) le_trans by blast
  ultimately show ?thesis using find 2(1,2) by (intro exI [of _ t] exI [of _ fs']) simp
qed

section \<open>Taking units from a block\<close>

lemma rot_unique:
  assumes "distinct (xs @ ys)" "xs @ ys = us @ a # vs" "ys @ xs = X @ a # Y"
  shows "vs @ us = Y @ X"
proof -
  have "distinct (ys @ xs)" using assms(1) by auto
  then have d: "a \<notin> set us" "a \<notin> set vs" "a \<notin> set X" "a \<notin> set Y" using assms by (simp_all only:) auto
  have "a \<in> set (xs @ ys)" unfolding assms(2) by simp
  then consider u v where "xs = u @ a # v" | u v where "ys = u @ a # v" by (auto dest: split_list)
  then show ?thesis
  proof cases
    case 1
    then have "us = u \<and> vs = v @ ys" "X = ys @ u \<and> Y = v"
      using assms(2,3) append_Cons_eq_iff [OF d(1,2), of u "v @ ys"] append_Cons_eq_iff [OF d(3,4), of "ys @ u" v] by auto
    then show ?thesis by simp
  next
    case 2
    then have "us = xs @ u \<and> vs = v" "X = u \<and> Y = v @ xs"
      using assms(2,3) append_Cons_eq_iff [OF d(1,2), of "xs @ u" v] append_Cons_eq_iff [OF d(3,4), of u "v @ xs"] by auto
    then show ?thesis by simp
  qed
qed

lemma flist_apart:
  assumes "flist m b (X @ x # Y)" "y \<in> set (Y @ X)"
  shows "unat (fst y) + 8 \<le> 2 ^ 32" "bend x \<le> unat (fst y) \<or> bend y \<le> unat (fst x)" "bend y \<le> TOP"
proof -
  have "\<forall>z \<in> set (X @ x # Y). bend z \<le> TOP" using assms(1) lay_bounds [of "unat b" "X @ x # Y" TOP] unfolding flist_def by blast
  then show "bend y \<le> TOP" using assms(2) by auto
  then show "unat (fst y) + 8 \<le> 2 ^ 32" using bend_gt [of y] by (simp add: TOP_def)
  show "bend x \<le> unat (fst y) \<or> bend y \<le> unat (fst x)" using flist_order(1,2) [OF assms(1)] assms(2) by auto
qed

lemma ext_split:
  assumes "unat q' = unat q + 8 * (k - n)" "1 \<le> n" "n < k"
  shows "ext (q, k - n) \<union> ext (q', n) = ext (q, k)" "ext (q, k - n) \<inter> ext (q', n) = {}"
  using assms by (auto simp: ext_def bend_def)

lemma flist_disjoint: "flist m b (X @ x # Y) \<Longrightarrow> \<Union>(ext ` set (X @ Y)) \<inter> ext x = {}"
  using flist_apart(2) by (fastforce simp: ext_def)

text \<open>A block of exactly the size is unlinked.\<close>

lemma take_whole:
  assumes fl: "flist m b (X @ (q, k) # Y)" and k: "1 \<le> k" and prev: "prev = lst q (Y @ X)"
  shows "flist (set_hptr prev (hptr m q) m) b (X @ Y)" "prev \<in> fst ` set (X @ Y)" "hframe prev m (set_hptr prev (hptr m q) m)"
    "unat b < unat q" "unat (hsize (set_hptr prev (hptr m q) m) q) = k"
proof -
  let ?m = "set_hptr prev (hptr m q) m"
  have X: "X \<noteq> []" using fl k by (auto simp: flist_def)
  obtain X' j where X': "X = X' @ [(prev, j)]"
    using X prev by (cases X rule: rev_cases) (auto simp: lst_append lst_Cons)
  define Z where "Z = Y @ X'"
  have Z: "Y @ X = Z @ [(prev, j)]" by (simp add: Z_def X')
  show "prev \<in> fst ` set (X @ Y)" using X' by simp
  have p8: "unat prev + 8 \<le> 2 ^ 32" using flist_apart(1) [OF fl, of "(prev, j)"] X' by simp
  show fr: "hframe prev m ?m" by (rule hframe_set(1) [OF p8])
  have c: "path m q (Z @ [(prev, j)])" "hptr m prev = q" "unat (hsize m q) = k"
    using circ_path [of m X q k Y] fl path_snoc [of m q "Y @ X" q k] prev unfolding flist_def Z [symmetric] by auto
  have ap: "\<forall>y \<in> set ((q, k) # Z). unat (fst y) + 8 \<le> 2 ^ 32 \<and> (unat prev + 8 \<le> unat (fst y) \<or> unat (fst y) + 8 \<le> unat prev)"
  proof
    fix y
    assume y: "y \<in> set ((q, k) # Z)"
    have fl': "flist m b (X' @ (prev, j) # (q, k) # Y)" using fl X' by simp
    show "unat (fst y) + 8 \<le> 2 ^ 32 \<and> (unat prev + 8 \<le> unat (fst y) \<or> unat (fst y) + 8 \<le> unat prev)"
      using flist_apart [OF fl', of y] y bend_gt [of y] bend_gt [of "(prev, j)"] by (auto simp: Z_def)
  qed
  note h = hframe_headers [OF fr ap]
  show "unat (hsize ?m q) = k" using h c(3) by simp
  have "path ?m prev Z" by (rule path_frame [of m q]) (use c(1) h p8 in \<open>simp_all add: path_append\<close>)
  moreover have "hptr ?m (lst prev Z) = prev"
  proof (cases "Z = []")
    case True
    then show ?thesis using c(1) p8 by simp
  next
    case False
    then have "hptr ?m (lst prev Z) = hptr m (lst q Z)" using h lst_mem [OF False, of q] lst_nonempty [OF False, of prev q] by force
    then show ?thesis using c(1) by (simp add: path_append)
  qed
  ultimately have "path ?m prev (Y @ X)" unfolding Z using c(1) p8 by (simp add: path_append)
  then have "circ ?m (Y @ X)" unfolding circ_def Z by (simp add: lst_append)
  then have "circ ?m (X @ Y)" using circ_rotate [of ?m X Y] by simp
  moreover have "lay (unat b) (X @ Y) TOP"
  proof (cases Y)
    case Nil
    then show ?thesis using fl lay_mono [of "unat b" X "unat q" "unat b" TOP] flist_order(3) [OF fl] bend_gt [of "(q, k)"] by (simp add: flist_def lay_app)
  next
    case (Cons y ys)
    then show ?thesis using fl lay_mono [of "unat b" X "unat q" "unat b" "unat (fst y)"] bend_gt [of "(q, k)"] by (simp add: flist_def lay_app)
  qed
  ultimately show "flist ?m b (X @ Y)" using fl X by (cases X) (auto simp: flist_def)
  show "unat b < unat q"
    using flist_order(1) [OF fl] fl X bend_gt [of "(b, 0)"] by (cases X) (auto simp: flist_def)
qed

text \<open>Of a larger block the tail is cut off.\<close>

lemma take_tail:
  assumes fl: "flist m b (X @ (q, k) # Y)" and n: "unat N = n" "1 \<le> n" "n < k"
    and m1: "m1 = set_hsize q (hsize m q - N) m" and q': "q' = q + HDR * hsize m1 q" and m2: "m2 = set_hsize q' N m1"
  shows "flist m2 b (X @ (q, k - n) # Y)" "unat q' = unat q + 8 * (k - n)" "unat (hsize m2 q') = n"
    "\<forall>x. unat x \<notin> ext (q, k) \<longrightarrow> m2 x = m x" "unat b < unat q'"
proof -
  have e: "unat q + 8 * k \<le> TOP" "unat b \<le> unat q" using flist_order(3,4) [OF fl] n by (simp_all add: bend_def)
  have T: "TOP < 2 ^ 32" by (simp add: TOP_def)
  have q8: "unat q + 8 \<le> 2 ^ 32" using e T n by simp
  have pth: "path m q (Y @ X)" "hptr m (lst q (Y @ X)) = q" "unat (hsize m q) = k"
    using circ_path [of m X q k Y] fl path_snoc [of m q "Y @ X" q k] unfolding flist_def by auto
  have s1: "hsize m1 q = hsize m q - N" using q8 m1 by simp
  have "N \<le> hsize m q" using n pth(3) by (simp add: word_le_nat_alt)
  then have us: "unat (hsize m1 q) = k - n" using pth(3) n s1 by (simp add: unat_sub)
  show u: "unat q' = unat q + 8 * (k - n)" unfolding q' using unat_end [of q "hsize m1 q"] e T n unfolding us by simp
  have le: "8 * (k - n) + 8 * n = 8 * k" "8 \<le> 8 * (k - n)" using n by (simp_all add: add_mult_distrib2 [symmetric])
  have q'8: "unat q' + 8 \<le> 2 ^ 32" "unat q + 8 \<le> unat q'" "unat q' + 8 \<le> unat q + 8 * k" using u le e T n by auto
  show "unat (hsize m2 q') = n" using m2 q'8 n by simp
  show "unat b < unat q'" using e q'8 by simp
  show fr: "\<forall>x. unat x \<notin> ext (q, k) \<longrightarrow> m2 x = m x"
    using set_frame(2) [OF q8, of _ "hsize m q - N" m] set_frame(2) [OF q'8(1), of _ N m1] q'8 n unfolding m2 m1 [symmetric]
    by (auto simp: ext_def bend_def)
  have hq: "hptr m2 q = hptr m q" "unat (hsize m2 q) = k - n"
    using header_other [OF q'8(1) q8] q'8(2) us q8 m1 m2 by simp_all
  have hd: "\<forall>y \<in> set (Y @ X). hptr m2 (fst y) = hptr m (fst y) \<and> hsize m2 (fst y) = hsize m (fst y)"
  proof
    fix y
    assume y: "y \<in> set (Y @ X)"
    have "m2 x = m x" if "unat (fst y) \<le> unat x" "unat x < unat (fst y) + 8" for x
      using flist_apart(2) [OF fl y] bend_gt [of y] that fr by (auto simp: ext_def)
    then show "hptr m2 (fst y) = hptr m (fst y) \<and> hsize m2 (fst y) = hsize m (fst y)"
      using header_frame [OF flist_apart(1) [OF fl y]] by blast
  qed
  have "path m2 q (Y @ X)" by (rule path_frame [OF pth(1) hq(1) hd])
  moreover have "hptr m2 (lst q (Y @ X)) = q" using hd hq(1) pth(2) lst_in [of q "Y @ X"] by force
  ultimately have "path m2 q ((Y @ X) @ [(q, k - n)])" using hq path_snoc [of m2 q "Y @ X"] by simp
  then have "circ m2 ((Y @ X) @ [(q, k - n)])" by (simp add: circ_def lst_append)
  then have "circ m2 (X @ (q, k - n) # Y)" using circ_rotate [of m2 "X @ [(q, k - n)]" Y] by simp
  moreover have "lay (unat b) (X @ (q, k - n) # Y) TOP"
    using fl n lay_mono [of "bend (q, k)" Y TOP "bend (q, k - n)" TOP] by (simp add: flist_def lay_app bend_def)
  ultimately show "flist m2 b (X @ (q, k - n) # Y)" using fl n by (cases X) (auto simp: flist_def)
qed

text \<open>What taking \<open>n\<close> units from the blocks \<open>fs\<close> gives: the block at \<open>q\<close>, and the rest as the new list.\<close>

definition taken :: "mem \<Rightarrow> u32 \<Rightarrow> blk list \<Rightarrow> nat \<Rightarrow> u32 \<Rightarrow> u32 \<Rightarrow> mem \<Rightarrow> blk list \<Rightarrow> bool" where
  "taken m b fs n prev q m' fs' \<longleftrightarrow> flist m' b fs' \<and> prev \<in> fst ` set fs' \<and> unat (hsize m' q) = n \<and> unat b < unat q \<and>
    \<Union>(ext ` set fs') \<union> ext (q, n) = \<Union>(ext ` set fs) \<and> \<Union>(ext ` set fs') \<inter> ext (q, n) = {} \<and>
    (\<forall>x. unat x \<notin> \<Union>(ext ` set fs) \<longrightarrow> m' x = m x)"

lemma take_ok:
  assumes fl: "flist m b (X @ (q, k) # Y)" and n: "unat N = n" "1 \<le> n" "n \<le> k" and prev: "prev = lst q (Y @ X)"
  shows "\<exists>q' m' fs'. kmalloc_take N prev q m = (q', m') \<and> taken m b (X @ (q, k) # Y) n prev q' m' fs'"
proof (cases "k = n")
  case True
  have kz: "1 \<le> k" using True n by simp
  note t = take_whole [OF fl kz prev]
  have "unat (hsize m q) = k"
    using circ_path [of m X q k Y] fl path_snoc [of m q "Y @ X" q k] unfolding flist_def by auto
  then have "hsize m q = N" using n True by (simp add: word_unat_eq_iff)
  then have "kmalloc_take N prev q m = (q, set_hptr prev (hptr m q) m)" by (simp add: kmalloc_take_def)
  moreover have "set_hptr prev (hptr m q) m x = m x" if x: "unat x \<notin> \<Union>(ext ` set (X @ (q, k) # Y))" for x
  proof -
    obtain j where "(prev, j) \<in> set (X @ Y)" using t(2) by (metis imageE prod.collapse)
    then have "unat x \<notin> ext (prev, j)" using x by auto
    then show ?thesis using t(3) bend_gt [of "(prev, j)"] by (auto simp: hframe_def ext_def)
  qed
  ultimately show ?thesis using t flist_disjoint [OF fl] True
    by (intro exI [of _ q] exI [of _ "set_hptr prev (hptr m q) m"] exI [of _ "X @ Y"]) (auto simp: taken_def)
next
  case False
  then have lt: "n < k" using n by simp
  define m1 where "m1 = set_hsize q (hsize m q - N) m"
  define q' where "q' = q + HDR * hsize m1 q"
  define m2 where "m2 = set_hsize q' N m1"
  note t = take_tail [OF fl n(1,2) lt m1_def q'_def m2_def]
  have "unat (hsize m q) = k"
    using circ_path [of m X q k Y] fl path_snoc [of m q "Y @ X" q k] unfolding flist_def by auto
  then have "kmalloc_take N prev q m = (q', m2)"
    using n False by (auto simp: kmalloc_take_def Let_def m1_def q'_def m2_def)
  moreover have "prev \<in> fst ` set (X @ (q, k - n) # Y)" using prev lst_in [of q "Y @ X"] by auto
  moreover have "\<Union>(ext ` set (X @ (q, k - n) # Y)) \<union> ext (q', n) = \<Union>(ext ` set (X @ (q, k) # Y))"
    using ext_split(1) [OF t(2) n(2) lt] by auto
  moreover have "\<Union>(ext ` set (X @ (q, k - n) # Y)) \<inter> ext (q', n) = {}"
    using ext_split [OF t(2) n(2) lt] flist_disjoint [OF fl] by auto
  moreover have "\<forall>x. unat x \<notin> \<Union>(ext ` set (X @ (q, k) # Y)) \<longrightarrow> m2 x = m x" using t(4) by auto
  ultimately show ?thesis using t(1,3,5) unfolding taken_def by (intro exI [of _ q'] exI [of _ m2] exI conjI)
qed

section \<open>The search for a large enough block\<close>

lemma walk:
  assumes "path (km s) prev rs" "rs \<noteq> []" "lst 0 rs = freep s" "freep s \<notin> fst ` set (butlast rs)"
  shows "(\<exists>us q k vs. rs = us @ (q, k) # vs \<and> unat N \<le> k \<and> kmalloc_loop N prev (hptr (km s) prev) s =
      Some (let (q', m) = kmalloc_take N (lst prev us) q (km s) in Inr (q' + HDR, s\<lparr>km := m, freep := lst prev us\<rparr>))) \<or>
    (\<forall>u \<in> set rs. snd u < unat N) \<and> kmalloc_loop N prev (hptr (km s) prev) s = (case mehrader N s of Inl e \<Rightarrow> Some (Inl e)
      | Inr (r, s) \<Rightarrow> if r = 0 then Some (Inr (0, s)) else kmalloc_loop N r (hptr (km s) r) s)"
  using assms
proof (induction rs arbitrary: prev)
  case (Cons x rs)
  obtain p k where x: "x = (p, k)" by (cases x)
  have p: "hptr (km s) prev = p" "unat (hsize (km s) p) = k" "path (km s) p rs" using Cons.prems(1) x by auto
  show ?case
  proof (cases "unat N \<le> k")
    case True
    then have "N \<le> hsize (km s) p" using p(2) by (simp add: word_le_nat_alt)
    then have "kmalloc_loop N prev (hptr (km s) prev) s =
      Some (let (q', m) = kmalloc_take N (lst prev []) p (km s) in Inr (q' + HDR, s\<lparr>km := m, freep := lst prev []\<rparr>))"
      unfolding p(1) by (subst kmalloc_loop.simps) simp
    then show ?thesis using True x by blast
  next
    case False
    then have lt: "\<not> N \<le> hsize (km s) p" using p(2) by (simp add: word_le_nat_alt)
    show ?thesis
    proof (cases "rs = []")
      case True
      then have "p = freep s" using Cons.prems(3) x by simp
      then show ?thesis using lt False True x unfolding p(1) by (subst (2) kmalloc_loop.simps) simp
    next
      case rs: False
      have "p \<noteq> freep s" using Cons.prems(4) rs x by auto
      then have step: "kmalloc_loop N prev (hptr (km s) prev) s = kmalloc_loop N p (hptr (km s) p) s"
        using lt unfolding p(1) by (subst kmalloc_loop.simps) simp
      have "lst 0 rs = freep s" "freep s \<notin> fst ` set (butlast rs)"
        using Cons.prems(3,4) rs x lst_nonempty [OF rs, of 0 p] by auto
      from Cons.IH [OF p(3) rs this] show ?thesis
      proof
        assume "\<exists>us q k vs. rs = us @ (q, k) # vs \<and> unat N \<le> k \<and> kmalloc_loop N p (hptr (km s) p) s =
          Some (let (q', m) = kmalloc_take N (lst p us) q (km s) in Inr (q' + HDR, s\<lparr>km := m, freep := lst p us\<rparr>))"
        then obtain us q j vs where "rs = us @ (q, j) # vs" "unat N \<le> j" "kmalloc_loop N p (hptr (km s) p) s =
          Some (let (q', m) = kmalloc_take N (lst p us) q (km s) in Inr (q' + HDR, s\<lparr>km := m, freep := lst p us\<rparr>))" by blast
        then show ?thesis using x step by (intro disjI1 exI [of _ "(p, k) # us"] exI [of _ q] exI [of _ j] exI [of _ vs]) simp
      qed (use False step x in auto)
    qed
  qed
qed simp

lemma flist_distinct: "flist m b fs \<Longrightarrow> distinct (map fst fs)"
proof -
  have "lay lo fs hi \<Longrightarrow> distinct (map fst fs)" for lo hi
  proof (induction lo fs hi rule: lay.induct)
    case (2 lo x xs hi)
    then show ?case using lay_bounds [of "bend x" xs hi] bend_gt [of x] by fastforce
  qed simp
  then show "flist m b fs \<Longrightarrow> distinct (map fst fs)" by (auto simp: flist_def)
qed

text \<open>If some block is large enough the search takes one; otherwise it asks for a page.\<close>

lemma search:
  assumes fl: "flist (km s) b fs" and f: "freep s \<in> fst ` set fs" and n: "unat N = n" "1 \<le> n"
  shows "(\<exists>q' m' prev fs'. kmalloc_loop N (freep s) (hptr (km s) (freep s)) s = Some (Inr (q' + HDR, s\<lparr>km := m', freep := prev\<rparr>)) \<and>
      taken (km s) b fs n prev q' m' fs') \<and> (\<exists>y \<in> set fs. n \<le> snd y) \<or>
    (\<forall>u \<in> set fs. snd u < n) \<and> kmalloc_loop N (freep s) (hptr (km s) (freep s)) s = (case mehrader N s of Inl e \<Rightarrow> Some (Inl e)
      | Inr (r, s) \<Rightarrow> if r = 0 then Some (Inr (0, s)) else kmalloc_loop N r (hptr (km s) r) s)"
proof -
  obtain j where "(freep s, j) \<in> set fs" using f by (metis imageE prod.collapse)
  then obtain A B where AB: "fs = A @ (freep s, j) # B" by (auto dest: split_list)
  let ?rs = "B @ A @ [(freep s, j)]"
  have pth: "path (km s) (freep s) ?rs" using fl circ_path unfolding AB flist_def by blast
  have d: "distinct (map fst (A @ (freep s, j) # B))" using flist_distinct [OF fl] AB by simp
  have "lst 0 ?rs = freep s" "freep s \<notin> fst ` set (butlast ?rs)" using d by (auto simp: lst_append butlast_append)
  from walk [OF pth _ this, of N] show ?thesis
  proof
    assume "\<exists>us q k vs. ?rs = us @ (q, k) # vs \<and> unat N \<le> k \<and> kmalloc_loop N (freep s) (hptr (km s) (freep s)) s =
      Some (let (q', m) = kmalloc_take N (lst (freep s) us) q (km s) in Inr (q' + HDR, s\<lparr>km := m, freep := lst (freep s) us\<rparr>))"
    then obtain us q k vs where w: "?rs = us @ (q, k) # vs" "n \<le> k" "kmalloc_loop N (freep s) (hptr (km s) (freep s)) s =
      Some (let (q', m) = kmalloc_take N (lst (freep s) us) q (km s) in Inr (q' + HDR, s\<lparr>km := m, freep := lst (freep s) us\<rparr>))"
      using n by auto
    have "(q, k) \<in> set fs" using w(1) AB by (metis (no_types, lifting) Un_iff in_set_conv_decomp set_append append_Cons append_Nil)
    then obtain X Y where fs: "fs = X @ (q, k) # Y" by (auto dest: split_list)
    have "distinct (A @ (freep s, j) # B)" using d unfolding distinct_map by blast
    then have "distinct (B @ A @ [(freep s, j)])" by auto
    then have r: "vs @ us = Y @ X" using rot_unique [of B "A @ [(freep s, j)]" us "(q, k)" vs X Y] w(1) AB fs by simp
    have "lst 0 ?rs = lst q vs" unfolding w(1) by (simp add: lst_append)
    then have "lst q vs = freep s" by (simp add: lst_append)
    then have prev: "lst (freep s) us = lst q (Y @ X)" unfolding r [symmetric] by (simp add: lst_append)
    obtain q' m' fs' where "kmalloc_take N (lst (freep s) us) q (km s) = (q', m')" "taken (km s) b fs n (lst (freep s) us) q' m' fs'"
      using take_ok [OF fl [unfolded fs] n w(2) prev] fs by blast
    then have "kmalloc_loop N (freep s) (hptr (km s) (freep s)) s = Some (Inr (q' + HDR, s\<lparr>km := m', freep := lst (freep s) us\<rparr>)) \<and>
      taken (km s) b fs n (lst (freep s) us) q' m' fs'" using w(3) by simp
    moreover have "\<exists>y \<in> set fs. n \<le> snd y" using \<open>(q, k) \<in> set fs\<close> w(2) by force
    ultimately show ?thesis by blast
  qed (use n AB in auto)
qed

section \<open>The heap\<close>

text \<open>
  \<open>heap e s fs al ps\<close>: the free blocks are \<open>fs\<close>, the blocks handed out \<open>al\<close>, and \<open>ps\<close> the pages the page allocator still
  has; \<open>e\<close> is the end of the kernel image. Before the first allocation the list of free blocks is not linked yet. Blocks and
  pages do not overlap.
\<close>

definition pext :: "u32 \<Rightarrow> nat set" where "pext v = {unat v..<unat v + 4096}"

definition cells :: "blk set \<Rightarrow> nat set" where "cells bs = \<Union>(ext ` bs)"

definition heap :: "u32 \<Rightarrow> 'a kst_scheme \<Rightarrow> blk list \<Rightarrow> blk set \<Rightarrow> u32 list \<Rightarrow> bool" where
  "heap e s fs al ps \<longleftrightarrow> free_pages e s ps \<and> 0 < unat (kbase s) \<and> unat (kbase s) < unat e \<and>
    (if freep s = 0 then fs = [(kbase s, 0)] \<and> al = {} \<and> unat (kbase s) + 8 \<le> TOP
     else flist (km s) (kbase s) fs \<and> freep s \<in> fst ` set fs) \<and>
    (\<forall>x \<in> al. 1 \<le> snd x \<and> unat (hsize (km s) (fst x)) = snd x \<and> unat (kbase s) < unat (fst x) \<and> bend x \<le> TOP) \<and>
    pairwise (\<lambda>x y. ext x \<inter> ext y = {}) al \<and> cells (set fs) \<inter> cells al = {} \<and>
    (\<forall>v \<in> set ps. pext v \<inter> (cells (set fs) \<union> cells al) = {})"

lemma page_top:
  assumes "page_ok e v"
  shows "unat v + 4096 \<le> TOP" "e \<le> v" "unat v mod 4096 = 0"
proof -
  have "uint (v - 0x80000000) < 0xE000000" using assms by (simp add: page_ok_def v2p_def KERNBASE_def PHYSTOP_def word_less_def)
  then have r: "(uint v - 0x80000000) mod 2 ^ 32 < 0xE000000" by (simp add: uint_word_ariths)
  have "uint v < 0x8E000000"
  proof (cases "uint v \<ge> 0x80000000")
    case True
    then show ?thesis using r uint_lt2p [of v] by (simp add: mod_pos_pos_trivial)
  qed simp
  then have lt: "int (unat v) < int 0x8E000000" by simp
  show m: "unat v mod 4096 = 0" using assms by (simp add: page_ok_def mod_PGSIZE)
  then obtain k where "unat v = 4096 * k" by (auto simp: mod_eq_0_iff_dvd elim: dvdE)
  then show "unat v + 4096 \<le> TOP" using lt by (simp add: TOP_def)
  show "e \<le> v" using assms by (simp add: page_ok_def)
qed

lemma pext_disjoint:
  assumes "page_ok e v" "page_ok e w" "v \<noteq> w"
  shows "pext v \<inter> pext w = {}"
proof -
  obtain i j where ij: "unat v = 4096 * i" "unat w = 4096 * j"
    using page_top(3) [OF assms(1)] page_top(3) [OF assms(2)] by (auto simp: mod_eq_0_iff_dvd elim!: dvdE)
  then have "i \<noteq> j" using assms(3) by (auto simp: word_unat_eq_iff)
  then have "i + 1 \<le> j \<or> j + 1 \<le> i" by arith
  then show ?thesis using ij by (auto simp: pext_def)
qed

lemma pages_frame:
  assumes "free_pages e s ps" "\<And>v x. v \<in> set ps \<Longrightarrow> unat x \<in> pext v \<Longrightarrow> m' x = km s x"
  shows "free_pages e (s\<lparr>km := m', freep := f\<rparr>) ps"
proof -
  have "get32 m' v = get32 (km s) v" if "v \<in> set ps" for v
  proof (rule get32_frame)
    have "page_ok e v" using assms(1) that by (simp add: free_pages_def)
    then show "unat v + 4 \<le> 2 ^ 32" using page_top(1) [of e v] by (simp add: TOP_def)
  qed (use assms(2) that in \<open>auto simp: pext_def\<close>)
  then show ?thesis using assms(1) by (auto simp: free_pages_def intro: chain_cong)
qed

lemma used_frame:
  assumes "\<forall>x \<in> al. bend x \<le> TOP" "\<And>y. unat (y :: u32) \<in> cells al \<Longrightarrow> m' y = m y" "x \<in> al"
  shows "hsize m' (fst x) = hsize m (fst x)"
proof (rule header_frame(2))
  show "unat (fst x) + 8 \<le> 2 ^ 32" using assms(1,3) bend_gt [of x] by (fastforce simp: TOP_def)
  fix y :: u32
  assume "unat (fst x) \<le> unat y" "unat y < unat (fst x) + 8"
  then have "unat y \<in> ext x" using bend_gt [of x] by (simp add: ext_def)
  then show "m' y = m y" using assms(2,3) by (auto simp: cells_def)
qed

text \<open>Any change of the memory of free blocks, and of the list, that leaves the blocks in use and the free pages alone.\<close>

lemma heap_change:
  assumes "heap e s fs al ps" "al' \<subseteq> al" "flist m' (kbase s) fs'" "f \<in> fst ` set fs'" "f \<noteq> 0" "set ps' \<subseteq> set ps"
    "free_pages e s' ps'" "s' = s\<lparr>freelist := fl, km := m', freep := f\<rparr>"
    "cells (set fs') \<inter> cells al' = {}" "\<forall>v \<in> set ps'. pext v \<inter> cells (set fs') = {}"
    "\<And>x. unat x \<in> cells al' \<Longrightarrow> m' x = km s x"
  shows "heap e s' fs' al' ps'"
proof -
  have al: "\<forall>x \<in> al'. 1 \<le> snd x \<and> unat (hsize (km s) (fst x)) = snd x \<and> unat (kbase s) < unat (fst x) \<and> bend x \<le> TOP"
    using assms(1,2) by (auto simp: heap_def)
  have "unat (hsize m' (fst x)) = snd x" if "x \<in> al'" for x
    using used_frame [of al' m' "km s" x] al assms(11) that by auto
  moreover have "pairwise (\<lambda>x y. ext x \<inter> ext y = {}) al'"
    using assms(1,2) pairwise_subset by (auto simp: heap_def)
  moreover have "\<forall>v \<in> set ps'. pext v \<inter> (cells (set fs') \<union> cells al') = {}"
  proof
    fix v
    assume "v \<in> set ps'"
    then have "pext v \<inter> cells al = {}" "pext v \<inter> cells (set fs') = {}" using assms(1,6,10) by (auto simp: heap_def)
    moreover have "cells al' \<subseteq> cells al" using assms(2) by (auto simp: cells_def)
    ultimately show "pext v \<inter> (cells (set fs') \<union> cells al') = {}" by blast
  qed
  ultimately show ?thesis using assms(1,3,4,5,7,8,9) al by (simp add: heap_def)
qed

lemma heap_insert:
  assumes "heap e s fs al ps" "freep s \<noteq> 0" "1 \<le> snd x" "unat (hsize (km s) (fst x)) = snd x" "unat (kbase s) < unat (fst x)"
    "bend x \<le> TOP" "ext x \<inter> cells (set fs) = {}" "ext x \<inter> cells al = {}" "\<forall>v \<in> set ps. pext v \<inter> ext x = {}"
  shows "heap e s fs (insert x al) ps"
proof -
  have c: "cells (insert x al) = ext x \<union> cells al" by (simp add: cells_def)
  have "ext x \<inter> ext y = {}" if "y \<in> al" for y using assms(8) that by (auto simp: cells_def)
  then have "pairwise (\<lambda>x y. ext x \<inter> ext y = {}) (insert x al)"
    using assms(1) by (auto simp: heap_def pairwise_insert Int_commute)
  moreover have "cells (set fs) \<inter> cells (insert x al) = {}" using assms(1,7) unfolding c by (auto simp: heap_def)
  moreover have "\<forall>v \<in> set ps. pext v \<inter> (cells (set fs) \<union> cells (insert x al)) = {}"
  proof
    fix v
    assume "v \<in> set ps"
    then have "pext v \<inter> (cells (set fs) \<union> cells al) = {}" "pext v \<inter> ext x = {}" using assms(1,9) by (auto simp: heap_def)
    then show "pext v \<inter> (cells (set fs) \<union> cells (insert x al)) = {}" unfolding c by blast
  qed
  ultimately show ?thesis using assms(1-6) by (simp add: heap_def)
qed

lemma base_nonzero: "heap e s fs al ps \<Longrightarrow> flist m (kbase s) fs' \<Longrightarrow> f \<in> fst ` set fs' \<Longrightarrow> f \<noteq> 0"
  using lay_bounds [of "unat (kbase s)" fs' TOP] by (fastforce simp: heap_def flist_def)

text \<open>A block that belongs to no free block and no page joins the list.\<close>

lemma kmfree_step:
  assumes h: "heap e s fs al ps" and f: "freep s \<noteq> 0" and al: "al' \<subseteq> al" and ps: "set ps' \<subseteq> set ps"
    and fp: "free_pages e (s\<lparr>freelist := fl, km := m1\<rparr>) ps'"
    and m1: "\<And>x. unat x \<notin> ext (a, n) \<Longrightarrow> m1 x = km s x" and n: "unat (hsize m1 a) = n" "1 \<le> n"
    and a: "unat (kbase s) < unat a" "bend (a, n) \<le> TOP"
    and d: "ext (a, n) \<inter> cells (set fs) = {}" "ext (a, n) \<inter> cells al' = {}" "\<forall>v \<in> set ps'. pext v \<inter> ext (a, n) = {}"
  shows "\<exists>m' t fs'. kmfree (a + HDR) (s\<lparr>freelist := fl, km := m1\<rparr>) = Inr ((), s\<lparr>freelist := fl, km := m', freep := t\<rparr>) \<and>
    heap e (s\<lparr>freelist := fl, km := m', freep := t\<rparr>) fs' al' ps' \<and> t \<noteq> 0 \<and> cells (set fs') = cells (set fs) \<union> ext (a, n) \<and>
    (\<exists>y \<in> set fs'. n \<le> snd y) \<and> (\<forall>x. unat x \<in> cells al' \<longrightarrow> m' x = km s x)"
proof -
  have fl0: "flist (km s) (kbase s) fs" "freep s \<in> fst ` set fs" using h f by (auto simp: heap_def)
  have da: "ext y \<inter> ext (a, n) = {}" if "y \<in> set fs" for y using d(1) that by (auto simp: cells_def)
  have same: "hptr m1 (fst y) = hptr (km s) (fst y) \<and> hsize m1 (fst y) = hsize (km s) (fst y)" if y: "y \<in> set fs" for y
  proof -
    have "bend y \<le> TOP" using fl0(1) lay_bounds [of "unat (kbase s)" fs TOP] y by (auto simp: flist_def)
    then have "unat (fst y) + 8 \<le> 2 ^ 32" using bend_gt [of y] by (simp add: TOP_def)
    moreover have "m1 x = km s x" if "unat (fst y) \<le> unat x" "unat x < unat (fst y) + 8" for x
    proof -
      have "unat x \<in> ext y" using that bend_gt [of y] by (simp add: ext_def)
      then show ?thesis using m1 da [OF y] by blast
    qed
    ultimately show ?thesis using header_frame by blast
  qed
  have "circ m1 fs"
  proof -
    have "lst 0 fs \<in> fst ` set fs" using fl0(1) lst_mem by (auto simp: flist_def)
    then have "hptr m1 (lst 0 fs) = hptr (km s) (lst 0 fs)" using same by auto
    then show ?thesis using fl0(1) same path_frame [of "km s" "lst 0 fs" fs m1 "lst 0 fs"] by (simp add: flist_def circ_def)
  qed
  then have "flist m1 (kbase s) fs" using fl0(1) by (simp add: flist_def)
  from kmfree_mem [OF this fl0(2) a(1) n(2) a(2) _ n(1)] da
  obtain t fs' where t: "kmfree_find m1 a (freep s) = Some t" "flist (kmfree_join a t m1) (kbase s) fs'" "t \<in> fst ` set fs'"
    "\<Union>(ext ` set fs') = \<Union>(ext ` set fs) \<union> ext (a, n)" "\<exists>y \<in> set fs'. n \<le> snd y"
    "\<forall>x. unat x \<notin> \<Union>(ext ` set fs) \<union> ext (a, n) \<longrightarrow> kmfree_join a t m1 x = m1 x" by auto
  let ?m = "kmfree_join a t m1"
  have c: "cells (set fs') = cells (set fs) \<union> ext (a, n)" using t(4) by (simp add: cells_def)
  have out: "?m x = km s x" if "unat x \<notin> cells (set fs)" "unat x \<notin> ext (a, n)" for x
    using t(6) m1 that by (auto simp: cells_def)
  have alc: "cells al' \<subseteq> cells al" using al by (auto simp: cells_def)
  have keep: "?m x = km s x" if "unat x \<in> cells al'" for x
    using out [of x] that alc h d(2) by (auto simp: heap_def)
  have pp: "pext v \<inter> cells (set fs) = {}" "pext v \<inter> ext (a, n) = {}" if "v \<in> set ps'" for v
    using h ps d(3) that by (auto simp: heap_def)
  have "free_pages e ((s\<lparr>freelist := fl, km := m1\<rparr>)\<lparr>km := ?m, freep := t\<rparr>) ps'"
    by (rule pages_frame [OF fp]) (use out m1 pp in \<open>fastforce\<close>)
  then have fp': "free_pages e (s\<lparr>freelist := fl, km := ?m, freep := t\<rparr>) ps'" by simp
  have c1: "cells (set fs') \<inter> cells al' = {}" unfolding c using h d(2) alc by (auto simp: heap_def)
  have c2: "\<forall>v \<in> set ps'. pext v \<inter> cells (set fs') = {}" unfolding c using pp by (simp add: Int_Un_distrib)
  have "heap e (s\<lparr>freelist := fl, km := ?m, freep := t\<rparr>) fs' al' ps'"
    by (rule heap_change [OF h al t(2,3) base_nonzero [OF h t(2,3)] ps fp' refl c1 c2 keep])
  moreover have "kmfree (a + HDR) (s\<lparr>freelist := fl, km := m1\<rparr>) = Inr ((), s\<lparr>freelist := fl, km := ?m, freep := t\<rparr>)"
    using f t(1) by (simp add: kmfree_def Let_def)
  ultimately show ?thesis using base_nonzero [OF h t(2,3)] c t(5) keep by blast
qed

text \<open>A fresh page becomes a block of 512 units.\<close>

lemma mehrader_step:
  assumes h: "heap e s fs al ps" and f: "freep s \<noteq> 0" and N: "unat N \<le> 512"
  shows "ps = [] \<Longrightarrow> mehrader N s = Inr (0, s)"
    "ps = v # ps' \<Longrightarrow> \<exists>s' fs'. mehrader N s = Inr (freep s', s') \<and> freep s' \<noteq> 0 \<and> kbase s' = kbase s \<and> heap e s' fs' al ps' \<and>
      cells (set fs') = cells (set fs) \<union> pext v \<and> (\<exists>y \<in> set fs'. 512 \<le> snd y) \<and> (\<forall>x. unat x \<in> cells al \<longrightarrow> km s' x = km s x)"
proof -
  have fp: "free_pages e s ps" using h by (simp add: heap_def)
  show "ps = [] \<Longrightarrow> mehrader N s = Inr (0, s)"
    using free_pages_alloc(1) [OF fp] by (simp add: mehrader_def)
  assume ps: "ps = v # ps'"
  have k: "kalloc s = (v, s\<lparr>freelist := get32 (km s) v\<rparr>)" "v \<noteq> 0" "free_pages e (s\<lparr>freelist := get32 (km s) v\<rparr>) ps'"
    using free_pages_alloc [OF fp] ps by auto
  have ok: "page_ok e v" "v \<notin> set ps'" "\<forall>w \<in> set ps'. page_ok e w" using fp ps by (auto simp: free_pages_def)
  have top: "unat v + 4096 \<le> TOP" "unat e \<le> unat v" using page_top [OF ok(1)] by (auto simp: word_le_nat_alt)
  have v8: "unat v + 8 \<le> 2 ^ 32" using top by (simp add: TOP_def)
  have x: "ext (v, 512) = pext v" by (simp add: ext_def pext_def bend_def)
  let ?m = "set_hsize v 512 (km s)"
  have m1: "?m x = km s x" if "unat x \<notin> ext (v, 512)" for x
    using set_frame(2) [OF v8] that by (auto simp: ext_def bend_def)
  have d3: "\<forall>w \<in> set ps'. pext w \<inter> ext (v, 512) = {}"
    unfolding x using pext_disjoint [of e _ v] ok by auto
  have d: "pext v \<inter> (cells (set fs) \<union> cells al) = {}" using h ps by (simp add: heap_def)
  then have d12: "ext (v, 512) \<inter> cells (set fs) = {}" "ext (v, 512) \<inter> cells al = {}" unfolding x by auto
  have "free_pages e ((s\<lparr>freelist := get32 (km s) v\<rparr>)\<lparr>km := ?m, freep := freep s\<rparr>) ps'"
    by (rule pages_frame [OF k(3)]) (use m1 d3 in fastforce)
  then have fp': "free_pages e (s\<lparr>freelist := get32 (km s) v, km := ?m\<rparr>) ps'" by (simp add: free_pages_def)
  have a: "unat (kbase s) < unat v" "bend (v, 512) \<le> TOP" "set ps' \<subseteq> set ps" using h top ps by (auto simp: heap_def bend_def)
  have hs: "unat (hsize ?m v) = 512" using v8 by simp
  obtain m' t fs' where r: "kmfree (v + HDR) (s\<lparr>freelist := get32 (km s) v, km := ?m\<rparr>) = Inr ((), s\<lparr>freelist := get32 (km s) v, km := m', freep := t\<rparr>)"
    "heap e (s\<lparr>freelist := get32 (km s) v, km := m', freep := t\<rparr>) fs' al ps'" "t \<noteq> 0" "cells (set fs') = cells (set fs) \<union> ext (v, 512)"
    "\<exists>y \<in> set fs'. 512 \<le> snd y" "\<forall>x. unat x \<in> cells al \<longrightarrow> m' x = km s x"
    using kmfree_step [OF h f subset_refl a(3) fp' m1 hs _ a(1,2) d12 d3] by auto
  have "(if N < NALLOC then NALLOC else N) = 512"
  proof -
    have "N \<le> 512" using N by (simp add: word_le_nat_alt)
    then show ?thesis by (auto simp: NALLOC_def HDR_def)
  qed
  then have "mehrader N s = Inr (t, s\<lparr>freelist := get32 (km s) v, km := m', freep := t\<rparr>)"
    using k(1,2) r(1) by (simp add: mehrader_def Let_def)
  then show "\<exists>s' fs'. mehrader N s = Inr (freep s', s') \<and> freep s' \<noteq> 0 \<and> kbase s' = kbase s \<and> heap e s' fs' al ps' \<and>
      cells (set fs') = cells (set fs) \<union> pext v \<and> (\<exists>y \<in> set fs'. 512 \<le> snd y) \<and> (\<forall>x. unat x \<in> cells al \<longrightarrow> km s' x = km s x)"
    using r(2-6) x
    by (intro exI [of _ "s\<lparr>freelist := get32 (km s) v, km := m', freep := t\<rparr>"] exI [of _ fs']) auto
qed

text \<open>The outcome of a successful search in a heap.\<close>

lemma taken_heap:
  assumes h: "heap e s fs al ps" and f: "freep s \<noteq> 0" and t: "taken (km s) (kbase s) fs n prev q m' fs'" and n: "1 \<le> n"
  shows "heap e (s\<lparr>km := m', freep := prev\<rparr>) fs' (insert (q, n) al) ps" "(q, n) \<notin> al"
    "cells (set fs') \<union> ext (q, n) = cells (set fs)" "\<forall>x. unat x \<in> cells al \<longrightarrow> m' x = km s x" "unat q + 8 < 2 ^ 32"
proof -
  have T: "flist m' (kbase s) fs'" "prev \<in> fst ` set fs'" "unat (hsize m' q) = n" "unat (kbase s) < unat q"
    "cells (set fs') \<union> ext (q, n) = cells (set fs)" "cells (set fs') \<inter> ext (q, n) = {}"
    "\<And>x. unat x \<notin> cells (set fs) \<Longrightarrow> m' x = km s x"
    using t by (auto simp: taken_def cells_def)
  have fl: "flist (km s) (kbase s) fs" using h f by (simp add: heap_def)
  have dA: "cells (set fs) \<inter> cells al = {}" and dP: "\<forall>v \<in> set ps. pext v \<inter> (cells (set fs) \<union> cells al) = {}" and fp: "free_pages e s ps"
    using h by (simp_all add: heap_def)
  show keep: "\<forall>x. unat x \<in> cells al \<longrightarrow> m' x = km s x" using T(7) dA by auto
  have "free_pages e (s\<lparr>km := m', freep := prev\<rparr>) ps"
    by (rule pages_frame [OF fp]) (use T(7) dP in blast)
  then have h1: "heap e (s\<lparr>km := m', freep := prev\<rparr>) fs' al ps"
    using T(5) dA dP keep by (intro heap_change [OF h subset_refl T(1,2) base_nonzero [OF h T(1,2)], where fl = "freelist s"]) auto
  have e: "ext (q, n) \<subseteq> cells (set fs)" using T(5) by auto
  have bd: "bend (q, n) \<le> TOP"
  proof -
    have "bend (q, n) - 1 \<in> ext (q, n)" using bend_gt [of "(q, n)"] by (auto simp: ext_def)
    then obtain y where "y \<in> set fs" "bend (q, n) - 1 \<in> ext y" using e by (auto simp: cells_def)
    moreover then have "bend y \<le> TOP" using fl lay_bounds [of "unat (kbase s)" fs TOP] by (auto simp: flist_def)
    ultimately show ?thesis by (auto simp: ext_def)
  qed
  then show "unat q + 8 < 2 ^ 32" using bend_gt [of "(q, n)"] by (simp add: TOP_def)
  have "ext (q, n) \<inter> cells al = {}" using e dA by blast
  moreover have "\<forall>v \<in> set ps. pext v \<inter> ext (q, n) = {}" using e dP by blast
  ultimately show "heap e (s\<lparr>km := m', freep := prev\<rparr>) fs' (insert (q, n) al) ps"
    using heap_insert [OF h1, of "(q, n)"] T bd n base_nonzero [OF h T(1,2)] by (simp add: Int_commute)
  have "unat q \<in> ext (q, n)" using bend_gt [of "(q, n)"] by (simp add: ext_def)
  then show "(q, n) \<notin> al" using \<open>ext (q, n) \<inter> cells al = {}\<close> by (auto simp: cells_def)
  show "cells (set fs') \<union> ext (q, n) = cells (set fs)" by (rule T(5))
qed

section \<open>Allocation\<close>

definition pcells :: "u32 list \<Rightarrow> nat set" where "pcells ps = \<Union>(pext ` set ps)"

text \<open>What an allocation of \<open>n\<close> units promises: the address of a new block of that size, or 0 if no free block is large enough
  and no page is left; no cell is lost and no block in use is touched.\<close>

definition alloc_ok :: "u32 \<Rightarrow> 'a kst_scheme \<Rightarrow> blk list \<Rightarrow> blk set \<Rightarrow> u32 list \<Rightarrow> nat \<Rightarrow> u32 \<Rightarrow> 'a kst_scheme \<Rightarrow> bool" where
  "alloc_ok e s fs al ps n p s' \<longleftrightarrow> (\<exists>fs' ps' al'. heap e s' fs' al' ps' \<and> al' = (if p = 0 then al else insert (p - HDR, n) al) \<and>
    (p = 0 \<longleftrightarrow> ps = [] \<and> (\<forall>y \<in> set fs. snd y < n)) \<and> (p \<noteq> 0 \<longrightarrow> (p - HDR, n) \<notin> al) \<and>
    cells (set fs') \<union> cells al' \<union> pcells ps' = cells (set fs) \<union> cells al \<union> pcells ps \<and>
    (\<forall>x. unat x \<in> cells al \<longrightarrow> km s' x = km s x))"

lemma grab:
  assumes h: "heap e s fs al ps" and f: "freep s \<noteq> 0" and n: "unat N = n" "1 \<le> n" and y: "\<exists>y \<in> set fs. n \<le> snd y"
  shows "\<exists>p s'. kmalloc_loop N (freep s) (hptr (km s) (freep s)) s = Some (Inr (p, s')) \<and> p \<noteq> 0 \<and> alloc_ok e s fs al ps n p s'"
proof -
  have fl: "flist (km s) (kbase s) fs" "freep s \<in> fst ` set fs" using h f by (auto simp: heap_def)
  obtain q m' prev fs' where t: "kmalloc_loop N (freep s) (hptr (km s) (freep s)) s = Some (Inr (q + HDR, s\<lparr>km := m', freep := prev\<rparr>))"
    "taken (km s) (kbase s) fs n prev q m' fs'" using search [OF fl n] y by fastforce
  note T = taken_heap [OF h f t(2) n(2)]
  have "unat (q + HDR) = unat q + 8" using unat_off [of q 8] T(5) by (simp add: HDR_def)
  then have nz: "q + HDR \<noteq> 0" by (metis add_is_0 unsigned_0 zero_neq_numeral)
  have "alloc_ok e s fs al ps n (q + HDR) (s\<lparr>km := m', freep := prev\<rparr>)"
    unfolding alloc_ok_def using T(1,2,4) nz y T(3) [symmetric]
    by (intro exI [of _ fs'] exI [of _ ps] exI [of _ "insert (q, n) al"]) (auto simp: cells_def not_less)
  then show ?thesis using t(1) nz by blast
qed

lemma kmalloc_start_heap:
  assumes "heap e s fs al ps"
  shows "heap e (kmalloc_start s) fs al ps" "freep (kmalloc_start s) \<noteq> 0" "\<And>x. unat x \<in> cells al \<Longrightarrow> km (kmalloc_start s) x = km s x"
proof -
  have b0: "kbase s \<noteq> 0" "0 < unat (kbase s)" "free_pages e s ps" "\<forall>v \<in> set ps. pext v \<inter> (cells (set fs) \<union> cells al) = {}"
    "unat (kbase s) < unat e" using assms by (auto simp: heap_def)
  then show "freep (kmalloc_start s) \<noteq> 0" by (simp add: kmalloc_start_def)
  show "heap e (kmalloc_start s) fs al ps"
  proof (cases "freep s = 0")
    case True
    let ?b = "kbase s" and ?m = "set_hsize (kbase s) 0 (set_hptr (kbase s) (kbase s) (km s))"
    have fs: "fs = [(?b, 0)]" "al = {}" "unat ?b + 8 \<le> TOP" using assms True by (auto simp: heap_def)
    have b8: "unat ?b + 8 \<le> 2 ^ 32" using fs(3) by (simp add: TOP_def)
    have "flist ?m ?b fs" using b8 fs(1,3) by (simp add: flist_def circ_def bend_def)
    moreover have "free_pages e (s\<lparr>km := ?m, freep := ?b\<rparr>) ps"
    proof (rule pages_frame [OF b0(3)])
      fix v x
      assume v: "v \<in> set ps" "unat (x :: u32) \<in> pext v"
      then have "unat x \<notin> cells (set fs)" using b0(4) by blast
      then have "unat x < unat ?b \<or> unat ?b + 8 \<le> unat x" using fs(1) by (auto simp: cells_def ext_def bend_def)
      then show "?m x = km s x" using set_frame [OF b8] by simp
    qed
    ultimately show ?thesis using True fs b0 by (simp add: kmalloc_start_def heap_def cells_def)
  qed (use assms in \<open>simp add: kmalloc_start_def\<close>)
  show "km (kmalloc_start s) x = km s x" if "unat x \<in> cells al" for x
    using that assms by (cases "freep s = 0") (auto simp: kmalloc_start_def heap_def cells_def)
qed

lemma kmalloc_loop_ok:
  assumes h: "heap e s fs al ps" and f: "freep s \<noteq> 0" and n: "unat N = n" "1 \<le> n" "n \<le> 512"
  shows "\<exists>p s'. kmalloc_loop N (freep s) (hptr (km s) (freep s)) s = Some (Inr (p, s')) \<and> alloc_ok e s fs al ps n p s'"
proof (cases "\<exists>y \<in> set fs. n \<le> snd y")
  case True
  then show ?thesis using grab [OF h f n(1,2)] by blast
next
  case False
  have fl: "flist (km s) (kbase s) fs" "freep s \<in> fst ` set fs" using h f by (auto simp: heap_def)
  have no: "\<forall>u \<in> set fs. snd u < n" using False by (auto simp: not_le)
  have l: "kmalloc_loop N (freep s) (hptr (km s) (freep s)) s = (case mehrader N s of Inl e \<Rightarrow> Some (Inl e)
      | Inr (r, s) \<Rightarrow> if r = 0 then Some (Inr (0, s)) else kmalloc_loop N r (hptr (km s) r) s)"
    using search [OF fl n(1,2)] False by blast
  have N: "unat N \<le> 512" using n by simp
  show ?thesis
  proof (cases ps)
    case Nil
    then have "alloc_ok e s fs al ps n 0 s" unfolding alloc_ok_def using h no by auto
    then show ?thesis using l mehrader_step(1) [OF h f N Nil] by simp
  next
    case (Cons v ps')
    then obtain s1 fs1 where s1: "mehrader N s = Inr (freep s1, s1)" "freep s1 \<noteq> 0" "heap e s1 fs1 al ps'"
      "cells (set fs1) = cells (set fs) \<union> pext v" "\<exists>y \<in> set fs1. 512 \<le> snd y" "\<forall>x. unat x \<in> cells al \<longrightarrow> km s1 x = km s x"
      using mehrader_step(2) [OF h f N Cons] by blast
    then obtain p s' where p: "kmalloc_loop N (freep s1) (hptr (km s1) (freep s1)) s1 = Some (Inr (p, s'))" "p \<noteq> 0" "alloc_ok e s1 fs1 al ps' n p s'"
      using grab [OF s1(3,2) n(1,2)] n(3) le_trans by blast
    have "cells (set fs1) \<union> cells al \<union> pcells ps' = cells (set fs) \<union> cells al \<union> pcells ps"
      using s1(4) Cons by (auto simp: pcells_def)
    then have "alloc_ok e s fs al ps n p s'" using p(2,3) s1(6) Cons unfolding alloc_ok_def by auto
    then show ?thesis using l s1(1,2) p(1) by simp
  qed
qed

lemma unat_nunits:
  assumes "nbytes \<le> 4088"
  shows "unat (nunits nbytes) = (unat nbytes + 7) div 8 + 1"
proof -
  have b: "unat nbytes \<le> 4088" using assms by (simp add: word_le_nat_alt)
  have e: "nbytes + HDR - 1 = nbytes + of_nat 7" by (simp add: HDR_def)
  have "unat (nbytes + HDR - 1) = unat nbytes + 7" unfolding e by (rule unat_off) (use b in simp)
  then have "unat ((nbytes + HDR - 1) div HDR) = (unat nbytes + 7) div 8" by (simp add: unat_div HDR_def)
  moreover then have "unat ((nbytes + HDR - 1) div HDR + of_nat 1) = (unat nbytes + 7) div 8 + 1" using b unat_off [of _ 1] by simp
  ultimately show ?thesis by (simp add: nunits_def)
qed

lemma kmalloc_ok:
  assumes "heap e s fs al ps" "nbytes \<le> 4088"
  shows "\<exists>p s'. kmalloc nbytes s = Inr (p, s') \<and> alloc_ok e s fs al ps (unat (nunits nbytes)) p s'"
proof -
  have b: "unat nbytes \<le> 4088" using assms(2) by (simp add: word_le_nat_alt)
  have n: "1 \<le> unat (nunits nbytes)" "unat (nunits nbytes) \<le> 512" using unat_nunits [OF assms(2)] b by simp_all
  note h = kmalloc_start_heap [OF assms(1)]
  obtain p s' where "kmalloc_loop (nunits nbytes) (freep (kmalloc_start s)) (hptr (km (kmalloc_start s)) (freep (kmalloc_start s)))
      (kmalloc_start s) = Some (Inr (p, s'))" "alloc_ok e (kmalloc_start s) fs al ps (unat (nunits nbytes)) p s'"
    using kmalloc_loop_ok [OF h(1,2) refl n] by blast
  then show ?thesis using h(3) by (auto simp: kmalloc_def Let_def alloc_ok_def)
qed

section \<open>Properties\<close>

text \<open>C10. In every consistent heap \<^verbatim>\<open>kmalloc\<close> returns for a request of up to 4088 bytes: neither its walk round the circular
  list nor the repetition after a new page goes on forever. It returns 0 only if no free block is large enough and no page is
  left, and otherwise a block that was not in use, with room for the request and its header; the heap stays consistent, no
  cell of memory is lost, and the contents of all blocks in use are as before.\<close>

theorem kmalloc_returns:
  fixes s :: "'a kst_scheme"
  assumes "heap e s fs al ps" "nbytes \<le> 4088"
  shows "\<exists>p s'. kmalloc nbytes s = Inr (p, s') \<and> alloc_ok e s fs al ps (unat (nunits nbytes)) p s' \<and>
    unat nbytes + 8 \<le> 8 * unat (nunits nbytes)"
  using kmalloc_ok [OF assms] unat_nunits [OF assms(2)] by auto


text \<open>A machine with one free page whose heap has not been used yet.\<close>

lemma heap_ex:
  "\<exists>s :: kst. heap 0x80120000 s [(0x80110000, 0)] {} [0x80200000]"
proof -
  let ?k = "kst_on (fs_on (\<lambda>_. []) []) Map.empty"
  have "free_pages 0x80120000 ?k []" by (simp add: free_pages_def)
  moreover have "page_ok 0x80120000 0x80200000" by (simp add: page_ok_def v2p_def PGSIZE_def KERNBASE_def PHYSTOP_def)
  ultimately obtain s :: kst where s: "kfree 0x80200000 ?k = Inr ((), s)" "free_pages 0x80120000 s [0x80200000]"
    using free_pages_free [of "0x80120000" ?k "[]" "0x80200000"] by auto
  have "freep s = 0" "kbase s = 0x80110000"
    using s(1) by (auto simp: kfree_def Let_def kst_on_def fsst.extend_def split: if_splits)
  then show ?thesis using s(2) by (intro exI [of _ s]) (simp add: heap_def TOP_def cells_def ext_def pext_def bend_def)
qed

theorem kmalloc_returns_witness:
  "\<exists>s s' :: kst. \<exists>p fs ps al. heap 0x80120000 s [(0x80110000, 0)] {} [0x80200000] \<and> kmalloc 100 s = Inr (p, s') \<and> p \<noteq> 0 \<and> heap 0x80120000 s' fs al ps"
proof -
  obtain s :: kst where s: "heap 0x80120000 s [(0x80110000, 0)] {} [0x80200000]" using heap_ex by blast
  obtain p s' where "kmalloc 100 s = Inr (p, s')" "alloc_ok 0x80120000 s [(0x80110000, 0)] {} [0x80200000] (unat (nunits 100)) p s'"
    using kmalloc_returns [OF s, of 100] by auto
  then obtain fs ps al where "p \<noteq> 0" "heap 0x80120000 s' fs al ps" unfolding alloc_ok_def by auto
  then show ?thesis using s \<open>kmalloc 100 s = Inr (p, s')\<close> by blast
qed


end
