(* ===== verification/Aspace.thy ===== *)
theory Aspace
  imports Vm
begin

text \<open>
  What the page tables mean: the entry a virtual address leads to, that mapping a page changes the translation of this page
  only, and that user memory behaves as memory through \<^verbatim>\<open>allocuvm\<close> and \<^verbatim>\<open>copyout\<close>.
\<close>

section \<open>Indices and entries\<close>

lemma div_22: "(n :: nat) div 2 ^ 22 = n div 4096 div 1024"
  by (simp add: div_mult2_eq [symmetric])

lemma unat_PDX: "unat (PDX va) = unat va div 2 ^ 22"
proof -
  have "unat va < 2 ^ 32" using unsigned_less [of va] by simp
  then have "unat va div 2 ^ 22 < 1024" by (simp add: less_mult_imp_div_less)
  moreover have "PDX va = take_bit 10 (drop_bit 22 va)" by (simp add: PDX_def take_bit_eq_mask mask_eq_exp_minus_1)
  then have "unat (PDX va) = unat va div 2 ^ 22 mod 1024"
    by (simp add: drop_bit_eq_div take_bit_eq_mod unat_div_distrib unat_mod_distrib)
  ultimately show ?thesis by simp
qed

lemma unat_PTX: "unat (PTX va) = unat va div 2 ^ 12 mod 1024"
proof -
  have "PTX va = take_bit 10 (drop_bit 12 va)" by (simp add: PTX_def take_bit_eq_mask mask_eq_exp_minus_1)
  then show ?thesis by (simp add: drop_bit_eq_div take_bit_eq_mod unat_div_distrib unat_mod_distrib)
qed

lemma unat_page_of: "unat (page_of va) = 4096 * (unat va div 4096)"
proof -
  have "va mod PGSIZE \<le> va" by (simp add: word_le_nat_alt unat_mod_distrib PGSIZE_def)
  then have "unat (page_of va) = unat va - unat va mod 4096" by (simp add: page_of_def unat_sub unat_mod_distrib PGSIZE_def)
  then show ?thesis by (simp add: minus_mod_eq_mult_div)
qed

lemma PX_less: "PDX va < 1024" "PTX va < 1024"
proof -
  have "unat va < 2 ^ 32" using unsigned_less [of va] by simp
  then have "unat va div 2 ^ 22 < 1024" by (simp add: less_mult_imp_div_less)
  then show "PDX va < 1024" by (simp add: word_less_nat_alt unat_PDX)
  show "PTX va < 1024" by (simp add: word_less_nat_alt unat_PTX)
qed

lemma PX_page: "PDX va = PDX vb \<and> PTX va = PTX vb \<longleftrightarrow> page_of va = page_of vb"
proof -
  have d: "unat x div 4096 = 1024 * unat (PDX x) + unat (PTX x)" for x
    unfolding unat_PDX unat_PTX div_22 by simp
  have "page_of va = page_of vb \<longleftrightarrow> unat va div 4096 = unat vb div 4096"
    unfolding word_unat_eq_iff [of "page_of va"] unat_page_of by simp
  also have "\<dots> \<longleftrightarrow> PDX va = PDX vb \<and> PTX va = PTX vb"
  proof
    assume e: "unat va div 4096 = unat vb div 4096"
    then have "unat va div 2 ^ 22 = unat vb div 2 ^ 22" unfolding div_22 by simp
    then show "PDX va = PDX vb \<and> PTX va = PTX vb" using e by (simp add: word_unat_eq_iff unat_PDX unat_PTX)
  qed (simp add: d)
  finally show ?thesis by blast
qed

lemma entry_page:
  assumes "p mod PGSIZE = 0" "i < 1024" "k < 4"
  shows "page_of (p + 4 * i + of_nat k) = p"
proof -
  have "unat i < 1024" using assms(2) by (simp add: word_less_nat_alt)
  then have "page_of (p + of_nat (4 * unat i + k)) = p" using assms(3) by (intro page_of_add [OF assms(1)]) simp
  then show ?thesis by (simp add: add.assoc)
qed

lemma entry_frame:
  assumes "p mod PGSIZE = 0" "i < 1024" "\<And>a. page_of a = p \<Longrightarrow> m' a = m a"
  shows "get32 m' (p + 4 * i) = get32 m (p + 4 * i)"
  using entry_page [OF assms(1,2), of 0] entry_page [OF assms(1,2), of 1] entry_page [OF assms(1,2), of 2] entry_page [OF assms(1,2), of 3]
  by (intro get32_cong assms(3)) simp_all

lemma put_frame:
  assumes "p mod PGSIZE = 0" "i < 1024" "page_of a \<noteq> p"
  shows "put32 m (p + 4 * i) w a = m a"
  using entry_page [OF assms(1,2), of 0] entry_page [OF assms(1,2), of 1] entry_page [OF assms(1,2), of 2] entry_page [OF assms(1,2), of 3] assms(3)
  by (intro put32_other) auto

lemma unat_entry:
  assumes "page_ok e p" "i < 1024"
  shows "unat (p + 4 * i) = unat p + 4 * unat i" "unat (p + 4 * i) + 4 \<le> 2 ^ 32"
proof -
  have i: "unat i < 1024" using assms(2) by (simp add: word_less_nat_alt)
  have p: "unat p < 2 ^ 32 - 4096" using page_ok_next [OF assms(1)] .
  have "unat (p + of_nat (4 * unat i)) = unat p + 4 * unat i" using i p by (intro unat_off) simp
  then show "unat (p + 4 * i) = unat p + 4 * unat i" by simp
  then show "unat (p + 4 * i) + 4 \<le> 2 ^ 32" using i p by simp
qed

lemma entry_nz:
  assumes "page_ok e p" "i < 1024"
  shows "p + 4 * i \<noteq> 0"
proof
  assume "p + 4 * i = 0"
  then have "unat p = 0" using unat_entry(1) [OF assms] by simp
  then show False using page_ok_nz [OF assms(1)] by (simp add: unat_eq_zero)
qed

lemma entry_other:
  assumes "page_ok e p" "i < 1024" "j < 1024" "i \<noteq> j"
  shows "get32 (put32 m (p + 4 * i) w) (p + 4 * j) = get32 m (p + 4 * j)"
proof (rule get32_frame)
  have "unat i \<noteq> unat j" using assms(4) by (simp add: word_unat_eq_iff)
  then have ne: "unat i + 1 \<le> unat j \<or> unat j + 1 \<le> unat i" by arith
  show "unat (p + 4 * j) + 4 \<le> 2 ^ 32" using unat_entry(2) [OF assms(1,3)] .
  fix x :: u32
  assume "unat (p + 4 * j) \<le> unat x" "unat x < unat (p + 4 * j) + 4"
  then show "put32 m (p + 4 * i) w x = m x"
    using ne unat_entry [OF assms(1,2)] unat_entry [OF assms(1,3)] by (intro put32_frame) auto
qed

lemma memset_page:
  assumes "p mod PGSIZE = 0"
  shows "page_of a = p \<Longrightarrow> memset m p c PGSIZE a = ucast c" "page_of a \<noteq> p \<Longrightarrow> memset m p c PGSIZE a = m a"
proof -
  show "memset m p c PGSIZE a = m a" if "page_of a \<noteq> p"
  proof -
    have "a \<noteq> p + of_nat i" if "i < 4096" for i using page_of_add [OF assms that] \<open>page_of a \<noteq> p\<close> by auto
    then show ?thesis unfolding memset_stosb by (intro stosb_other) (simp add: PGSIZE_def)
  qed
  show "memset m p c PGSIZE a = ucast c" if "page_of a = p"
  proof -
    have "a = p + of_nat (unat (a mod PGSIZE))" using that by (auto simp: page_of_def)
    moreover have "unat (a mod PGSIZE) < 4096" by (simp add: unat_mod_distrib PGSIZE_def)
    ultimately have "\<exists>i < 4096. a = p + of_nat i" by blast
    then show ?thesis unfolding memset_stosb using stosb_filled [of 4096 _ m p "ucast c"] by (auto simp: PGSIZE_def)
  qed
qed

text \<open>An entry made from a page address and flags.\<close>

lemma entry_word:
  assumes "p mod PGSIZE = 0" "f < 4096"
  shows "PTE_ADDR (p OR f) = p" "(p OR f) AND PTE_U = f AND PTE_U" "(p OR f) AND PTE_P = f AND PTE_P"
proof -
  have "take_bit 12 p = 0" using assms(1) by (simp add: take_bit_eq_mod PGSIZE_def)
  then have p: "\<not> bit p n" if "n < 12" for n using that by (metis bit_0_eq bit_take_bit_iff bot_apply bot_bool_def)
  have "take_bit 12 f = f" using assms(2) 
    by (simp add: word_unat_eq_iff word_less_nat_alt take_bit_eq_mod unat_mod_distrib)
  then have f: "\<not> bit f n" if "n \<ge> 12" for n using that by (metis bit_take_bit_iff linorder_not_less)
  have "PTE_ADDR (p OR f) = (p OR f) AND NOT (mask 12)" by (simp add: PTE_ADDR_def mask_eq_exp_minus_1)
  also have "\<dots> = p"
  proof (rule bit_word_eqI)
    fix n
    show "bit ((p OR f) AND NOT (mask 12)) n = bit p n" if "n < LENGTH(32)" using p [of n] f [of n] that by (auto simp: bit_simps)
  qed
  finally show "PTE_ADDR (p OR f) = p" .
  have "(p OR f) AND x = f AND x" if "x = push_bit k 1" "k < 12" for x k
  proof (rule bit_word_eqI)
    fix n
    show "bit ((p OR f) AND x) n = bit (f AND x) n" if "n < LENGTH(32)" using p [of n] \<open>x = push_bit k 1\<close> \<open>k < 12\<close> by (auto simp: bit_simps)
  qed
  from this [of PTE_U 2] this [of PTE_P 0]
  show "(p OR f) AND PTE_U = f AND PTE_U" "(p OR f) AND PTE_P = f AND PTE_P" by (simp_all add: PTE_U_def PTE_P_def)
qed

section \<open>The tables\<close>

definition present :: "u32 \<Rightarrow> bool" where "present w \<longleftrightarrow> w AND PTE_P \<noteq> 0"
definition pde :: "u32 \<Rightarrow> mem \<Rightarrow> u32 \<Rightarrow> u32" where "pde d m va = get32 m (d + 4 * PDX va)"
definition tab :: "u32 \<Rightarrow> u32" where "tab w = p2v (PTE_ADDR w)"

text \<open>The entry of the page of \<open>va\<close>, if it is mapped.\<close>

definition pent :: "u32 \<Rightarrow> mem \<Rightarrow> u32 \<Rightarrow> u32 option" where
  "pent d m va = (if present (pde d m va)
     then let f = get32 m (tab (pde d m va) + 4 * PTX va) in if present f then Some f else None else None)"

lemma va2ka_pent: "va2ka d m va = map_option (\<lambda>f. tab f + (va AND 0xFFF)) (pent d m va)"
  by (simp add: va2ka_def pent_def pde_def tab_def present_def Let_def)

text \<open>A page directory whose tables are pages of their own, none of them free.\<close>

definition pgt :: "u32 \<Rightarrow> u32 \<Rightarrow> mem \<Rightarrow> u32 list \<Rightarrow> bool" where
  "pgt e d m ps \<longleftrightarrow> page_ok e d \<and> d \<notin> set ps \<and>
    (\<forall>va. present (pde d m va) \<longrightarrow> page_ok e (tab (pde d m va)) \<and> tab (pde d m va) \<notin> set ps \<and> tab (pde d m va) \<noteq> d) \<and>
    (\<forall>va vb. present (pde d m va) \<and> present (pde d m vb) \<and> PDX va \<noteq> PDX vb \<longrightarrow> tab (pde d m va) \<noteq> tab (pde d m vb))"

definition tabs :: "u32 \<Rightarrow> mem \<Rightarrow> u32 set" where "tabs d m = {tab (pde d m va) | va. present (pde d m va)}"

lemma pgtD:
  assumes "pgt e d m ps"
  shows "page_ok e d" "d mod PGSIZE = 0" "d \<notin> set ps"
    "present (pde d m va) \<Longrightarrow> page_ok e (tab (pde d m va)) \<and> tab (pde d m va) mod PGSIZE = 0 \<and> tab (pde d m va) \<notin> set ps \<and> tab (pde d m va) \<noteq> d"
    "present (pde d m va) \<Longrightarrow> present (pde d m vb) \<Longrightarrow> PDX va \<noteq> PDX vb \<Longrightarrow> tab (pde d m va) \<noteq> tab (pde d m vb)"
  using assms by (auto simp: pgt_def page_ok_def)

lemma p2v_v2p [simp]: "p2v (v2p a) = a" "v2p (p2v a) = a" by (simp_all add: p2v_def v2p_def)

lemma v2p_aligned:
  assumes "a mod PGSIZE = 0"
  shows "v2p a mod PGSIZE = 0"
proof -
  have "v2p a = a + 0x80000000" by (simp add: v2p_def KERNBASE_def)
  then have "unat (v2p a) = (unat a + 0x80000000) mod 2 ^ 32" by (simp add: unat_word_ariths)
  moreover have "x mod 2 ^ 32 mod 4096 = x mod 4096" for x :: nat by (rule mod_mod_cancel) simp
  ultimately have "unat (v2p a) mod 4096 = (unat a + 4096 * 0x80000) mod 4096" by simp
  also have "\<dots> = unat a mod 4096" by (rule mod_mult_self2)
  finally show ?thesis using assms unfolding mod_PGSIZE by simp
qed

lemma table_entry:
  assumes "t mod PGSIZE = 0"
  shows "present (v2p t OR PTE_P OR PTE_W OR PTE_U)" "tab (v2p t OR PTE_P OR PTE_W OR PTE_U) = t"
  using entry_word [OF v2p_aligned [OF assms], of 7]
  by (simp_all add: present_def tab_def PTE_P_def PTE_W_def PTE_U_def)

text \<open>A fresh page, cleared and entered in the directory.\<close>

lemma new_table:
  assumes g: "pgt e d m (t # ps)" and t: "page_ok e t" "t \<notin> set ps" and no: "\<not> present (pde d m va)"
    and m': "m' = put32 (memset m t 0 PGSIZE) (d + 4 * PDX va) (v2p t OR PTE_P OR PTE_W OR PTE_U)"
  shows "pgt e d m' ps" "present (pde d m' va)" "tab (pde d m' va) = t" "pent d m' vb = pent d m vb" "get32 m' (t + 4 * PTX va) = 0"
    "page_of a \<noteq> d \<Longrightarrow> page_of a \<noteq> t \<Longrightarrow> m' a = m a" "tabs d m' = insert t (tabs d m)"
proof -
  note G = pgtD [OF g]
  have td: "t \<noteq> d" "t mod PGSIZE = 0" using G(3) t by (auto simp: page_ok_def)
  note tw = table_entry [OF td(2)]
  show fr: "m' a = m a" if "page_of a \<noteq> d" "page_of a \<noteq> t" for a
    using that put_frame [OF G(2) PX_less(1)] memset_page(2) [OF td(2)] by (simp add: m')
  have zero: "m' a = 0" if "page_of a = t" for a
    using that td put_frame [OF G(2) PX_less(1)] memset_page(1) [OF td(2) that] by (simp add: m')
  have pd: "pde d m' vb = (if PDX vb = PDX va then v2p t OR PTE_P OR PTE_W OR PTE_U else pde d m vb)" for vb
  proof (cases "PDX vb = PDX va")
    case False
    have "get32 m' (d + 4 * PDX vb) = get32 (memset m t 0 PGSIZE) (d + 4 * PDX vb)"
      unfolding m' using False by (intro entry_other [OF G(1) PX_less(1) PX_less(1)]) simp
    also have "\<dots> = get32 m (d + 4 * PDX vb)"
      using td by (intro entry_frame [OF G(2) PX_less(1)] memset_page(2)) auto
    finally show ?thesis using False by (simp add: pde_def)
  qed (simp add: pde_def m')
  have no': "\<not> present (pde d m vb)" if "PDX vb = PDX va" for vb using no that by (simp add: pde_def)
  show "present (pde d m' va)" "tab (pde d m' va) = t" using pd [of va] tw by simp_all
  have z: "get32 m' (t + 4 * PTX vb) = 0" for vb
  proof -
    have "get32 m' (t + 4 * PTX vb) = get32 (\<lambda>_. 0) (t + 4 * PTX vb)" by (rule entry_frame [OF td(2) PX_less(2)]) (rule zero)
    then show ?thesis by (simp add: get32_def)
  qed
  then show "get32 m' (t + 4 * PTX va) = 0" .
  show "pent d m' vb = pent d m vb" for vb
  proof (cases "PDX vb = PDX va \<or> \<not> present (pde d m vb)")
    case True
    then show ?thesis using pd [of vb] no' [of vb] tw z [of vb] by (auto simp: pent_def present_def Let_def)
  next
    case False
    then have "tab (pde d m vb) \<noteq> t" "tab (pde d m vb) \<noteq> d" "tab (pde d m vb) mod PGSIZE = 0" using G(4) [of vb] by auto
    then have "get32 m' (tab (pde d m vb) + 4 * PTX vb) = get32 m (tab (pde d m vb) + 4 * PTX vb)"
      by (intro entry_frame [OF _ PX_less(2)] fr) auto
    then show ?thesis using False pd [of vb] by (simp add: pent_def)
  qed
  show "pgt e d m' ps" unfolding pgt_def
  proof (intro conjI allI impI)
    show "page_ok e d" "d \<notin> set ps" using G by auto
    show "page_ok e (tab (pde d m' vb))" "tab (pde d m' vb) \<notin> set ps" "tab (pde d m' vb) \<noteq> d" if "present (pde d m' vb)" for vb
      using that pd [of vb] tw t td G(4) [of vb] by (auto split: if_splits)
    show "tab (pde d m' vb) \<noteq> tab (pde d m' vc)"
      if "present (pde d m' vb) \<and> present (pde d m' vc) \<and> PDX vb \<noteq> PDX vc" for vb vc
      using that pd [of vb] pd [of vc] tw G(4) [of vb] G(4) [of vc] G(5) [of vb vc] by (auto split: if_splits)
  qed
  show "tabs d m' = insert t (tabs d m)"
  proof -
    have "(\<exists>vb. x = tab (pde d m' vb) \<and> present (pde d m' vb)) \<longleftrightarrow> x = t \<or> (\<exists>vb. x = tab (pde d m vb) \<and> present (pde d m vb))" for x
    proof
      assume "\<exists>vb. x = tab (pde d m' vb) \<and> present (pde d m' vb)"
      then show "x = t \<or> (\<exists>vb. x = tab (pde d m vb) \<and> present (pde d m vb))" using pd tw by (metis (full_types))
    next
      assume "x = t \<or> (\<exists>vb. x = tab (pde d m vb) \<and> present (pde d m vb))"
      then show "\<exists>vb. x = tab (pde d m' vb) \<and> present (pde d m' vb)" using pd tw no' by metis
    qed
    then show ?thesis by (auto simp: tabs_def)
  qed
qed

section \<open>Mapping a page\<close>

text \<open>Writing the entry of \<open>va\<close> in an existing table.\<close>

lemma set_entry:
  assumes g: "pgt e d m ps" and pr: "present (pde d m va)" and w: "present w"
    and m': "m' = put32 m (tab (pde d m va) + 4 * PTX va) w"
  shows "pgt e d m' ps" "tabs d m' = tabs d m" "pent d m' vb = (if page_of vb = page_of va then Some w else pent d m vb)"
    "page_of a \<noteq> tab (pde d m va) \<Longrightarrow> m' a = m a"
proof -
  note G = pgtD [OF g]
  let ?t = "tab (pde d m va)"
  have t: "page_ok e ?t" "?t mod PGSIZE = 0" "?t \<noteq> d" using G(4) [OF pr] by auto
  show fr: "m' a = m a" if "page_of a \<noteq> ?t" for a using put_frame [OF t(2) PX_less(2) that] by (simp add: m')
  have pd: "pde d m' vb = pde d m vb" for vb
    unfolding pde_def using t(3) by (intro entry_frame [OF G(2) PX_less(1)] fr) auto
  show "pgt e d m' ps" using g unfolding pgt_def pd .
  show "tabs d m' = tabs d m" unfolding tabs_def pd ..
  show "pent d m' vb = (if page_of vb = page_of va then Some w else pent d m vb)"
  proof (cases "PDX vb = PDX va")
    case True
    then have same: "pde d m vb = pde d m va" by (simp add: pde_def)
    show ?thesis
    proof (cases "PTX vb = PTX va")
      case eq: True
      then have "page_of vb = page_of va" using True PX_page by blast
      then show ?thesis using pr w eq unfolding pent_def pd same by (simp add: m')
    next
      case False
      then have "page_of vb \<noteq> page_of va" using PX_page by blast
      moreover have "get32 m' (?t + 4 * PTX vb) = get32 m (?t + 4 * PTX vb)"
        unfolding m' using False by (intro entry_other [OF t(1) PX_less(2) PX_less(2)]) simp
      ultimately show ?thesis unfolding pent_def pd same by simp
    qed
  next
    case False
    then have ne: "page_of vb \<noteq> page_of va" using PX_page by blast
    have "get32 m' (tab (pde d m vb) + 4 * PTX vb) = get32 m (tab (pde d m vb) + 4 * PTX vb)" if "present (pde d m vb)"
      using G(4) [OF that] G(5) [OF that pr False] by (intro entry_frame [OF _ PX_less(2)] fr) auto
    then show ?thesis using ne unfolding pent_def pd by simp
  qed
qed

text \<open>What mapping the page of \<open>va\<close> does to the state.\<close>

definition maps :: "u32 \<Rightarrow> u32 \<Rightarrow> u32 \<Rightarrow> u32 \<Rightarrow> 'a kst_scheme \<Rightarrow> u32 list \<Rightarrow> 'a kst_scheme \<Rightarrow> u32 list \<Rightarrow> bool" where
  "maps e d va w s ps s' ps' \<longleftrightarrow> free_pages e s' ps' \<and> pgt e d (km s') ps' \<and>
    (\<forall>vb. pent d (km s') vb = (if page_of vb = page_of va then Some w else pent d (km s) vb)) \<and>
    (if present (pde d (km s) va) then ps' = ps \<and> tabs d (km s') = tabs d (km s)
     else ps = hd ps # ps' \<and> tabs d (km s') = insert (hd ps) (tabs d (km s))) \<and>
    (\<forall>a. page_of a \<notin> insert d (tabs d (km s')) \<longrightarrow> km s' a = km s a) \<and>
    s' = s\<lparr>freelist := freelist s', km := km s'\<rparr>"

lemma free_pages_km:
  assumes "free_pages e s ps" "\<And>a. page_of a \<in> set ps \<Longrightarrow> m' a = km s a"
  shows "free_pages e (s\<lparr>km := m'\<rparr>) ps"
proof -
  have "get32 m' v = get32 (km s) v" if "v \<in> set ps" for v
    using assms that by (intro get32_page) (auto simp: free_pages_def page_ok_def)
  then show ?thesis using assms(1) by (auto simp: free_pages_def intro: chain_cong)
qed

lemma tabs_mem: "present (pde d m va) \<Longrightarrow> tab (pde d m va) \<in> tabs d m" by (auto simp: tabs_def)

lemma mappage:
  fixes s :: "'a kst_scheme"
  assumes f: "free_pages e s ps" and g: "pgt e d (km s) ps" and no: "pent d (km s) va = None" and w: "w = pa OR pm OR PTE_P"
    and pg: "present (pde d (km s) va) \<or> ps \<noteq> []"
  shows "\<exists>s' ps'. mappages_loop d 0 va pa pm s = Inr (0, s') \<and> maps e d va w s ps s' ps'"
proof -
  have "odd w" by (simp add: w PTE_P_def even_or_iff)
  then have pw: "present w" by (simp add: present_def PTE_P_def and_one_eq odd_iff_mod_2_eq_one)
  show ?thesis
  proof (cases "present (pde d (km s) va)")
    case True
    let ?t = "tab (pde d (km s) va)"
    let ?m = "put32 (km s) (?t + 4 * PTX va) w"
    note S = set_entry [OF g True pw refl]
    have nz: "?t + 4 * PTX va \<noteq> 0" using entry_nz pgtD(4) [OF g True] PX_less(2) by blast
    have "\<not> present (get32 (km s) (?t + 4 * PTX va))" using no True by (auto simp: pent_def Let_def split: if_splits)
    then have "mappages_loop d 0 va pa pm s = Inr (0, s\<lparr>km := ?m\<rparr>)" using nz True w
      by (simp add: mappages_loop.simps walkpgdir_def Let_def pde_def present_def tab_def)
    moreover have "free_pages e (s\<lparr>km := ?m\<rparr>) ps"
      using S(4) pgtD(4) [OF g True] by (intro free_pages_km [OF f]) metis
    moreover have "?m a = km s a" if "page_of a \<notin> insert d (tabs d ?m)" for a
      using S(2,4) that tabs_mem [OF True] by (metis insertI2)
    ultimately show ?thesis using S(1-3) True
      by (intro exI [of _ "s\<lparr>km := ?m\<rparr>"] exI [of _ ps]) (auto simp: maps_def)
  next
    case False
    then obtain t ps' where ps: "ps = t # ps'" using pg by (cases ps) auto
    have k: "kalloc s = (t, s\<lparr>freelist := get32 (km s) t\<rparr>)" "t \<noteq> 0" "free_pages e (s\<lparr>freelist := get32 (km s) t\<rparr>) ps'"
      using free_pages_alloc [OF f] ps by auto
    have t: "page_ok e t" "t \<notin> set ps'" using f ps by (auto simp: free_pages_def)
    define m1 where "m1 = put32 (memset (km s) t 0 PGSIZE) (d + 4 * PDX va) (v2p t OR PTE_P OR PTE_W OR PTE_U)"
    note N = new_table [OF g [unfolded ps] t False m1_def]
    define m2 where "m2 = put32 m1 (tab (pde d m1 va) + 4 * PTX va) w"
    note S = set_entry [OF N(1,2) pw m2_def]
    have nz: "t + 4 * PTX va \<noteq> 0" using entry_nz t(1) PX_less(2) by blast
    have "walkpgdir d va True s = (t + 4 * PTX va, s\<lparr>freelist := get32 (km s) t, km := m1\<rparr>)"
      using False k(1,2) by (simp add: walkpgdir_def Let_def pde_def present_def m1_def)
    then have "mappages_loop d 0 va pa pm s = Inr (0, s\<lparr>freelist := get32 (km s) t, km := m2\<rparr>)"
      using nz N(3,5) w by (simp add: mappages_loop.simps Let_def m2_def)
    moreover have out: "m2 a = km s a" if "page_of a \<noteq> d" "page_of a \<noteq> t" for a
      using S(4) [of a] N(3) N(6) [OF that] that by simp
    have "free_pages e ((s\<lparr>freelist := get32 (km s) t\<rparr>)\<lparr>km := m2\<rparr>) ps'"
      using t pgtD(3) [OF g] ps by (intro free_pages_km [OF k(3)]) (auto intro!: out)
    moreover have "tabs d m2 = insert t (tabs d (km s))" using S(2) N(7) by simp
    ultimately show ?thesis using S(1,3) N(4) False ps out
      by (intro exI [of _ "s\<lparr>freelist := get32 (km s) t, km := m2\<rparr>"] exI [of _ ps']) (auto simp: maps_def)
  qed
qed

section \<open>User memory\<close>

text \<open>The address space of a process: its pages below \<open>KERNBASE\<close> are pages of their own, not free and not tables.\<close>

definition aspace :: "u32 \<Rightarrow> u32 \<Rightarrow> mem \<Rightarrow> u32 list \<Rightarrow> bool" where
  "aspace e d m ps \<longleftrightarrow> pgt e d m ps \<and>
    (\<forall>va f. va < KERNBASE \<and> pent d m va = Some f \<longrightarrow> page_ok e (tab f) \<and> tab f \<notin> set ps \<and> tab f \<noteq> d \<and> tab f \<notin> tabs d m) \<and>
    (\<forall>va vb f g. va < KERNBASE \<and> vb < KERNBASE \<and> pent d m va = Some f \<and> pent d m vb = Some g \<and> tab f = tab g \<longrightarrow> page_of va = page_of vb)"

lemma aspaceD:
  assumes "aspace e d m ps"
  shows "pgt e d m ps"
    "va < KERNBASE \<Longrightarrow> pent d m va = Some f \<Longrightarrow> page_ok e (tab f) \<and> tab f mod PGSIZE = 0 \<and> tab f \<notin> set ps \<and> tab f \<noteq> d \<and> tab f \<notin> tabs d m"
    "va < KERNBASE \<Longrightarrow> vb < KERNBASE \<Longrightarrow> pent d m va = Some f \<Longrightarrow> pent d m vb = Some g \<Longrightarrow> tab f = tab g \<Longrightarrow> page_of va = page_of vb"
  using assms unfolding aspace_def by (blast, simp add: page_ok_def, blast)

definition off :: "u32 \<Rightarrow> nat" where "off x = unat (x mod PGSIZE)"

lemma off_less: "off x < 4096" by (simp add: off_def unat_mod_distrib PGSIZE_def)

lemma off_split: "x = page_of x + of_nat (off x)" by (simp add: off_def page_of_def)

lemma low12: "x AND 0xFFF = of_nat (off x)"
  by (simp add: off_def PGSIZE_def flip: take_bit_eq_mod [of 12 x, simplified]) (simp add: take_bit_eq_mask mask_eq_exp_minus_1)

lemma uload1_pent: "uload1 d m x = map_option (\<lambda>f. m (tab f + of_nat (off x))) (pent d m x)"
  by (simp add: uload1_def va2ka_pent low12 option.map_comp comp_def)

lemma pent_page: "page_of x = page_of y \<Longrightarrow> pent d m x = pent d m y"
  using PX_page [of x y] by (simp add: pent_def pde_def)

lemma page_of_page [simp]: "page_of (page_of x) = page_of x"
proof -
  have "unat (page_of (page_of x)) = unat (page_of x)" by (simp add: unat_page_of)
  then show ?thesis by (simp only: word_unat_eq_iff)
qed

text \<open>Memory outside the tables does not matter to the translation.\<close>

lemma pent_frame:
  assumes "pgt e d m ps" "\<And>a. page_of a \<in> insert d (tabs d m) \<Longrightarrow> m' a = m a"
  shows "pde d m' va = pde d m va" "pent d m' va = pent d m va" "tabs d m' = tabs d m" "pgt e d m' ps"
proof -
  note G = pgtD [OF assms(1)]
  have pd: "pde d m' vb = pde d m vb" for vb
    unfolding pde_def by (intro entry_frame [OF G(2) PX_less(1)] assms(2)) simp
  then show "pde d m' va = pde d m va" .
  have "get32 m' (tab (pde d m va) + 4 * PTX va) = get32 m (tab (pde d m va) + 4 * PTX va)" if "present (pde d m va)"
    using G(4) [OF that] tabs_mem [OF that] by (intro entry_frame [OF _ PX_less(2)] assms(2)) auto
  then show "pent d m' va = pent d m va" unfolding pent_def pd by simp
  show "tabs d m' = tabs d m" unfolding tabs_def pd ..
  show "pgt e d m' ps" using assms(1) unfolding pgt_def pd .
qed

lemma aspace_frame:
  assumes "aspace e d m ps" "\<And>a. page_of a \<in> insert d (tabs d m) \<Longrightarrow> m' a = m a"
  shows "aspace e d m' ps"
  using assms(1) pent_frame [OF aspaceD(1) [OF assms(1)], of m'] assms(2) unfolding aspace_def by simp

section \<open>Writing to user memory\<close>

lemma store_other: "(\<And>i. i < length bs \<Longrightarrow> x \<noteq> a + of_nat i) \<Longrightarrow> store m a bs x = m x"
proof (induction bs arbitrary: m a)
  case (Cons c cs)
  have "x \<noteq> a + 1 + of_nat i" if "i < length cs" for i using Cons.prems [of "Suc i"] that by (simp add: add.assoc)
  moreover have "x \<noteq> a" using Cons.prems [of 0] by simp
  ultimately show ?case using Cons.IH [of "a + 1"] by simp
qed simp

lemma store_nth:
  assumes "i < length bs" "length bs \<le> 4096"
  shows "store m a bs (a + of_nat i) = bs ! i"
  using assms
proof (induction bs arbitrary: m a i)
  case (Cons c cs)
  show ?case
  proof (cases i)
    case 0
    have "a \<noteq> a + 1 + of_nat j" if "j < length cs" for j
      using that Cons.prems(2) word32_add_of_nat_eq_iff [of 0 "Suc j" a] by (simp add: add.assoc)
    then show ?thesis using 0 store_other [of cs a "a + 1" "m(a := c)"] by simp
  next
    case (Suc j)
    then show ?thesis using Cons.IH [of j _ "a + 1"] Cons.prems by (simp add: add.assoc)
  qed
qed simp

text \<open>A write that stays inside one page of the process.\<close>

lemma chunk:
  assumes a: "aspace e d m ps" and v: "v < KERNBASE" "pent d m v = Some f" and l: "o' + length bs \<le> 4096"
    and m': "m' = store m (tab f + of_nat o') bs"
  shows "aspace e d m' ps" "pent d m' x = pent d m x" "page_of b \<noteq> tab f \<Longrightarrow> m' b = m b"
    "x < KERNBASE \<Longrightarrow> uload1 d m' x = (if page_of x = page_of v \<and> o' \<le> off x \<and> off x < o' + length bs then Some (bs ! (off x - o')) else uload1 d m x)"
proof -
  note A = aspaceD [OF a]
  have t: "tab f mod PGSIZE = 0" "tab f \<notin> insert d (tabs d m)" using A(2) [OF v] by auto
  have pg: "page_of (tab f + of_nat k) = tab f" if "k < 4096" for k using page_of_add [OF t(1) that] .
  have ne: "b \<noteq> tab f + of_nat o' + of_nat i" if "i < length bs" "page_of b \<noteq> tab f" for b i
    using pg [of "o' + i"] l that by (auto simp: add.assoc)
  show fr: "m' b = m b" if "page_of b \<noteq> tab f" for b
    unfolding m' using that ne by (intro store_other) auto
  have same: "m' b = m b" if "page_of b \<in> insert d (tabs d m)" for b using fr that t(2) by metis
  show "aspace e d m' ps" by (rule aspace_frame [OF a same])
  show pe: "pent d m' x = pent d m x" for x by (rule pent_frame(2) [OF A(1) same])
  show "uload1 d m' x = (if page_of x = page_of v \<and> o' \<le> off x \<and> off x < o' + length bs then Some (bs ! (off x - o')) else uload1 d m x)"
    if x: "x < KERNBASE"
  proof (cases "pent d m x")
    case None
    then have "page_of x \<noteq> page_of v" using pent_page [of x v d m] v(2) by auto
    then show ?thesis using None by (simp add: uload1_pent pe)
  next
    case (Some g)
    show ?thesis
    proof (cases "page_of x = page_of v")
      case True
      then have gf: "g = f" using Some v(2) pent_page [of x v d m] by simp
      show ?thesis
      proof (cases "o' \<le> off x \<and> off x < o' + length bs")
        case in_range: True
        then have "tab f + of_nat (off x) = tab f + of_nat o' + of_nat (off x - o')" by (simp add: of_nat_diff)
        moreover have "off x - o' < length bs" using in_range by arith
        ultimately have "m' (tab f + of_nat (off x)) = bs ! (off x - o')"
          using store_nth [of "off x - o'" bs m "tab f + of_nat o'"] l by (simp add: m' add.assoc)
        then show ?thesis using True Some gf in_range by (simp add: uload1_pent pe)
      next
        case False
        have "tab f + of_nat (off x) \<noteq> tab f + of_nat o' + of_nat i" if "i < length bs" for i
          using word32_add_of_nat_eq_iff [of "off x" "o' + i" "tab f"] False that l off_less [of x] by (auto simp: add.assoc)
        then have "m' (tab f + of_nat (off x)) = m (tab f + of_nat (off x))" unfolding m' by (intro store_other) auto
        then show ?thesis using True Some gf False by (auto simp: uload1_pent pe)
      qed
    next
      case False
      have "tab g \<noteq> tab f" using A(3) [OF x v(1) Some v(2)] False by blast
      moreover have "page_of (tab g + of_nat (off x)) = tab g" using page_of_add [of "tab g" "off x"] A(2) [OF x Some] off_less by blast
      ultimately have "m' (tab g + of_nat (off x)) = m (tab g + of_nat (off x))" using fr by metis
      then show ?thesis using False Some by (simp add: uload1_pent pe)
    qed
  qed
qed

text \<open>The pages of a process that it may itself use.\<close>

definition user_page :: "u32 \<Rightarrow> mem \<Rightarrow> u32 \<Rightarrow> bool" where
  "user_page d m x \<longleftrightarrow> (case pent d m x of None \<Rightarrow> False | Some f \<Rightarrow> f AND PTE_U \<noteq> 0)"

lemma walk_entry:
  assumes "pgt e d (km s) ps" "pent d (km s) va = Some f"
  shows "\<exists>p. walkpgdir d va al s = (p, s) \<and> p \<noteq> 0 \<and> get32 (km s) p = f \<and> f AND PTE_P \<noteq> 0"
proof -
  have pr: "present (pde d (km s) va)" "present f" "get32 (km s) (tab (pde d (km s) va) + 4 * PTX va) = f"
    using assms(2) by (auto simp: pent_def Let_def split: if_splits)
  have "tab (pde d (km s) va) + 4 * PTX va \<noteq> 0" using entry_nz pgtD(4) [OF assms(1) pr(1)] PX_less(2) by blast
  then show ?thesis using pr by (simp add: walkpgdir_def Let_def pde_def present_def tab_def)
qed

lemma uva2ka_ok:
  assumes "pgt e d (km s) ps" "pent d (km s) va = Some f" "f AND PTE_U \<noteq> 0"
  shows "uva2ka d va s = Inr (tab f, s)"
  using walk_entry [OF assms(1,2), of False] assms(3) by (auto simp: uva2ka_def Let_def tab_def)

lemma user_range: "unat va + n \<le> 0x80000000 \<Longrightarrow> i < n \<Longrightarrow> unat (va + of_nat i) = unat va + i \<and> va + of_nat i < KERNBASE"
  using unat_off [of va i] by (simp add: KERNBASE_def word_less_nat_alt)

lemma off_page: "unat x = unat (page_of x) + off x"
  by (simp add: unat_page_of off_def unat_mod_distrib PGSIZE_def)

lemma page_range: "page_of x = page_of y \<longleftrightarrow> unat (page_of y) \<le> unat x \<and> unat x < unat (page_of y) + 4096"
proof -
  have "page_of x = page_of y \<longleftrightarrow> unat x div 4096 = unat y div 4096"
    unfolding word_unat_eq_iff [of "page_of x"] unat_page_of by simp
  also have "\<dots> \<longleftrightarrow> 4096 * (unat y div 4096) \<le> unat x \<and> unat x < 4096 * (unat y div 4096) + 4096"
  proof
    assume "unat x div 4096 = unat y div 4096"
    then have "unat x = 4096 * (unat y div 4096) + unat x mod 4096" using mult_div_mod_eq [of 4096 "unat x"] by simp
    then show "4096 * (unat y div 4096) \<le> unat x \<and> unat x < 4096 * (unat y div 4096) + 4096" using mod_less_divisor [of 4096 "unat x"] by linarith
  qed (auto intro!: div_nat_eqI)
  finally show ?thesis unfolding unat_page_of .
qed

text \<open>The bytes of one page a write of \<open>n\<close> bytes from \<open>va\<close> on covers.\<close>

lemma cut:
  assumes "off va + n \<le> 4096"
  shows "page_of x = page_of va \<and> off va \<le> off x \<and> off x < off va + n \<longleftrightarrow> unat va \<le> unat x \<and> unat x < unat va + n"
  using off_page [of x] off_page [of va] off_less [of x] off_less [of va] assms page_range [of x va] by auto

lemma copyout_loop_ok:
  fixes s :: "'a kst_scheme"
  assumes "aspace e d (km s) ps" "unat va + length buf \<le> 0x80000000"
    "\<forall>x. unat va \<le> unat x \<and> unat x < unat va + length buf \<longrightarrow> user_page d (km s) x"
  shows "\<exists>m'. copyout_loop d va buf s = Inr (0, s\<lparr>km := m'\<rparr>) \<and> aspace e d m' ps \<and> (\<forall>x. pent d m' x = pent d (km s) x) \<and>
    (\<forall>x < KERNBASE. uload1 d m' x = (if unat va \<le> unat x \<and> unat x < unat va + length buf
       then Some (buf ! (unat x - unat va)) else uload1 d (km s) x)) \<and> (\<forall>v \<in> set ps. \<forall>b. page_of b = v \<longrightarrow> m' b = km s b)"
  using assms
proof (induction d va buf s rule: copyout_loop.induct)
  case (1 d va buf s)
  show ?case
  proof (cases "buf = []")
    case True
    then show ?thesis using "1.prems"(1) by (intro exI [of _ "km s"]) (auto simp: copyout_loop.simps [of d va])
  next
    case False
    let ?v = "PGROUNDDOWN va" and ?n = "min (unat (PGSIZE - (va - PGROUNDDOWN va))) (length buf)"
    have v: "?v = page_of va" "va - ?v = of_nat (off va)" using PGROUNDDOWN_page [of va] by (simp_all add: off_def)
    have vk: "va < KERNBASE" using "1.prems"(2) False by (cases buf) (auto simp: KERNBASE_def word_less_nat_alt)
    obtain f where f: "pent d (km s) va = Some f" "f AND PTE_U \<noteq> 0"
      using "1.prems"(3) [rule_format, of va] False by (auto simp: user_page_def split: option.splits)
    then have f': "pent d (km s) ?v = Some f" using pent_page [of va ?v d] v(1) by simp
    note g = aspaceD(1) [OF "1.prems"(1)]
    have u: "uva2ka d ?v s = Inr (tab f, s)" by (rule uva2ka_ok [OF g f' f(2)])
    have tz: "tab f \<noteq> 0" using aspaceD(2) [OF "1.prems"(1) vk f(1)] page_ok_nz by blast
    have n: "?n = min (4096 - off va) (length buf)"
    proof -
      have "unat (PGSIZE - of_nat (off va)) = 4096 - off va"
        using off_less [of va] unat_sub [of "of_nat (off va)" PGSIZE] by (simp add: PGSIZE_def word_le_nat_alt unat_of_nat)
      then show ?thesis unfolding v(2) by simp
    qed
    define m1 where "m1 = store (km s) (tab f + (va - ?v)) (take ?n buf)"
    have m1: "m1 = store (km s) (tab f + of_nat (off va)) (take ?n buf)" unfolding m1_def v(2) ..
    have l: "off va + length (take ?n buf) \<le> 4096" unfolding n using off_less [of va] by simp
    note C = chunk [OF "1.prems"(1) vk f(1) l m1]
    have keep: "\<forall>v \<in> set ps. \<forall>b. page_of b = v \<longrightarrow> m1 b = km s b"
      using aspaceD(2) [OF "1.prems"(1) vk f(1)] by (auto intro!: C(3))
    have view: "uload1 d m1 x = (if unat va \<le> unat x \<and> unat x < unat va + ?n then Some (buf ! (unat x - unat va)) else uload1 d (km s) x)"
      if "x < KERNBASE" for x
    proof -
      have "off va + ?n \<le> 4096" using l by simp
      note c = cut [OF this, of x]
      have "off x - off va = unat x - unat va" if "page_of x = page_of va" using off_page [of x] off_page [of va] that by simp
      moreover have "take ?n buf ! (unat x - unat va) = buf ! (unat x - unat va)" if "unat x < unat va + ?n" "unat va \<le> unat x"
        using that by (intro nth_take) arith
      ultimately show ?thesis using C(4) [OF that] c by auto
    qed
    have step: "copyout_loop d va buf s = copyout_loop d (?v + PGSIZE) (drop ?n buf) (s\<lparr>km := m1\<rparr>)"
      using False u tz by (simp add: copyout_loop.simps [of d va] Let_def m1_def)
    show ?thesis
    proof (cases "drop ?n buf = []")
      case True
      then have "?n = length buf" by simp
      then show ?thesis using step True C(1,2) keep view
        by (intro exI [of _ m1]) (auto simp: copyout_loop.simps [of d "PGROUNDDOWN va + PGSIZE"])
    next
      case more: False
      then have "?n = 4096 - off va" "4096 - off va < length buf" unfolding n by auto
      then have le: "unat ?v + 4096 = unat va + ?n" "?n < length buf" using off_page [of va] off_less [of va] v(1) by auto
      have nx: "unat (?v + PGSIZE) = unat va + ?n"
        using unat_off [of ?v 4096] le "1.prems"(2) by (simp add: PGSIZE_def)
      have len: "unat (?v + PGSIZE) + length (drop ?n buf) = unat va + length buf" using nx le(2) by simp
      have up: "user_page d m1 x" if "unat (?v + PGSIZE) \<le> unat x" "unat x < unat va + length buf" for x
        using "1.prems"(3) [rule_format, of x] that nx by (simp add: user_page_def C(2))
      note IH = "1.IH" [OF False refl u refl tz refl, folded m1_def, unfolded kst.simps]
      obtain m' where m': "copyout_loop d (?v + PGSIZE) (drop ?n buf) (s\<lparr>km := m1\<rparr>) = Inr (0, s\<lparr>km := m1\<rparr>\<lparr>km := m'\<rparr>)" "aspace e d m' ps"
        "\<forall>x. pent d m' x = pent d m1 x" "\<forall>v \<in> set ps. \<forall>b. page_of b = v \<longrightarrow> m' b = m1 b"
        "\<forall>x < KERNBASE. uload1 d m' x = (if unat va + ?n \<le> unat x \<and> unat x < unat va + length buf
           then Some (drop ?n buf ! (unat x - (unat va + ?n))) else uload1 d m1 x)"
        using IH C(1) "1.prems"(2) up unfolding len unfolding nx by auto
      have "uload1 d m' x = (if unat va \<le> unat x \<and> unat x < unat va + length buf then Some (buf ! (unat x - unat va)) else uload1 d (km s) x)"
        if "x < KERNBASE" for x
        using m'(5) [rule_format, OF that] view [OF that] le(2) by auto
      then show ?thesis using step m' C(2) keep by (intro exI [of _ m']) auto
    qed
  qed
qed

section \<open>Growing a process\<close>

lemma flags_or:
  assumes "f < 4096"
  shows "f OR PTE_P < 4096"
proof -
  have "take_bit 12 f = f" using assms by (simp add: word_unat_eq_iff word_less_nat_alt take_bit_eq_mod unat_mod_distrib)
  then have "f OR PTE_P = take_bit 12 (f OR PTE_P)" by (simp add: take_bit_or PTE_P_def)
  then have "unat (f OR PTE_P) = unat (f OR PTE_P) mod 4096" by (simp add: take_bit_eq_mod unat_mod_distrib word_unat_eq_iff)
  then have "unat (f OR PTE_P) < 4096" by (metis mod_less_divisor zero_less_numeral)
  then show ?thesis by (simp add: word_less_nat_alt)
qed

lemma mappages_one:
  assumes "va mod PGSIZE = 0"
  shows "mappages d va PGSIZE pa pm s = mappages_loop d 0 va pa pm s"
proof -
  have "PGROUNDDOWN va = va" using PGROUNDDOWN_page(1) page_of_word(1) [OF assms] by simp
  moreover have "PGROUNDDOWN (va + PGSIZE - 1) = va"
    using PGROUNDDOWN_page(1) [of "va + 4095"] page_of_add [OF assms, of 4095] by (simp add: PGSIZE_def add.commute)
  ultimately show ?thesis by (simp add: mappages_def)
qed

lemma pgt_sub: "pgt e d m ps \<Longrightarrow> set ps' \<subseteq> set ps \<Longrightarrow> pgt e d m ps'"
  by (auto simp: pgt_def)

lemma aspace_sub: "aspace e d m ps \<Longrightarrow> set ps' \<subseteq> set ps \<Longrightarrow> aspace e d m ps'"
  unfolding aspace_def using pgt_sub by blast

lemma tabs_pages: "pgt e d m ps \<Longrightarrow> t \<in> tabs d m \<Longrightarrow> t \<notin> set ps \<and> t mod PGSIZE = 0"
  using pgtD(4) by (auto simp: tabs_def)

text \<open>Mapping a page that nobody has, which holds zeros.\<close>

lemma map_fresh:
  fixes s :: "'a kst_scheme"
  assumes a: "aspace e d (km s) ps" and v: "page_ok e v" "v \<notin> set ps" "v \<noteq> d" "v \<notin> tabs d (km s)"
      "\<And>x f. x < KERNBASE \<Longrightarrow> pent d (km s) x = Some f \<Longrightarrow> tab f \<noteq> v"
    and w: "tab w = v" and z: "\<And>b. page_of b = v \<Longrightarrow> km s b = 0"
    and m: "maps e d va w s ps s' ps'"
  shows "aspace e d (km s') ps'"
    "x < KERNBASE \<Longrightarrow> uload1 d (km s') x = (if page_of x = page_of va then Some 0 else uload1 d (km s) x)"
proof -
  note A = aspaceD [OF a]
  have M: "pgt e d (km s') ps'" "\<And>x. pent d (km s') x = (if page_of x = page_of va then Some w else pent d (km s) x)"
    "\<And>b. page_of b \<notin> insert d (tabs d (km s')) \<Longrightarrow> km s' b = km s b" using m by (auto simp: maps_def)
  have ps: "set ps' \<subseteq> set ps" "tabs d (km s') \<subseteq> tabs d (km s) \<union> set ps"
    using m by (auto simp: maps_def split: if_splits) (metis list.set_intros(1,2))+
  have old: "tab f \<notin> insert d (tabs d (km s'))" "tab f \<notin> set ps'" "tab f mod PGSIZE = 0" "page_ok e (tab f)" "tab f \<noteq> v"
    if "x < KERNBASE" "pent d (km s) x = Some f" for x f
    using A(2) [OF that] ps v(5) [OF that] by auto
  have new: "v \<notin> insert d (tabs d (km s'))" "v \<notin> set ps'" using v ps by auto
  show "aspace e d (km s') ps'" unfolding aspace_def
  proof (intro conjI allI impI)
    fix x f
    assume x: "x < KERNBASE \<and> pent d (km s') x = Some f"
    then show "page_ok e (tab f)" "tab f \<notin> set ps'" "tab f \<noteq> d" "tab f \<notin> tabs d (km s')"
      using M(2) [of x] old [of x f] new v(1) w by (auto split: if_splits)
  next
    fix x y f g
    assume "x < KERNBASE \<and> y < KERNBASE \<and> pent d (km s') x = Some f \<and> pent d (km s') y = Some g \<and> tab f = tab g"
    then show "page_of x = page_of y"
      using M(2) [of x] M(2) [of y] v(5) [of x f] v(5) [of y g] w A(3) [of x y f g] by (auto split: if_splits)
  qed (rule M(1))
  show "uload1 d (km s') x = (if page_of x = page_of va then Some 0 else uload1 d (km s) x)" if x: "x < KERNBASE"
  proof (cases "page_of x = page_of va")
    case True
    have "page_of (v + of_nat (off x)) = v" using page_of_add [of v "off x"] off_less v(1) by (simp add: page_ok_def)
    then have "km s' (v + of_nat (off x)) = 0" using M(3) new(1) z by metis
    then show ?thesis using True M(2) [of x] w by (simp add: uload1_pent)
  next
    case False
    show ?thesis
    proof (cases "pent d (km s) x")
      case None
      then show ?thesis using False M(2) [of x] by (simp add: uload1_pent)
    next
      case (Some f)
      have "page_of (tab f + of_nat (off x)) = tab f" using page_of_add [of "tab f" "off x"] off_less old(3) [OF x Some] by simp
      then have "km s' (tab f + of_nat (off x)) = km s (tab f + of_nat (off x))" using M(3) old(1) [OF x Some] by metis
      then show ?thesis using False Some M(2) [of x] by (simp add: uload1_pent)
    qed
  qed
qed

definition uentry :: "u32 \<Rightarrow> u32" where "uentry v = v2p v OR (PTE_W OR PTE_U) OR PTE_P"

lemma uentry:
  assumes "v mod PGSIZE = 0"
  shows "tab (uentry v) = v" "uentry v AND PTE_U \<noteq> 0"
  using entry_word [OF v2p_aligned [OF assms], of 7]
  by (simp_all add: uentry_def tab_def PTE_P_def PTE_W_def PTE_U_def)

lemma grow1:
  fixes s :: "'a kst_scheme"
  assumes a: "aspace e d (km s) (v # t # ps)" and f: "free_pages e s (v # t # ps)" and va: "va mod PGSIZE = 0" "pent d (km s) va = None"
  shows "\<exists>s' ps'. kalloc s = (v, s\<lparr>freelist := get32 (km s) v\<rparr>) \<and> v \<noteq> 0 \<and>
    mappages d va PGSIZE (v2p v) (PTE_W OR PTE_U) (s\<lparr>freelist := get32 (km s) v, km := memset (km s) v 0 PGSIZE\<rparr>) = Inr (0, s') \<and>
    free_pages e s' ps' \<and> aspace e d (km s') ps' \<and> length ps \<le> length ps' \<and>
    (\<forall>x. pent d (km s') x = (if page_of x = va then Some (uentry v) else pent d (km s) x)) \<and>
    (\<forall>x < KERNBASE. uload1 d (km s') x = (if page_of x = va then Some 0 else uload1 d (km s) x))"
proof -
  let ?m = "memset (km s) v 0 PGSIZE" and ?s1 = "s\<lparr>freelist := get32 (km s) v, km := memset (km s) v 0 PGSIZE\<rparr>"
  have k: "kalloc s = (v, s\<lparr>freelist := get32 (km s) v\<rparr>)" "v \<noteq> 0" "free_pages e (s\<lparr>freelist := get32 (km s) v\<rparr>) (t # ps)"
    using free_pages_alloc [OF f] by auto
  have v: "page_ok e v" "v mod PGSIZE = 0" "v \<notin> set (t # ps)" using f by (auto simp: free_pages_def page_ok_def)
  note g = aspaceD(1) [OF a]
  have dv: "v \<noteq> d" "v \<notin> tabs d (km s)" using pgtD(3) [OF g] tabs_pages [OF g, of v] by auto
  have m: "?m b = km s b" if "page_of b \<noteq> v" for b using memset_page(2) [OF v(2) that] .
  have sm: "?m b = km s b" if "page_of b \<in> insert d (tabs d (km s))" for b using that dv by (intro m) auto
  note P = pent_frame [OF g sm]
  have fp: "free_pages e ((s\<lparr>freelist := get32 (km s) v\<rparr>)\<lparr>km := ?m\<rparr>) (t # ps)"
    using v(3) by (intro free_pages_km [OF k(3)]) (auto intro!: m)
  have a1: "aspace e d (km ?s1) (t # ps)" using aspace_sub [OF aspace_frame [OF a sm], of "t # ps"] by auto
  have "v2p v OR (PTE_W OR PTE_U) OR PTE_P = uentry v" by (simp add: uentry_def)
  moreover obtain s' ps' where s': "mappages_loop d 0 va (v2p v) (PTE_W OR PTE_U) ?s1 = Inr (0, s')"
      "maps e d va (v2p v OR (PTE_W OR PTE_U) OR PTE_P) ?s1 (t # ps) s' ps'"
    using mappage [of e ?s1 "t # ps" d va _ "v2p v" "PTE_W OR PTE_U", OF _ aspaceD(1) [OF a1] _ refl] fp va(2) P(2) by fastforce
  ultimately have mp: "maps e d va (uentry v) ?s1 (t # ps) s' ps'" by simp
  have pv: "page_of va = va" using page_of_word(1) [OF va(1)] .
  have F: "aspace e d (km s') ps'" "\<And>x. x < KERNBASE \<Longrightarrow> uload1 d (km s') x = (if page_of x = page_of va then Some 0 else uload1 d ?m x)"
    using map_fresh [OF a1 v(1,3) _ _ _ uentry(1) [OF v(2)] _ mp] dv P(2,3) aspaceD(2) [OF a] memset_page(1) [OF v(2), of _ "km s" 0] by auto
  have same: "uload1 d ?m x = uload1 d (km s) x" if "x < KERNBASE" for x
  proof (cases "pent d (km s) x")
    case None
    then show ?thesis using P(2) [of x] by (simp add: uload1_pent)
  next
    case (Some g)
    have "page_of (tab g + of_nat (off x)) = tab g" "tab g \<noteq> v"
      using aspaceD(2) [OF a that Some] page_of_add [of "tab g" "off x"] off_less by auto
    then show ?thesis using Some P(2) [of x] m by (simp add: uload1_pent)
  qed
  have "length ps \<le> length ps'" "free_pages e s' ps'" "\<forall>x. pent d (km s') x = (if page_of x = va then Some (uentry v) else pent d (km s) x)"
    using mp P(2) pv by (auto simp: maps_def split: if_splits)
  then show ?thesis using k(1,2) s'(1) F same pv by (intro exI [of _ s'] exI [of _ ps']) (auto simp: mappages_one [OF va(1)])
qed

text \<open>The number of pages from \<open>a\<close> on that cover the addresses below \<open>sz\<close>.\<close>

definition npages :: "nat \<Rightarrow> nat \<Rightarrow> nat" where "npages a sz = (sz - a + 4095) div 4096"

lemma npages_step: "a < sz \<Longrightarrow> npages a sz = Suc (npages (a + 4096) sz)"
proof -
  assume a: "a < sz"
  show ?thesis
  proof (cases "sz - a \<le> 4096")
    case True
    then have "npages (a + 4096) sz = 0" "npages a sz = 1" using a by (auto simp: npages_def intro!: div_nat_eqI)
    then show ?thesis by simp
  next
    case False
    then have "sz - a + 4095 = (sz - (a + 4096) + 4095) + 4096" by simp
    then show ?thesis unfolding npages_def by (simp only: div_add_self2)
  qed
qed

lemma allocuvm_loop_ok:
  fixes s :: "'a kst_scheme"
  assumes "n = npages (unat a) (unat newsz)" "newsz < KERNBASE" "a mod PGSIZE = 0" "2 * n \<le> length ps"
    "aspace e d (km s) ps" "free_pages e s ps" "\<forall>x. unat a \<le> unat x \<and> x < KERNBASE \<longrightarrow> pent d (km s) x = None"
  shows "\<exists>s' ps'. allocuvm_loop d oldsz newsz a s = Inr (newsz, s') \<and> free_pages e s' ps' \<and> aspace e d (km s') ps' \<and>
    (\<forall>x < KERNBASE. uload1 d (km s') x = (if unat a \<le> unat x \<and> unat x < unat a + 4096 * n then Some 0 else uload1 d (km s) x) \<and>
      (unat a \<le> unat x \<and> unat x < unat a + 4096 * n \<longrightarrow> user_page d (km s') x) \<and> (unat x < unat a \<longrightarrow> pent d (km s') x = pent d (km s) x))"
  using assms
proof (induction n arbitrary: a s ps)
  case 0
  have "newsz \<le> a" using 0(1) by (cases "unat a < unat newsz") (auto simp: npages_step word_le_nat_alt)
  then show ?case using 0 by (intro exI [of _ s] exI [of _ ps]) (auto simp: allocuvm_loop.simps [of d oldsz newsz a])
next
  case (Suc n)
  have lt: "unat a < unat newsz" using Suc.prems(1) by (cases "unat a < unat newsz") (auto simp: npages_def)
  have n: "n = npages (unat a + 4096) (unat newsz)" using Suc.prems(1) npages_step [OF lt] by simp
  have nk: "unat newsz < 0x80000000" using Suc.prems(2) by (simp add: KERNBASE_def word_less_nat_alt)
  have ak: "a < KERNBASE" using lt nk by (simp add: KERNBASE_def word_less_nat_alt)
  have un: "unat (a + PGSIZE) = unat a + 4096" using unat_off [of a 4096] lt nk by (simp add: PGSIZE_def)
  obtain v t ps1 where ps: "ps = v # t # ps1" "2 * n \<le> length ps1"
    using Suc.prems(4) by (cases ps; cases "tl ps") auto
  have nomap: "pent d (km s) a = None" using Suc.prems(7) ak by simp
  obtain s1 ps2 where g: "kalloc s = (v, s\<lparr>freelist := get32 (km s) v\<rparr>)" "v \<noteq> 0"
    "mappages d a PGSIZE (v2p v) (PTE_W OR PTE_U) (s\<lparr>freelist := get32 (km s) v, km := memset (km s) v 0 PGSIZE\<rparr>) = Inr (0, s1)"
    "free_pages e s1 ps2" "aspace e d (km s1) ps2" "length ps1 \<le> length ps2"
    "\<forall>x. pent d (km s1) x = (if page_of x = a then Some (uentry v) else pent d (km s) x)"
    "\<forall>x < KERNBASE. uload1 d (km s1) x = (if page_of x = a then Some 0 else uload1 d (km s) x)"
    using grow1 [OF Suc.prems(5) [unfolded ps(1)] Suc.prems(6) [unfolded ps(1)] Suc.prems(3) nomap] by blast
  have step: "allocuvm_loop d oldsz newsz a s = allocuvm_loop d oldsz newsz (a + PGSIZE) s1"
    using g(1-3) lt nk by (subst allocuvm_loop.simps) (simp add: word_le_nat_alt)
  have pa: "page_of a = a" using page_of_word(1) [OF Suc.prems(3)] .
  have pr: "page_of x = a \<longleftrightarrow> unat a \<le> unat x \<and> unat x < unat a + 4096" for x using page_range [of x a] unfolding pa .
  have al: "(a + PGSIZE) mod PGSIZE = 0" using Suc.prems(3) un by (simp add: mod_PGSIZE)
  have "\<forall>x. unat (a + PGSIZE) \<le> unat x \<and> x < KERNBASE \<longrightarrow> pent d (km s1) x = None"
    using g(7) pr Suc.prems(7) un by simp
  then obtain s' ps' where r: "allocuvm_loop d oldsz newsz (a + PGSIZE) s1 = Inr (newsz, s')" "free_pages e s' ps'" "aspace e d (km s') ps'"
    "\<forall>x < KERNBASE. uload1 d (km s') x = (if unat a + 4096 \<le> unat x \<and> unat x < unat a + 4096 + 4096 * n then Some 0 else uload1 d (km s1) x) \<and>
      (unat a + 4096 \<le> unat x \<and> unat x < unat a + 4096 + 4096 * n \<longrightarrow> user_page d (km s') x) \<and> (unat x < unat a + 4096 \<longrightarrow> pent d (km s') x = pent d (km s1) x)"
    using Suc.IH [of "a + PGSIZE" ps2 s1] n un Suc.prems(2) al ps(2) g(4-6) le_trans [OF ps(2) g(6)] by auto
  have vu: "user_page d (km s1) x" if "page_of x = a" for x
    using g(7) that uentry(2) [of v] ps(1) Suc.prems(6) by (simp add: user_page_def free_pages_def page_ok_def)
  have "uload1 d (km s') x = (if unat a \<le> unat x \<and> unat x < unat a + 4096 * Suc n then Some 0 else uload1 d (km s) x) \<and>
      (unat a \<le> unat x \<and> unat x < unat a + 4096 * Suc n \<longrightarrow> user_page d (km s') x) \<and> (unat x < unat a \<longrightarrow> pent d (km s') x = pent d (km s) x)"
    if "x < KERNBASE" for x
    using r(4) [rule_format, OF that] g(7,8) pr [of x] that vu [of x] by (auto simp: user_page_def)
  then show ?case using step r(1-3) by (intro exI [of _ s'] exI [of _ ps']) simp
qed

lemma allocuvm_ok:
  fixes s :: "'a kst_scheme"
  assumes "aspace e d (km s) ps" "free_pages e s ps" "oldsz \<le> newsz" "newsz < KERNBASE" "2 * npages (unat (PGROUNDUP oldsz)) (unat newsz) \<le> length ps"
    "\<forall>x. unat (PGROUNDUP oldsz) \<le> unat x \<and> x < KERNBASE \<longrightarrow> pent d (km s) x = None"
  shows "\<exists>s' ps'. allocuvm d oldsz newsz s = Inr (newsz, s') \<and> free_pages e s' ps' \<and> aspace e d (km s') ps' \<and>
    (\<forall>x < KERNBASE. uload1 d (km s') x = (if unat (PGROUNDUP oldsz) \<le> unat x \<and>
         unat x < unat (PGROUNDUP oldsz) + 4096 * npages (unat (PGROUNDUP oldsz)) (unat newsz) then Some 0 else uload1 d (km s) x) \<and>
      (unat (PGROUNDUP oldsz) \<le> unat x \<and> x < newsz \<longrightarrow> user_page d (km s') x) \<and>
      (unat x < unat (PGROUNDUP oldsz) \<longrightarrow> pent d (km s') x = pent d (km s) x))"
proof -
  let ?a = "PGROUNDUP oldsz" and ?n = "npages (unat (PGROUNDUP oldsz)) (unat newsz)"
  obtain s' ps' where s': "allocuvm_loop d oldsz newsz ?a s = Inr (newsz, s')" "free_pages e s' ps'" "aspace e d (km s') ps'"
    "\<forall>x < KERNBASE. uload1 d (km s') x = (if unat ?a \<le> unat x \<and> unat x < unat ?a + 4096 * ?n then Some 0 else uload1 d (km s) x) \<and>
      (unat ?a \<le> unat x \<and> unat x < unat ?a + 4096 * ?n \<longrightarrow> user_page d (km s') x) \<and> (unat x < unat ?a \<longrightarrow> pent d (km s') x = pent d (km s) x)"
    using allocuvm_loop_ok [OF refl assms(4) PGROUND_aligned(1) assms(5,1,2,6)] by blast
  have "unat newsz \<le> unat ?a + 4096 * ?n"
  proof -
    have "unat newsz - unat ?a \<le> 4096 * ?n" using mult_div_mod_eq [of 4096 "unat newsz - unat ?a + 4095"] mod_less_divisor [of 4096 "unat newsz - unat ?a + 4095"]
      unfolding npages_def by linarith
    then show ?thesis by simp
  qed
  then have "\<forall>x. x < newsz \<longrightarrow> unat x < unat ?a + 4096 * ?n" by (auto simp: word_less_nat_alt)
  moreover have "\<not> KERNBASE \<le> newsz" "\<not> newsz < oldsz" using assms(3,4) by auto
  then have "allocuvm d oldsz newsz s = Inr (newsz, s')" using s'(1) by (simp add: allocuvm_def)
  ultimately show ?thesis using s'(2-4) by (intro exI [of _ s'] exI [of _ ps']) blast
qed

lemma uload_nth: "(\<And>i. i < n \<Longrightarrow> uload1 d m (va + of_nat i) = Some (bs ! i)) \<Longrightarrow> n = length bs \<Longrightarrow> uload d m va n = Some bs"
proof (induction n arbitrary: va bs)
  case (Suc n)
  then obtain c cs where bs: "bs = c # cs" by (cases bs) auto
  have "uload1 d m (va + 1 + of_nat i) = Some (cs ! i)" if "i < n" for i using Suc.prems(1) [of "Suc i"] that bs by (simp add: add.assoc)
  then show ?case using Suc.IH [of "va + 1" cs] Suc.prems(1) [of 0] Suc.prems(2) bs by simp
qed simp

section \<open>Properties\<close>

text \<open>C12. Mapping a page: \<^verbatim>\<open>mappages\<close> panics exactly if the page is mapped already, fails without a change if it needs a page for
  the table and there is none, and otherwise makes the addresses of the page translate to those of the frame. No other
  translation changes, nothing is written but the directory and its tables, and the directory stays well formed.\<close>

theorem mappages_maps:
  fixes s :: "'a kst_scheme"
  assumes "free_pages e s ps" "pgt e d (km s) ps" "va mod PGSIZE = 0" "pa mod PGSIZE = 0" "pm < 4096"
  shows "(pent d (km s) va \<noteq> None \<longrightarrow> mappages d va PGSIZE pa pm s = Inl (Panic ''remap'')) \<and>
    (\<not> present (pde d (km s) va) \<and> ps = [] \<longrightarrow> mappages d va PGSIZE pa pm s = Inr (-1, s)) \<and>
    (pent d (km s) va = None \<and> (present (pde d (km s) va) \<or> ps \<noteq> []) \<longrightarrow>
      (\<exists>s' ps'. mappages d va PGSIZE pa pm s = Inr (0, s') \<and> maps e d va (pa OR pm OR PTE_P) s ps s' ps' \<and>
        (\<forall>k < 4096. va2ka d (km s') (va + of_nat k) = Some (p2v pa + of_nat k))))"
proof (intro conjI impI)
  assume "pent d (km s) va \<noteq> None"
  then obtain f where "pent d (km s) va = Some f" by auto
  from walk_entry [OF assms(2) this, of True] show "mappages d va PGSIZE pa pm s = Inl (Panic ''remap'')"
    by (auto simp: mappages_one [OF assms(3)] mappages_loop.simps)
next
  assume a: "\<not> present (pde d (km s) va) \<and> ps = []"
  then have "kalloc s = (0, s)" using free_pages_alloc(1) [OF assms(1)] by simp
  then show "mappages d va PGSIZE pa pm s = Inr (-1, s)"
    using a by (simp add: mappages_one [OF assms(3)] mappages_loop.simps walkpgdir_def Let_def pde_def present_def)
next
  assume "pent d (km s) va = None \<and> (present (pde d (km s) va) \<or> ps \<noteq> [])"
  then obtain s' ps' where s': "mappages_loop d 0 va pa pm s = Inr (0, s')" "maps e d va (pa OR pm OR PTE_P) s ps s' ps'"
    using mappage [OF assms(1,2) _ refl, of va pa pm] by blast
  have "tab (pa OR pm OR PTE_P) = p2v pa"
    using entry_word(1) [OF assms(4) flags_or [OF assms(5)]] by (simp add: tab_def)
  moreover have "page_of (va + of_nat k) = page_of va" "off (va + of_nat k) = k" if "k < 4096" for k
  proof -
    show e: "page_of (va + of_nat k) = page_of va" using page_of_add [OF assms(3) that] page_of_word(1) [OF assms(3)] by simp
    have "va + of_nat k = va + of_nat (off (va + of_nat k))" using off_split [of "va + of_nat k"] e page_of_word(1) [OF assms(3)] by simp
    then show "off (va + of_nat k) = k" using word32_add_of_nat_eq_iff [of k "off (va + of_nat k)" va] that off_less [of "va + of_nat k"] by simp
  qed
  ultimately have "\<forall>k < 4096. va2ka d (km s') (va + of_nat k) = Some (p2v pa + of_nat k)"
    using s'(2) by (simp add: maps_def va2ka_pent low12)
  then show "\<exists>s' ps'. mappages d va PGSIZE pa pm s = Inr (0, s') \<and> maps e d va (pa OR pm OR PTE_P) s ps s' ps' \<and>
        (\<forall>k < 4096. va2ka d (km s') (va + of_nat k) = Some (p2v pa + of_nat k))"
    using s' by (intro exI [of _ s'] exI [of _ ps']) (simp add: mappages_one [OF assms(3)])
qed


text \<open>C14. What the kernel copies out is what the process reads: if the bytes from \<open>va\<close> on lie in pages the process may use,
  \<^verbatim>\<open>copyout\<close> succeeds, a read of these addresses returns the bytes, every other byte of the process is as before, and the
  free pages and the tables are untouched.\<close>

theorem copyout_readback:
  fixes s :: "'a kst_scheme"
  assumes "aspace e d (km s) ps" "free_pages e s ps" "unat va + length p \<le> 0x80000000"
    "\<forall>x. unat va \<le> unat x \<and> unat x < unat va + length p \<longrightarrow> user_page d (km s) x"
  shows "\<exists>s'. copyout d va p s = Inr (0, s') \<and> free_pages e s' ps \<and> aspace e d (km s') ps \<and> uload d (km s') va (length p) = Some p \<and>
    (\<forall>x < KERNBASE. \<not> (unat va \<le> unat x \<and> unat x < unat va + length p) \<longrightarrow> uload1 d (km s') x = uload1 d (km s) x)"
proof -
  obtain m' where m': "copyout_loop d va p s = Inr (0, s\<lparr>km := m'\<rparr>)" "aspace e d m' ps"
    "\<forall>x < KERNBASE. uload1 d m' x = (if unat va \<le> unat x \<and> unat x < unat va + length p
       then Some (p ! (unat x - unat va)) else uload1 d (km s) x)" "\<forall>v \<in> set ps. \<forall>b. page_of b = v \<longrightarrow> m' b = km s b"
    using copyout_loop_ok [OF assms(1,3,4)] by blast
  have "uload d m' va (length p) = Some p"
    using m'(3) user_range [OF assms(3)] by (intro uload_nth) auto
  moreover have "free_pages e (s\<lparr>km := m'\<rparr>) ps" using m'(4) by (intro free_pages_km [OF assms(2)]) auto
  ultimately show ?thesis using m' by (intro exI [of _ "s\<lparr>km := m'\<rparr>"]) (auto simp: copyout_def)
qed

section \<open>Examples\<close>

lemma page_ok_ex: "page_ok 0x80120000 0x80200000" "page_ok 0x80120000 0x80201000" "page_ok 0x80120000 0x80202000"
  by (simp_all add: page_ok_def v2p_def PGSIZE_def KERNBASE_def PHYSTOP_def)

text \<open>A machine with two free pages and an empty page directory.\<close>

lemma space_ex:
  "\<exists>s :: kst. free_pages 0x80120000 s [0x80202000, 0x80201000] \<and> aspace 0x80120000 0x80200000 (km s) [0x80202000, 0x80201000] \<and>
    (\<forall>x. pent 0x80200000 (km s) x = None) \<and> (\<forall>x. \<not> present (pde 0x80200000 (km s) x))"
proof -
  let ?k = "kst_on (fs_on (\<lambda>_. []) []) Map.empty"
  have 0: "free_pages 0x80120000 ?k []" by (simp add: free_pages_def)
  obtain s1 :: kst where 1: "kfree 0x80201000 ?k = Inr ((), s1)" "free_pages 0x80120000 s1 [0x80201000]"
    using free_pages_free [OF 0 page_ok_ex(2)] by auto
  obtain s :: kst where 2: "kfree 0x80202000 s1 = Inr ((), s)" "free_pages 0x80120000 s [0x80202000, 0x80201000]"
    using free_pages_free [OF 1(2) page_ok_ex(3)] by auto
  have fr: "km s' a = km s0 a" if "kfree v s0 = Inr ((), s')" "page_of a \<noteq> v" for v a and s0 s' :: kst
    using that put32_memset_page [of v a] by (auto simp: kfree_def Let_def split: if_splits)
  have z: "km s a = 0" if "page_of a = 0x80200000" for a
    using fr [OF 2(1), of a] fr [OF 1(1), of a] that by (simp add: kst_on_def fsst.extend_def)
  have "pde 0x80200000 (km s) x = get32 (\<lambda>_. 0) (0x80200000 + 4 * PDX x)" for x
    unfolding pde_def using page_ok_ex(1) by (intro entry_frame [OF _ PX_less(1)] z) (auto simp: page_ok_def)
  then have np: "\<not> present (pde 0x80200000 (km s) x)" for x by (simp add: get32_def present_def)
  then have "pent 0x80200000 (km s) x = None" for x by (simp add: pent_def)
  moreover have "aspace 0x80120000 0x80200000 (km s) [0x80202000, 0x80201000]"
    using np page_ok_ex(1) \<open>\<And>x. pent 0x80200000 (km s) x = None\<close> by (simp add: aspace_def pgt_def)
  ultimately show ?thesis using 2(2) np by blast
qed

lemma npages_ex: "npages (unat (PGROUNDUP 0)) (unat (100 :: u32)) = 1" "unat (PGROUNDUP 0) = 0"
  by (simp_all add: npages_def PGROUNDUP_def PGSIZE_def)

theorem mappages_maps_witness:
  "\<exists>s s' :: kst. mappages 0x80200000 0x3000 PGSIZE 0x300000 6 s = Inr (0, s') \<and>
    va2ka 0x80200000 (km s') (0x3000 + of_nat 5) = Some (p2v 0x300000 + of_nat 5)"
proof -
  obtain s :: kst where s: "free_pages 0x80120000 s [0x80202000, 0x80201000]" "aspace 0x80120000 0x80200000 (km s) [0x80202000, 0x80201000]"
    "pent 0x80200000 (km s) 0x3000 = None" using space_ex by blast
  obtain s' where "mappages 0x80200000 0x3000 PGSIZE 0x300000 6 s = Inr (0, s')"
    "\<forall>k < 4096. va2ka 0x80200000 (km s') (0x3000 + of_nat k) = Some (p2v 0x300000 + of_nat k)"
    using mappages_maps [OF s(1) aspaceD(1) [OF s(2)], of "0x3000" "0x300000" 6] s(3) by (auto simp: PGSIZE_def)
  moreover have "(5 :: nat) < 4096" by simp
  ultimately show ?thesis by blast
qed


theorem copyout_readback_witness:
  "\<exists>s s' :: kst. copyout 0x80200000 10 [1, 2, 3] s = Inr (0, s') \<and> uload 0x80200000 (km s') 10 3 = Some [1, 2, 3]"
proof -
  obtain s0 :: kst where s0: "free_pages 0x80120000 s0 [0x80202000, 0x80201000]" "aspace 0x80120000 0x80200000 (km s0) [0x80202000, 0x80201000]"
    "\<forall>x. pent 0x80200000 (km s0) x = None" using space_ex by blast
  obtain s :: kst and ps where s: "free_pages 0x80120000 s ps" "aspace 0x80120000 0x80200000 (km s) ps"
    "\<forall>x < KERNBASE. x < 100 \<longrightarrow> user_page 0x80200000 (km s) x"
    using allocuvm_ok [OF s0(2,1), of 0 100] s0(3) npages_ex by (auto simp: KERNBASE_def)
  have "user_page 0x80200000 (km s) x" if "unat x < 13" for x
    using s(3) that by (auto simp: KERNBASE_def word_less_nat_alt)
  then obtain s' where "copyout 0x80200000 10 [1, 2, 3] s = Inr (0, s')" "uload 0x80200000 (km s') 10 (length [1, 2, 3 :: u8]) = Some [1, 2, 3]"
    using copyout_readback [OF s(2,1), of 10 "[1, 2, 3]"] by (auto simp del: uload.simps)
  moreover have "length [1, 2, 3 :: u8] = 3" by simp
  ultimately show ?thesis by metis
qed

end
