(* ===== verification/Console.thy ===== *)
theory Console
  imports Pipe
begin

text \<open>
  The console (\<^verbatim>\<open>console.c\<close>), the keyboard (\<^verbatim>\<open>kbd.c\<close>, \<^verbatim>\<open>kbd.h\<close>) and the serial lines (\<^verbatim>\<open>uart.c\<close>): the text
  screen, printing, the editing of an input line and reading from it. The polling of the devices has no effect on the state;
  the locks make every operation atomic. The list of processes that control-P prints is not modelled: the model only
  says that it is asked for.
\<close>

section \<open>State\<close>

text \<open>The screen memory and the cursor register, the switches of the output, and the serial lines with what was sent to them.\<close>

type_synonym u16 = "16 word"

record con = kst +
  crt :: "nat \<Rightarrow> u16"
  cpos :: nat
  sysuart :: bool
  syscons :: bool
  uart :: bool
  uartn :: nat
  uarts :: "inputbuf list"
  uart_out :: "(nat \<times> u8) list"
  kbdshift :: u32
  panicked :: bool

definition BACKSPACE :: int where "BACKSPACE = 0x100"

text \<open>The characters control-D, control-H, control-P and control-U, delete, line feed and carriage return.\<close>

definition C_D :: int where "C_D = 4"
definition C_H :: int where "C_H = 8"
definition C_P :: int where "C_P = 16"
definition C_U :: int where "C_U = 21"
definition C_DEL :: int where "C_DEL = 0x7f"
definition C_NL :: int where "C_NL = 10"
definition C_CR :: int where "C_CR = 13"
definition C_TAB :: int where "C_TAB = 9"

definition u8i :: "int \<Rightarrow> u8" where "u8i c = of_int c"

section \<open>The screen\<close>

definition blank :: u16 where "blank = 0x720"

definition cell :: "int \<Rightarrow> u16" where "cell c = (of_int c AND 0xff) OR 0x700"

text \<open>Moving the rows 1 to 23 up by one, and clearing the rest of the first 24 rows from the cursor on.\<close>

definition scroll :: "nat \<Rightarrow> (nat \<Rightarrow> u16) \<Rightarrow> nat \<Rightarrow> u16" where
  "scroll pos v i = (if pos \<le> i \<and> i < 24 * 80 then 0 else if i < 23 * 80 then v (i + 80) else v i)"

definition cgaputc :: "int \<Rightarrow> 'a con_scheme \<Rightarrow> ('a con_scheme, unit) outcome" where
  "cgaputc c s =
    (let (pos, v) =
       (if c = C_NL then (cpos s + (80 - cpos s mod 80), crt s)
        else if c = C_TAB then (cpos s + 4, crt s)
        else if c = BACKSPACE then (if cpos s > 0 then cpos s - 1 else cpos s, crt s)
        else (cpos s + 1, (crt s)(cpos s := cell c))) in
     if pos > 25 * 80 then Inl (Panic ''pos under/overflow'')
     else let (pos, v) = (if pos div 80 \<ge> 24 then (pos - 80, scroll (pos - 80) v) else (pos, v)) in
       Inr ((), s\<lparr>crt := v(pos := blank), cpos := pos\<rparr>))"

fun cgaprintstr :: "bytes \<Rightarrow> 'a con_scheme \<Rightarrow> ('a con_scheme, unit) outcome" where
  "cgaprintstr [] s = Inr ((), s)"
| "cgaprintstr (c # cs) s = (if c = 0 then Inr ((), s) else bnd (cgaputc (sint c) s) (\<lambda>(_, s). cgaprintstr cs s))"

section \<open>Serial output and the console\<close>

definition uartputc :: "nat \<Rightarrow> int \<Rightarrow> 'a con_scheme \<Rightarrow> 'a con_scheme" where
  "uartputc i c s = (if \<not> uart s then s
     else s\<lparr>uart_out := uart_out s @ [(i, u8i (if c = BACKSPACE then C_H else c))]\<rparr>)"

text \<open>\<^verbatim>\<open>earlyuartputc\<close> writes to the first line without asking whether there is one.\<close>

definition uartputc_sys :: "int \<Rightarrow> 'a con_scheme \<Rightarrow> 'a con_scheme" where
  "uartputc_sys c s = (if uart s then uartputc 0 c s else s\<lparr>uart_out := uart_out s @ [(0, u8i c)]\<rparr>)"

definition consputc :: "int \<Rightarrow> 'a con_scheme \<Rightarrow> ('a con_scheme, unit) outcome" where
  "consputc c s =
    (if panicked s then Inl (Hang ''consputc'') else
     let s = (if sysuart s
              then (if c = BACKSPACE then uartputc_sys 8 (uartputc_sys 32 (uartputc_sys 8 s)) else uartputc_sys c s)
              else s) in
     if syscons s then cgaputc c s else Inr ((), s))"

section \<open>Printing\<close>

text \<open>The digits of a number, least significant first, and what \<^verbatim>\<open>printint\<close> sends to the console.\<close>

function digits :: "nat \<Rightarrow> nat \<Rightarrow> nat list" where
  "digits base x = (if base < 2 then [x] else x mod base # (if x div base = 0 then [] else digits base (x div base)))"
  by pat_completeness auto
termination
proof (relation "measure (\<lambda>(base, x). x)", goal_cases)
  case (2 base x)
  then have "0 < x" by (cases x) auto
  then show ?case using 2 by (simp add: div_less_dividend)
qed simp

declare digits.simps [simp del]

definition digit :: "nat \<Rightarrow> int" where "digit d = (if d < 10 then 48 + int d else 87 + int d)"

definition printint :: "u32 \<Rightarrow> nat \<Rightarrow> bool \<Rightarrow> int list" where
  "printint xx base sign =
    (let neg = (sign \<and> sint xx < 0); x = (if neg then - xx else xx) in
     (if neg then [45] else []) @ rev (map digit (digits base (unat x))))"

text \<open>The arguments of a format: a word, or the bytes a string pointer leads to, none for a null pointer.\<close>

datatype farg = Word u32 | Str "bytes option"

fun cprintf :: "bytes \<Rightarrow> farg list \<Rightarrow> int list option" where
  "cprintf [] args = Some []"
| "cprintf (c # fmt) args =
    (if c = 0 then Some []
     else if c \<noteq> 37 then map_option ((#) (uint c)) (cprintf fmt args)
     else case fmt of [] \<Rightarrow> Some []
     | d # fmt \<Rightarrow>
       if d = 0 then Some []
       else if d = 117 \<or> d = 100 \<or> d = 120 \<or> d = 112
       then (case args of Word w # args \<Rightarrow>
               map_option ((@) (printint w (if d = 117 \<or> d = 100 then 10 else 16) (d = 100))) (cprintf fmt args)
             | _ \<Rightarrow> None)
       else if d = 115
       then (case args of Str t # args \<Rightarrow>
               map_option ((@) (case t of None \<Rightarrow> map (\<lambda>c. int (of_char c)) ''(null)'' | Some t \<Rightarrow> map sint (takeWhile (\<lambda>c. c \<noteq> 0) t)))
                 (cprintf fmt args)
             | _ \<Rightarrow> None)
       else if d = 37 then map_option ((#) 37) (cprintf fmt args)
       else map_option (\<lambda>out. 37 # uint d # out) (cprintf fmt args))"

fun consputs :: "int list \<Rightarrow> 'a con_scheme \<Rightarrow> ('a con_scheme, unit) outcome" where
  "consputs [] s = Inr ((), s)"
| "consputs (c # cs) s = bnd (consputc c s) (\<lambda>(_, s). consputs cs s)"

section \<open>The input line\<close>

text \<open>\<open>iputc\<close> is the function of the line that echoes a character, \<open>ch\<close> the address its readers sleep on.\<close>

function kill_line :: "(int \<Rightarrow> 's \<Rightarrow> ('s, unit) outcome) \<Rightarrow> inputbuf \<Rightarrow> 's \<Rightarrow> ('s, inputbuf) outcome" where
  "kill_line iputc b s =
    (if in_e b \<noteq> in_w b \<and> in_buf b ! (unat (in_e b - 1) mod INPUT_BUF) \<noteq> u8i C_NL
     then bnd (iputc BACKSPACE s) (\<lambda>(_, s). kill_line iputc (b\<lparr>in_e := in_e b - 1\<rparr>) s)
     else Inr (b, s))"
  by pat_completeness auto
termination
proof (relation "measure (\<lambda>(iputc, b, s). unat (in_e b - in_w b))", goal_cases)
  case (2 iputc b s x u v)
  then have "in_e b - in_w b \<noteq> 0" by simp
  then show ?case using unat_minus_one [of "in_e b - in_w b"] by (simp add: algebra_simps unat_gt_0)
qed simp

declare kill_line.simps [simp del]

definition input_char :: "(int \<Rightarrow> 'a pst_scheme \<Rightarrow> ('a pst_scheme, unit) outcome) \<Rightarrow> chan \<Rightarrow> int \<Rightarrow> inputbuf \<Rightarrow> 'a pst_scheme
    \<Rightarrow> ('a pst_scheme, inputbuf) outcome" where
  "input_char iputc ch c b s =
    (if c = C_U then kill_line iputc b s
     else if c = C_H \<or> c = C_DEL
     then if in_e b \<noteq> in_w b then bnd (iputc BACKSPACE s) (\<lambda>(_, s). Inr (b\<lparr>in_e := in_e b - 1\<rparr>, s)) else Inr (b, s)
     else if c \<noteq> 0 \<and> in_e b - in_r b < of_nat INPUT_BUF
     then let c = (if c = C_CR then C_NL else c);
              b = b\<lparr>in_buf := (in_buf b)[unat (in_e b) mod INPUT_BUF := u8i c], in_e := in_e b + 1\<rparr> in
       bnd (iputc c s) (\<lambda>(_, s).
         if c = C_NL \<or> c = C_D \<or> in_e b = in_r b + of_nat INPUT_BUF
         then Inr (b\<lparr>in_w := in_e b\<rparr>, wakeup ch s) else Inr (b, s))
     else Inr (b, s))"

text \<open>The loop of \<^verbatim>\<open>consoleintr\<close> over the characters the device has; the flag says that control-P was among them.\<close>

fun consoleintr :: "(int \<Rightarrow> 'a pst_scheme \<Rightarrow> ('a pst_scheme, unit) outcome) \<Rightarrow> chan \<Rightarrow> int list \<Rightarrow> bool \<Rightarrow> inputbuf \<Rightarrow> 'a pst_scheme
    \<Rightarrow> ('a pst_scheme, bool \<times> inputbuf) outcome" where
  "consoleintr iputc ch [] dump b s = Inr ((dump, b), s)"
| "consoleintr iputc ch (c # cs) dump b s =
    (if c = C_P then consoleintr iputc ch cs True b s
     else bnd (input_char iputc ch c b s) (\<lambda>(b, s). consoleintr iputc ch cs dump b s))"

text \<open>
  The loop of a read: \<open>n\<close> bytes are still wanted, \<open>acc\<close> was read. Where there is nothing to read it stops with what is still
  to be done; a process that sleeps there continues with it.
\<close>

datatype lread = Done bytes | Wait nat bytes

fun line_read :: "nat \<Rightarrow> bytes \<Rightarrow> inputbuf \<Rightarrow> lread \<times> inputbuf" where
  "line_read 0 acc b = (Done acc, b)"
| "line_read (Suc n) acc b =
    (if in_r b = in_w b then (Wait (Suc n) acc, b)
     else let c = in_buf b ! (unat (in_r b) mod INPUT_BUF); b1 = b\<lparr>in_r := in_r b + 1\<rparr> in
       if c = u8i C_D then (Done acc, if acc \<noteq> [] then b else b1)
       else if c = u8i C_NL then (Done (acc @ [c]), b1)
       else line_read n (acc @ [c]) b1)"

definition consoleread :: "nat \<Rightarrow> int \<Rightarrow> int \<Rightarrow> 'a con_scheme \<Rightarrow> ('a con_scheme, int \<times> bytes) outcome" where
  "consoleread ip n off s =
    (let s = iunlock (Some ip) s in
     case line_read (nat n) [] (input s) of
       (Done bs, b) \<Rightarrow> bnd (ilock (Some ip) (s\<lparr>input := b\<rparr>)) (\<lambda>(_, s). Inr ((int (length bs), bs), s))
     | (Wait _ _, b) \<Rightarrow>
         if p_killed (cur s) then bnd (ilock (Some ip) (s\<lparr>input := b\<rparr>)) (\<lambda>(_, s). Inr ((-1, []), s))
         else sleep (ChInput 0) (s\<lparr>input := b\<rparr>))"

fun consolewrite_loop :: "nat \<Rightarrow> bytes \<Rightarrow> 'a con_scheme \<Rightarrow> ('a con_scheme, unit) outcome" where
  "consolewrite_loop ip [] s = Inr ((), s)"
| "consolewrite_loop ip (c # cs) s =
    bnd (if i_minor (inodes s ! ip) = 1 then consputc (uint c) s
         else if i_minor (inodes s ! ip) = 2 then cgaputc (uint c) s
         else Inr ((), s)) (\<lambda>(_, s). consolewrite_loop ip cs s)"

definition consolewrite :: "nat \<Rightarrow> bytes \<Rightarrow> int \<Rightarrow> int \<Rightarrow> 'a con_scheme \<Rightarrow> ('a con_scheme, int) outcome" where
  "consolewrite ip buf n off s =
    bnd (consolewrite_loop ip (take (nat n) buf) (iunlock (Some ip) s)) (\<lambda>(_, s).
    bnd (ilock (Some ip) s) (\<lambda>(_, s). Inr (n, s)))"

section \<open>The serial lines\<close>

text \<open>\<open>i\<close> is the number of the line; its readers sleep on the input buffer \<open>i + 1\<close>, the console's is 0.\<close>

definition uartintr :: "nat \<Rightarrow> int list \<Rightarrow> 'a con_scheme \<Rightarrow> ('a con_scheme, bool) outcome" where
  "uartintr i cs s = (if i \<ge> uartn s then Inr (False, s)
     else bnd (consoleintr (\<lambda>c s. Inr ((), uartputc i c s)) (ChInput (i + 1)) cs False (uarts s ! i) s) (\<lambda>((dump, b), s).
       Inr (dump, s\<lparr>uarts := (uarts s)[i := b]\<rparr>)))"

text \<open>
  \<open>status\<close> is what the line status register reads as. The result says which operations are put into the device table: those
  of a line, those of a missing line, or none.
\<close>

definition uartinit :: "u32 \<Rightarrow> u8 \<Rightarrow> 'a con_scheme \<Rightarrow> ('a con_scheme, bool option) outcome" where
  "uartinit cpuid status s =
    (case cprintf (bytes_of ''cpu%d: driver: starting uart%d'' @ [10]) [Word cpuid, Word (of_nat (uartn s))] of
       None \<Rightarrow> Inl (Fault ''cprintf'')
     | Some out \<Rightarrow> bnd (consputs out s) (\<lambda>(_, s).
         let new = \<not> uart s in
         if status = 0xFF then Inr (if new then Some False else None, s)
         else if uartn s > 1 then Inl (Panic ''uartn > 1'')
         else Inr (if new then Some True else None, s\<lparr>uart := True, uartn := uartn s + 1\<rparr>)))"

definition uart_read :: "nat \<Rightarrow> int \<Rightarrow> int \<Rightarrow> 'a con_scheme \<Rightarrow> ('a con_scheme, int \<times> bytes) outcome" where
  "uart_read ip n off s =
    (let i = nat (i_minor (inodes s ! ip)) in
     if i_minor (inodes s ! ip) < 0 then Inl (Fault ''uart_read: negative line'')
     else if i \<ge> uartn s then Inr ((-1, []), seterr ''the requested device does not exist'' s)
     else let s = iunlock (Some ip) s in
       case line_read (nat n) [] (uarts s ! i) of
         (Done bs, b) \<Rightarrow> bnd (ilock (Some ip) (s\<lparr>uarts := (uarts s)[i := b]\<rparr>)) (\<lambda>(_, s). Inr ((int (length bs), bs), s))
       | (Wait _ _, b) \<Rightarrow>
           if p_killed (cur s) then bnd (ilock (Some ip) (s\<lparr>uarts := (uarts s)[i := b]\<rparr>)) (\<lambda>(_, s). Inr ((-1, []), s))
           else sleep (ChInput (i + 1)) (s\<lparr>uarts := (uarts s)[i := b]\<rparr>))"

definition uart_write :: "nat \<Rightarrow> bytes \<Rightarrow> int \<Rightarrow> int \<Rightarrow> 'a con_scheme \<Rightarrow> ('a con_scheme, int) outcome" where
  "uart_write ip buf n off s =
    (let i = nat (i_minor (inodes s ! ip)) in
     if i_minor (inodes s ! ip) < 0 then Inl (Fault ''uart_write: negative line'')
     else if i \<ge> uartn s then Inr (-1, seterr ''the requested device does not exist'' s)
     else bnd (ilock (Some ip) (fold (\<lambda>c. uartputc i (uint c)) (take (nat n) buf) (iunlock (Some ip) s))) (\<lambda>(_, s). Inr (n, s)))"

definition nouart_read :: "nat \<Rightarrow> int \<Rightarrow> int \<Rightarrow> 'a con_scheme \<Rightarrow> ('a con_scheme, int \<times> bytes) outcome" where
  "nouart_read ip n off s = Inr ((-1, []), seterr ''the requested device does not exist'' s)"

definition nouart_write :: "nat \<Rightarrow> bytes \<Rightarrow> int \<Rightarrow> int \<Rightarrow> 'a con_scheme \<Rightarrow> ('a con_scheme, int) outcome" where
  "nouart_write ip buf n off s = Inr (-1, seterr ''the requested device does not exist'' s)"

section \<open>The keyboard\<close>

text \<open>A table of 256 codes: its first entries, then those with an index of their own; the others are 0.\<close>

definition keymap :: "u8 list \<Rightarrow> (nat \<times> u8) list \<Rightarrow> u8 list" where
  "keymap ks rest = fold (\<lambda>(i, c) t. t[i := c]) rest (ks @ replicate (256 - length ks) 0)"

definition SHIFT :: u32 where "SHIFT = 1"
definition CTL :: u32 where "CTL = 2"
definition CAPSLOCK :: u32 where "CAPSLOCK = 8"
definition E0ESC :: u32 where "E0ESC = 64"

definition shiftcode :: "u8 list" where
  "shiftcode = keymap [] [(0x1D, 2), (0x2A, 1), (0x36, 1), (0x38, 4), (0x9D, 2), (0xB8, 4)]"

definition togglecode :: "u8 list" where
  "togglecode = keymap [] [(0x3A, 8), (0x45, 16), (0x46, 32)]"

definition normalmap :: "u8 list" where
  "normalmap = keymap
    [0, 27, 49, 50, 51, 52, 53, 54, 55, 56, 57, 48, 45, 61, 8, 9, 113, 119, 101, 114, 116, 121, 117, 105, 111, 112,
     91, 93, 10, 0, 97, 115, 100, 102, 103, 104, 106, 107, 108, 59, 39, 96, 0, 92, 122, 120, 99, 118, 98, 110, 109,
     44, 46, 47, 0, 42, 0, 32, 0, 0, 0, 0, 0, 0, 0, 0, 0, 0, 0, 0, 0, 55, 56, 57, 45, 52, 53, 54, 43, 49, 50, 51,
     48, 46, 0, 0, 0, 0]
    [(0x9c, 0xa), (0xb5, 0x2f), (0xc8, 0xe2), (0xd0, 0xe3), (0xc9, 0xe6), (0xd1, 0xe7), (0xcb, 0xe4),
     (0xcd, 0xe5), (0x97, 0xe0), (0xcf, 0xe1), (0xd2, 0xe8), (0xd3, 0xe9)]"

definition shiftmap :: "u8 list" where
  "shiftmap = keymap
    [0, 27, 33, 64, 35, 36, 37, 94, 38, 42, 40, 41, 95, 43, 8, 9, 81, 87, 69, 82, 84, 89, 85, 73, 79, 80, 123, 125,
     10, 0, 65, 83, 68, 70, 71, 72, 74, 75, 76, 58, 34, 126, 0, 124, 90, 88, 67, 86, 66, 78, 77, 60, 62, 63, 0, 42,
     0, 32, 0, 0, 0, 0, 0, 0, 0, 0, 0, 0, 0, 0, 0, 55, 56, 57, 45, 52, 53, 54, 43, 49, 50, 51, 48, 46, 0, 0, 0, 0]
    [(0x9c, 0xa), (0xb5, 0x2f), (0xc8, 0xe2), (0xd0, 0xe3), (0xc9, 0xe6), (0xd1, 0xe7), (0xcb, 0xe4),
     (0xcd, 0xe5), (0x97, 0xe0), (0xcf, 0xe1), (0xd2, 0xe8), (0xd3, 0xe9)]"

definition ctlmap :: "u8 list" where
  "ctlmap = keymap
    [0, 0, 0, 0, 0, 0, 0, 0, 0, 0, 0, 0, 0, 0, 0, 0, 17, 23, 5, 18, 20, 25, 21, 9, 15, 16, 0, 0, 13, 0, 1, 19, 4,
     6, 7, 8, 10, 11, 12, 0, 0, 0, 0, 28, 26, 24, 3, 22, 2, 14, 13, 0, 0, 239, 0, 0]
    [(0x9c, 0xd), (0xb5, 0xef), (0xc8, 0xe2), (0xd0, 0xe3), (0xc9, 0xe6), (0xd1, 0xe7), (0xcb, 0xe4),
     (0xcd, 0xe5), (0x97, 0xe0), (0xcf, 0xe1), (0xd2, 0xe8), (0xd3, 0xe9)]"

text \<open>What \<^verbatim>\<open>kbdgetc\<close> makes of a code the controller has, and the new state of the shift keys.\<close>

definition kbdgetc :: "u8 \<Rightarrow> u32 \<Rightarrow> int \<times> u32" where
  "kbdgetc data shift =
    (if data = 0xE0 then (0, shift OR E0ESC)
     else if data AND 0x80 \<noteq> 0
     then let data = (if shift AND E0ESC \<noteq> 0 then data else data AND 0x7F) in
       (0, shift AND NOT (ucast (shiftcode ! unat data) OR E0ESC))
     else let (data, shift) = (if shift AND E0ESC \<noteq> 0 then (data OR 0x80, shift AND NOT E0ESC) else (data, shift));
              shift = (shift OR ucast (shiftcode ! unat data)) XOR ucast (togglecode ! unat data);
              c = ([normalmap, shiftmap, ctlmap, ctlmap] ! unat (shift AND (CTL OR SHIFT))) ! unat data in
       (uint (if shift AND CAPSLOCK \<noteq> 0
              then (if 97 \<le> c \<and> c \<le> 122 then c - 32 else if 65 \<le> c \<and> c \<le> 90 then c + 32 else c) else c), shift))"

fun kbd_chars :: "u8 list \<Rightarrow> u32 \<Rightarrow> int list \<times> u32" where
  "kbd_chars [] shift = ([], shift)"
| "kbd_chars (d # ds) shift = (let (c, shift) = kbdgetc d shift; (cs, shift) = kbd_chars ds shift in (c # cs, shift))"

definition kbdintr :: "u8 list \<Rightarrow> 'a con_scheme \<Rightarrow> ('a con_scheme, bool) outcome" where
  "kbdintr ds s = (let (cs, shift) = kbd_chars ds (kbdshift s) in
     bnd (consoleintr cgaputc (ChInput 0) cs False (input s) (s\<lparr>kbdshift := shift\<rparr>)) (\<lambda>((dump, b), s).
       Inr (dump, s\<lparr>input := b\<rparr>)))"

section \<open>The screen never overflows\<close>

text \<open>The kernel has not panicked, and the cursor is in the first 24 rows, on a blank cell.\<close>

definition screen_ok :: "'a con_scheme \<Rightarrow> bool" where
  "screen_ok s \<longleftrightarrow> \<not> panicked s \<and> cpos s < 24 * 80 \<and> crt s (cpos s) = blank"

lemma cgaputc_ok:
  assumes "screen_ok s"
  shows "\<exists>s'. cgaputc c s = Inr ((), s') \<and> screen_ok s' \<and> s' = s\<lparr>crt := crt s', cpos := cpos s'\<rparr>"
proof -
  have np: "\<not> panicked s" using assms by (simp add: screen_ok_def)
  have p: "cpos s < 1920" using assms by (simp add: screen_ok_def)
  have m: "cpos s mod 80 < 80" by simp
  obtain pos v where pv: "(if c = C_NL then (cpos s + (80 - cpos s mod 80), crt s)
        else if c = C_TAB then (cpos s + 4, crt s)
        else if c = BACKSPACE then (if cpos s > 0 then cpos s - 1 else cpos s, crt s)
        else (cpos s + 1, (crt s)(cpos s := cell c))) = (pos, v)" (is "?x = _") by (cases ?x) auto
  have nl: "cpos s + (80 - cpos s mod 80) \<le> 1920"
  proof -
    have "cpos s div 80 < 24" using p by (simp add: less_mult_imp_div_less)
    then have "80 * (cpos s div 80) \<le> 1840" by simp
    then show ?thesis using mult_div_mod_eq [of 80 "cpos s"] m by linarith
  qed
  have "pos \<le> 1923" using pv p nl by (auto split: if_splits)
  then have "(pos div 80 \<ge> 24 \<longrightarrow> pos - 80 < 1920) \<and> (\<not> pos div 80 \<ge> 24 \<longrightarrow> pos < 1920)"
    using mult_div_mod_eq [of 80 pos] mod_less_divisor [of 80 pos] by auto
  then show ?thesis using np pv \<open>pos \<le> 1923\<close> by (auto simp: cgaputc_def screen_ok_def Let_def)
qed

lemma uartputc_screen [simp]: "screen_ok (uartputc i c s) = screen_ok s" "screen_ok (uartputc_sys c s) = screen_ok s"
  by (simp_all add: uartputc_def uartputc_sys_def screen_ok_def)

lemma consputc_ok:
  assumes "screen_ok s"
  shows "\<exists>s'. consputc c s = Inr ((), s') \<and> screen_ok s'"
proof -
  have "\<not> panicked s" using assms by (simp add: screen_ok_def)
  then show ?thesis using cgaputc_ok [of "uartputc_sys c s" c] cgaputc_ok [of "uartputc_sys 8 (uartputc_sys 32 (uartputc_sys 8 s))" c] cgaputc_ok [OF assms, of c] assms
    unfolding consputc_def Let_def by auto
qed

lemma consputs_ok: "screen_ok s \<Longrightarrow> \<exists>s'. consputs cs s = Inr ((), s') \<and> screen_ok s'"
proof (induction cs arbitrary: s)
  case (Cons c cs)
  obtain s1 where "consputc c s = Inr ((), s1)" "screen_ok s1" using consputc_ok [OF Cons.prems] by blast
  then show ?case using Cons.IH by simp
qed simp

lemma consolewrite_loop_ok: "screen_ok s \<Longrightarrow> \<exists>s'. consolewrite_loop ip cs s = Inr ((), s') \<and> screen_ok s'"
proof (induction cs arbitrary: s)
  case (Cons c cs)
  have "\<exists>s1. (if i_minor (inodes s ! ip) = 1 then consputc (uint c) s
         else if i_minor (inodes s ! ip) = 2 then cgaputc (uint c) s else Inr ((), s)) = Inr ((), s1) \<and> screen_ok s1"
    using consputc_ok [OF Cons.prems] cgaputc_ok [OF Cons.prems] Cons.prems by auto
  then show ?case using Cons.IH by auto
qed simp

section \<open>Numbers\<close>

definition undigit :: "int \<Rightarrow> nat" where "undigit c = (if c < 58 then nat (c - 48) else nat (c - 87))"

definition value_of :: "nat \<Rightarrow> int list \<Rightarrow> nat" where
  "value_of base cs = foldl (\<lambda>v c. v * base + undigit c) 0 cs"

lemma undigit_digit: "d < 16 \<Longrightarrow> undigit (digit d) = d"
  by (auto simp: undigit_def digit_def)

lemma value_snoc: "value_of base (cs @ [c]) = value_of base cs * base + undigit c"
  by (simp add: value_of_def)

lemma digits_value:
  assumes "2 \<le> base" "base \<le> 16"
  shows "value_of base (rev (map digit (digits base x))) = x"
proof (induction x rule: less_induct)
  case (less x)
  have d: "undigit (digit (x mod base)) = x mod base" using assms by (intro undigit_digit) (simp add: less_le_trans [OF mod_less_divisor])
  show ?case
  proof (cases "x div base = 0")
    case True
    then have "digits base x = [x mod base]" using assms by (subst digits.simps) simp
    then show ?thesis using d True mult_div_mod_eq [of base x] by (simp add: value_of_def)
  next
    case False
    then have "0 < x" by (cases x) auto
    then have "x div base < x" using assms by (simp add: div_less_dividend)
    moreover have "digits base x = x mod base # digits base (x div base)" using assms False by (subst digits.simps) simp
    ultimately show ?thesis using less.IH d by (simp add: value_snoc)
  qed
qed

lemma uint_neg: "uint (- xx :: u32) = (- sint xx) mod 2 ^ 32"
proof -
  have e: "- xx = word_of_int (- sint xx)" by simp
  have "uint (word_of_int (- sint xx) :: u32) = (- sint xx) mod 2 ^ LENGTH(32)" by (rule uint_word_of_int)
  then show ?thesis unfolding e [symmetric] by simp
qed

lemma digits_less: "2 \<le> base \<Longrightarrow> x < base ^ Suc n \<Longrightarrow> length (digits base x) \<le> Suc n"
proof (induction n arbitrary: x)
  case 0
  then show ?case by (subst digits.simps) simp
next
  case (Suc n)
  have "x div base < base ^ Suc n" using Suc.prems by (simp add: less_mult_imp_div_less mult.commute)
  then show ?case using Suc by (subst digits.simps) simp
qed

section \<open>The line editor\<close>

text \<open>
  What the ring buffer implements: the bytes committed for reading, and the line being edited. A line end, control-D and a
  full buffer commit the line; control-U forgets it and backspace its last byte.
\<close>

definition edit1 :: "int \<Rightarrow> bytes \<times> bytes \<Rightarrow> bytes \<times> bytes" where
  "edit1 c = (\<lambda>(cm, ed).
    if c = C_P then (cm, ed)
    else if c = C_U then (cm, [])
    else if c = C_H \<or> c = C_DEL then (cm, butlast ed)
    else if c \<noteq> 0 \<and> length cm + length ed < INPUT_BUF
    then let c = (if c = C_CR then C_NL else c); ed = ed @ [u8i c] in
      if c = C_NL \<or> c = C_D \<or> length cm + length ed = INPUT_BUF then (cm @ ed, []) else (cm, ed)
    else (cm, ed))"

fun take_line :: "nat \<Rightarrow> bytes \<Rightarrow> bytes \<Rightarrow> lread \<times> bytes" where
  "take_line 0 acc cm = (Done acc, cm)"
| "take_line (Suc n) acc [] = (Wait (Suc n) acc, [])"
| "take_line (Suc n) acc (c # cm) =
    (if c = u8i C_D then (Done acc, if acc \<noteq> [] then c # cm else cm)
     else if c = u8i C_NL then (Done (acc @ [c]), cm)
     else take_line n (acc @ [c]) cm)"

definition seg :: "bytes \<Rightarrow> u32 \<Rightarrow> nat \<Rightarrow> bytes" where
  "seg buf a n = map (\<lambda>i. buf ! (unat (a + of_nat i) mod INPUT_BUF)) [0..<n]"

definition line_rep :: "inputbuf \<Rightarrow> bytes \<Rightarrow> bytes \<Rightarrow> bool" where
  "line_rep b cm ed \<longleftrightarrow> length (in_buf b) = INPUT_BUF \<and> length cm + length ed \<le> INPUT_BUF \<and>
    in_w b = in_r b + of_nat (length cm) \<and> in_e b = in_w b + of_nat (length ed) \<and>
    cm @ ed = seg (in_buf b) (in_r b) (length cm + length ed) \<and> u8i C_NL \<notin> set ed"

lemma seg_Suc: "seg buf a (Suc n) = seg buf a n @ [buf ! (unat (a + of_nat n) mod INPUT_BUF)]"
  by (simp add: seg_def)

lemma seg_Cons: "seg buf a (Suc n) = buf ! (unat a mod INPUT_BUF) # seg buf (a + 1) n"
  by (simp add: seg_def upt_conv_Cons map_Suc_upt [symmetric] add.assoc del: upt_Suc)

lemma seg_length [simp]: "length (seg buf a n) = n" by (simp add: seg_def)

lemma ring_index: "unat ((a :: u32) + of_nat i) mod INPUT_BUF = (unat a + i) mod INPUT_BUF"
proof -
  have "unat (a + of_nat i) = (unat a + i) mod 2 ^ 32"
    by (simp add: unat_word_ariths unat_of_nat mod_add_right_eq)
  moreover have "(x mod 2 ^ 32) mod INPUT_BUF = x mod INPUT_BUF" for x :: nat
    by (rule mod_mod_cancel) (simp add: INPUT_BUF_def)
  ultimately show ?thesis by simp
qed

lemma seg_update:
  assumes "n < INPUT_BUF"
  shows "seg (buf[unat (a + of_nat n) mod INPUT_BUF := c]) a n = seg buf a n"
  unfolding seg_def
proof (intro map_cong refl nth_list_update_neq)
  fix i
  assume "i \<in> set [0..<n]"
  then have i: "i < n" by simp
  show "unat (a + of_nat n) mod INPUT_BUF \<noteq> unat (a + of_nat i) mod INPUT_BUF"
  proof
    assume "unat (a + of_nat n) mod INPUT_BUF = unat (a + of_nat i) mod INPUT_BUF"
    then have "(unat a + n) mod INPUT_BUF = (unat a + i) mod INPUT_BUF" unfolding ring_index .
    then have "INPUT_BUF dvd n - i" using i mod_eq_dvd_iff_nat [of "unat a + i" "unat a + n" INPUT_BUF] by simp
    then show False using assms i dvd_imp_le [of INPUT_BUF "n - i"] by simp
  qed
qed

lemma small_word: "n \<le> INPUT_BUF \<Longrightarrow> unat (of_nat n :: u32) = n" by (simp add: unat_of_nat INPUT_BUF_def)

lemma line_repD:
  assumes "line_rep b cm ed"
  shows "in_e b - in_r b = of_nat (length cm + length ed)" "in_e b = in_r b + of_nat (length cm + length ed)"
    "in_e b = in_w b \<longleftrightarrow> ed = []" "in_r b = in_w b \<longleftrightarrow> cm = []"
    "in_e b - in_r b < of_nat INPUT_BUF \<longleftrightarrow> length cm + length ed < INPUT_BUF"
proof -
  have l: "length cm + length ed \<le> INPUT_BUF" "length ed \<le> INPUT_BUF" "length cm \<le> INPUT_BUF" using assms by (auto simp: line_rep_def)
  have z: "(of_nat n :: u32) = 0 \<longleftrightarrow> n = 0" if "n \<le> INPUT_BUF" for n using small_word [OF that] by (auto simp: word_unat_eq_iff)
  show "in_e b - in_r b = of_nat (length cm + length ed)" "in_e b = in_r b + of_nat (length cm + length ed)"
    using assms by (auto simp: line_rep_def)
  then show "in_e b - in_r b < of_nat INPUT_BUF \<longleftrightarrow> length cm + length ed < INPUT_BUF"
    using small_word [OF l(1)] small_word [of INPUT_BUF] by (simp add: word_less_nat_alt)
  show "in_e b = in_w b \<longleftrightarrow> ed = []" "in_r b = in_w b \<longleftrightarrow> cm = []"
    using assms z [OF l(2)] z [OF l(3)] by (auto simp: line_rep_def)
qed

lemma line_back:
  assumes "line_rep b cm ed" "ed \<noteq> []"
  shows "line_rep (b\<lparr>in_e := in_e b - 1\<rparr>) cm (butlast ed)" "in_buf b ! (unat (in_e b - 1) mod INPUT_BUF) = List.last ed"
proof -
  obtain x xs where ed: "ed = xs @ [x]" using assms(2) by (cases ed rule: rev_cases) auto
  have "cm @ xs @ [x] = seg (in_buf b) (in_r b) (Suc (length cm + length xs))" using assms(1) ed by (simp add: line_rep_def)
  then have s: "cm @ xs = seg (in_buf b) (in_r b) (length cm + length xs)"
    "x = in_buf b ! (unat (in_r b + of_nat (length cm + length xs)) mod INPUT_BUF)"
    unfolding seg_Suc using append_eq_append_conv [of "cm @ xs" "seg (in_buf b) (in_r b) (length cm + length xs)"] by auto
  have e: "in_e b - 1 = in_r b + of_nat (length cm + length xs)" using line_repD(2) [OF assms(1)] ed by simp
  show "line_rep (b\<lparr>in_e := in_e b - 1\<rparr>) cm (butlast ed)" using assms(1) ed s(1) e by (auto simp: line_rep_def)
  show "in_buf b ! (unat (in_e b - 1) mod INPUT_BUF) = List.last ed" using e s(2) ed by simp
qed

lemma line_push:
  assumes r: "line_rep b cm ed" and l: "length cm + length ed < INPUT_BUF"
    and b': "b' = b\<lparr>in_buf := (in_buf b)[unat (in_e b) mod INPUT_BUF := x], in_e := in_e b + 1\<rparr>"
  shows "x \<noteq> u8i C_NL \<Longrightarrow> line_rep b' cm (ed @ [x])" "line_rep (b'\<lparr>in_w := in_e b'\<rparr>) (cm @ ed @ [x]) []"
    "in_e b' = in_r b' + of_nat INPUT_BUF \<longleftrightarrow> length cm + length ed + 1 = INPUT_BUF"
proof -
  let ?n = "length cm + length ed"
  have e: "in_e b = in_r b + of_nat ?n" using line_repD(2) [OF r] .
  have len: "length (in_buf b) = INPUT_BUF" using r by (simp add: line_rep_def)
  have "seg (in_buf b') (in_r b) (Suc ?n) = seg (in_buf b) (in_r b) ?n @ [x]"
    unfolding seg_Suc using seg_update [OF l, of "in_buf b" "in_r b" x] len by (simp add: b' e INPUT_BUF_def)
  then have s: "cm @ ed @ [x] = seg (in_buf b') (in_r b) (Suc ?n)" using r by (simp add: line_rep_def)
  show "line_rep b' cm (ed @ [x])" if "x \<noteq> u8i C_NL" using r s l that by (auto simp: line_rep_def b' add.assoc)
  show "line_rep (b'\<lparr>in_w := in_e b'\<rparr>) (cm @ ed @ [x]) []" using r s l by (auto simp: line_rep_def b' add.assoc add.commute)
  have "in_e b' = in_r b' + of_nat (Suc ?n)" using e by (simp add: b' add.assoc add.commute)
  then show "in_e b' = in_r b' + of_nat INPUT_BUF \<longleftrightarrow> ?n + 1 = INPUT_BUF"
    using word32_add_of_nat_eq_iff [of "Suc ?n" INPUT_BUF "in_r b'"] l by (simp add: INPUT_BUF_def)
qed

lemma kill_line_ok:
  assumes "line_rep b cm ed" "\<forall>s. \<exists>s'. iputc BACKSPACE s = Inr ((), s')"
  shows "\<exists>b' s'. kill_line iputc b s = Inr (b', s') \<and> line_rep b' cm []"
  using assms(1)
proof (induction "length ed" arbitrary: b ed s)
  case 0
  then have "in_e b = in_w b" using line_repD(3) by auto
  then show ?case using 0 by (subst kill_line.simps) simp
next
  case (Suc n)
  then have ne: "ed \<noteq> []" by auto
  note B = line_back [OF Suc.prems ne]
  have "List.last ed \<noteq> u8i C_NL" using last_in_set [OF ne] Suc.prems by (auto simp: line_rep_def)
  then have go: "in_e b \<noteq> in_w b \<and> in_buf b ! (unat (in_e b - 1) mod INPUT_BUF) \<noteq> u8i C_NL" using B(2) line_repD(3) [OF Suc.prems] ne by simp
  obtain s1 where s1: "iputc BACKSPACE s = Inr ((), s1)" using assms(2) by blast
  obtain b' s' where "kill_line iputc (b\<lparr>in_e := in_e b - 1\<rparr>) s1 = Inr (b', s')" "line_rep b' cm []"
    using Suc.hyps(1) [OF _ B(1)] Suc.hyps(2) by fastforce
  then show ?case using go s1 by (subst kill_line.simps) simp
qed

lemma u8i_NL: "0 \<le> c \<Longrightarrow> c < 256 \<Longrightarrow> u8i c = u8i C_NL \<longleftrightarrow> c = C_NL"
proof -
  assume c: "0 \<le> c" "c < 256"
  then have "uint (u8i c) = c" by (simp add: u8i_def uint_word_of_int)
  then show ?thesis by (auto simp: u8i_def C_NL_def)
qed

lemma input_char_ok:
  assumes r: "line_rep b cm ed" and io: "\<forall>c s. \<exists>s'. iputc c s = Inr ((), s')" and c: "0 \<le> c" "c < 256" "c \<noteq> C_P"
  shows "\<exists>b' s'. input_char iputc ch c b s = Inr (b', s') \<and> line_rep b' (fst (edit1 c (cm, ed))) (snd (edit1 c (cm, ed)))"
proof -
  consider "c = C_U" | "c = C_H \<or> c = C_DEL" "c \<noteq> C_U" | "c \<noteq> C_U" "c \<noteq> C_H" "c \<noteq> C_DEL" by blast
  then show ?thesis
  proof cases
    case 1
    then show ?thesis using kill_line_ok [OF r, of iputc] io c(3) by (simp add: input_char_def edit1_def)
  next
    case 2
    obtain s1 where "iputc BACKSPACE s = Inr ((), s1)" using io by blast
    then show ?thesis using 2 c(3) line_back(1) [OF r] line_repD(3) [OF r] r
      by (cases "ed = []") (auto simp: input_char_def edit1_def)
  next
    case 3
    show ?thesis
    proof (cases "c \<noteq> 0 \<and> length cm + length ed < INPUT_BUF")
      case False
      then show ?thesis using 3 c(3) r line_repD(5) [OF r] by (auto simp: input_char_def edit1_def)
    next
      case True
      define d where "d = (if c = C_CR then C_NL else c)"
      define b1 where "b1 = b\<lparr>in_buf := (in_buf b)[unat (in_e b) mod INPUT_BUF := u8i d], in_e := in_e b + 1\<rparr>"
      note P = line_push [OF r conjunct2 [OF True] b1_def]
      obtain s1 where s1: "iputc d s = Inr ((), s1)" using io by blast
      have d: "u8i d = u8i C_NL \<longleftrightarrow> d = C_NL" using u8i_NL [of d] c by (auto simp: d_def C_NL_def)
      have "input_char iputc ch c b s = (if d = C_NL \<or> d = C_D \<or> in_e b1 = in_r b1 + of_nat INPUT_BUF
          then Inr (b1\<lparr>in_w := in_e b1\<rparr>, wakeup ch s1) else Inr (b1, s1))"
        using 3 True line_repD(5) [OF r] s1 by (simp add: input_char_def Let_def d_def [symmetric] b1_def)
      moreover have "edit1 c (cm, ed) = (if d = C_NL \<or> d = C_D \<or> length cm + length ed + 1 = INPUT_BUF then (cm @ ed @ [u8i d], []) else (cm, ed @ [u8i d]))"
        using 3 True c(3) by (simp add: edit1_def Let_def d_def)
      ultimately show ?thesis using P d by auto
    qed
  qed
qed

lemma consoleintr_ok:
  assumes "line_rep b cm ed" "\<forall>c s. \<exists>s'. iputc c s = Inr ((), s')" "\<forall>c \<in> set cs. 0 \<le> c \<and> c < 256"
  shows "\<exists>dump' b' s'. consoleintr iputc ch cs dump b s = Inr ((dump', b'), s') \<and>
    line_rep b' (fst (fold edit1 cs (cm, ed))) (snd (fold edit1 cs (cm, ed)))"
  using assms(1,3)
proof (induction cs arbitrary: b cm ed dump s)
  case (Cons c cs)
  obtain cm1 ed1 where e: "edit1 c (cm, ed) = (cm1, ed1)" by (cases "edit1 c (cm, ed)")
  show ?case
  proof (cases "c = C_P")
    case True
    then have "edit1 c (cm, ed) = (cm, ed)" by (simp add: edit1_def)
    then show ?thesis using Cons.IH [OF Cons.prems(1), of True s] Cons.prems(2) True by simp
  next
    case False
    have c: "0 \<le> c" "c < 256" using Cons.prems(2) by auto
    obtain b1 s1 where b1: "input_char iputc ch c b s = Inr (b1, s1)" "line_rep b1 cm1 ed1"
      using input_char_ok [OF Cons.prems(1) assms(2) c False, of ch s] e by auto
    then show ?thesis using Cons.IH [OF b1(2), of dump s1] Cons.prems(2) False e by simp
  qed
qed simp

lemma line_pop:
  assumes "line_rep b (c # cm) ed"
  shows "in_buf b ! (unat (in_r b) mod INPUT_BUF) = c" "line_rep (b\<lparr>in_r := in_r b + 1\<rparr>) cm ed"
proof -
  have "c # cm @ ed = seg (in_buf b) (in_r b) (Suc (length cm + length ed))" using assms by (simp add: line_rep_def)
  then show "in_buf b ! (unat (in_r b) mod INPUT_BUF) = c" "line_rep (b\<lparr>in_r := in_r b + 1\<rparr>) cm ed"
    using assms unfolding seg_Cons by (simp_all add: line_rep_def add.assoc)
qed

lemma line_read_ok:
  assumes "line_rep b cm ed"
  shows "\<exists>b' cm'. line_read n acc b = (fst (take_line n acc cm), b') \<and> cm' = snd (take_line n acc cm) \<and> line_rep b' cm' ed"
  using assms
proof (induction n acc cm arbitrary: b rule: take_line.induct)
  case (2 n acc)
  then show ?case using line_repD(4) [OF 2] by simp
next
  case (3 n acc c cm)
  then have "in_r b \<noteq> in_w b" using line_repD(4) by auto
  then show ?case using line_pop [OF "3.prems"] "3.IH" "3.prems" by (auto simp: Let_def)
qed simp

section \<open>Properties\<close>


definition line_ex :: inputbuf where
  "line_ex = \<lparr>in_buf = replicate 128 0, in_r = 0xFFFFFFFE, in_w = 0xFFFFFFFE, in_e = 0xFFFFFFFE\<rparr>"


text \<open>C25. Output to the console always returns and never leaves the screen: as long as the kernel has not panicked, with the cursor in the
  first 24 rows, on a blank cell, writing any characters to the console, by the kernel or through the device, never panics, and the cursor is in the
  first 24 rows and on a blank cell again.\<close>

theorem console_output_ok:
  assumes "screen_ok s"
  shows "(\<exists>s'. consputs cs s = Inr ((), s') \<and> screen_ok s') \<and> (\<exists>s'. consolewrite_loop ip bs s = Inr ((), s') \<and> screen_ok s')"
  using consputs_ok [OF assms] consolewrite_loop_ok [OF assms] by blast

definition con_ex :: con where
  "con_ex = kst.extend (kst_on (fs_on (\<lambda>_. []) []) Map.empty) \<lparr>crt = \<lambda>_. blank, cpos = 1919, sysuart = False, syscons = True, uart = False,
     uartn = 0, uarts = [], uart_out = [], kbdshift = 0, panicked = False\<rparr>"

theorem console_output_ok_witness: "\<exists>s'. consputs [104, 10] con_ex = Inr ((), s') \<and> screen_ok s'"
proof -
  have "screen_ok con_ex" by (simp add: screen_ok_def con_ex_def kst.extend_def)
  then show ?thesis using console_output_ok by blast
qed

text \<open>C26. Printed numbers read back: what \<^verbatim>\<open>printint\<close> prints for a word in base 10 or 16 are the digits of its value, after a
  minus sign for a negative number printed as signed, and always fits its buffer of 16 characters.\<close>

theorem printint_reads_back:
  assumes "base = 10 \<or> base = 16"
  shows "(\<exists>ds. printint xx base sign = (if sign \<and> sint xx < 0 then [45] else []) @ ds \<and>
      int (value_of base ds) = (if sign \<and> sint xx < 0 then - sint xx else uint xx) \<and> ds \<noteq> []) \<and>
    length (printint xx base sign) \<le> 16"
proof -
  have b: "2 \<le> base" "base \<le> 16" using assms by auto
  define x where "x = (if sign \<and> sint xx < 0 then - xx else xx)"
  let ?ds = "rev (map digit (digits base (unat x)))"
  have "int (unat x) = (if sign \<and> sint xx < 0 then - sint xx else uint xx)"
  proof (cases "sign \<and> sint xx < 0")
    case True
    have "uint (- xx) = (- sint xx) mod 2 ^ 32" by (rule uint_neg)
    moreover have "- sint xx \<le> 2 ^ 31" using sint_greater_eq [of xx] by simp
    ultimately show ?thesis using True by (simp add: x_def)
  qed (auto simp: x_def)
  then have v: "int (value_of base ?ds) = (if sign \<and> sint xx < 0 then - sint xx else uint xx)" using digits_value [OF b] by simp
  have "unat x < 2 ^ 32" using unsigned_less [of x] by simp
  also have "(2 :: nat) ^ 32 \<le> base ^ Suc 9" using assms by (elim disjE) simp_all
  finally have "length (digits base (unat x)) \<le> Suc 9" by (rule digits_less [OF b(1)])
  moreover have "?ds \<noteq> []" by (subst digits.simps) simp
  ultimately show ?thesis using v by (auto simp: printint_def Let_def x_def [symmetric])
qed

theorem printint_reads_back_witness: "\<exists>ds. printint (- 42) 10 True = 45 # ds \<and> value_of 10 ds = 42"
proof -
  have "sint (- 42 :: u32) = - 42" by simp
  then show ?thesis using printint_reads_back [of 10 "- 42" True] by auto
qed

end
