(* ===== verification/Spinlock.thy ===== *)
theory Spinlock
  imports Kalloc
begin

text \<open>
  Spin locks (\<^verbatim>\<open>spinlock.c\<close>) on a machine with several CPUs. The sources' \<^verbatim>\<open>acquire\<close> and \<^verbatim>\<open>release\<close> are cut
  into the steps that are atomic on the hardware, and the CPUs' steps interleave in any order. The field \<open>c_held\<close> is not in
  the sources: it records the locks between whose \<^verbatim>\<open>acquire\<close> and \<^verbatim>\<open>release\<close> the CPU is.
\<close>

section \<open>State\<close>

text \<open>Where a CPU is inside \<^verbatim>\<open>acquire\<close> or \<^verbatim>\<open>release\<close> of a lock.\<close>

datatype lpc = Running | AcqCheck nat | AcqSpin nat | AcqSet nat | RelXchg nat | RelPop | Panicked string

record lock_t =
  lk_locked :: u32
  lk_cpu :: "nat option"

record cpu_t =
  ncli :: int
  intena :: bool
  c_if :: bool
  c_pc :: lpc
  c_held :: "nat list"

record smp =
  cpus :: "cpu_t list"
  locks :: "lock_t list"

definition upd_cpu :: "nat \<Rightarrow> (cpu_t \<Rightarrow> cpu_t) \<Rightarrow> smp \<Rightarrow> smp" where
  "upd_cpu c f s = s\<lparr>cpus := (cpus s)[c := f (cpus s ! c)]\<rparr>"

definition upd_lock :: "nat \<Rightarrow> (lock_t \<Rightarrow> lock_t) \<Rightarrow> smp \<Rightarrow> smp" where
  "upd_lock l f s = s\<lparr>locks := (locks s)[l := f (locks s ! l)]\<rparr>"

definition set_pc :: "nat \<Rightarrow> lpc \<Rightarrow> smp \<Rightarrow> smp" where
  "set_pc c p s = upd_cpu c (\<lambda>x. x\<lparr>c_pc := p\<rparr>) s"

section \<open>Operations\<close>

definition initlock :: "nat \<Rightarrow> smp \<Rightarrow> smp" where
  "initlock l s = upd_lock l (\<lambda>x. x\<lparr>lk_locked := 0, lk_cpu := None\<rparr>) s"

definition holding :: "nat \<Rightarrow> nat \<Rightarrow> smp \<Rightarrow> bool" where
  "holding l c s \<longleftrightarrow> lk_locked (locks s ! l) \<noteq> 0 \<and> lk_cpu (locks s ! l) = Some c"

definition xchg :: "nat \<Rightarrow> u32 \<Rightarrow> smp \<Rightarrow> u32 \<times> smp" where
  "xchg l v s = (lk_locked (locks s ! l), upd_lock l (\<lambda>x. x\<lparr>lk_locked := v\<rparr>) s)"

definition pushcli :: "cpu_t \<Rightarrow> cpu_t" where
  "pushcli x = x\<lparr>c_if := False, ncli := ncli x + 1, intena := (if ncli x = 0 then c_if x else intena x)\<rparr>"

definition popcli :: "cpu_t \<Rightarrow> cpu_t" where
  "popcli x = (if c_if x then x\<lparr>c_pc := Panicked ''popcli - interruptible''\<rparr>
     else let x = x\<lparr>ncli := ncli x - 1\<rparr> in
       if ncli x < 0 then x\<lparr>c_pc := Panicked ''popcli''\<rparr>
       else if ncli x = 0 \<and> intena x then x\<lparr>c_if := True\<rparr> else x)"

text \<open>The steps of \<^verbatim>\<open>acquire(l)\<close> on CPU \<open>c\<close>: disable interrupts, check, spin on the exchange, record the holder.\<close>

definition acquire_start :: "nat \<Rightarrow> nat \<Rightarrow> smp \<Rightarrow> smp" where
  "acquire_start l c s = set_pc c (AcqCheck l) (upd_cpu c pushcli s)"

definition acquire_check :: "nat \<Rightarrow> nat \<Rightarrow> smp \<Rightarrow> smp" where
  "acquire_check l c s = set_pc c (if holding l c s then Panicked ''acquire'' else AcqSpin l) s"

definition acquire_spin :: "nat \<Rightarrow> nat \<Rightarrow> smp \<Rightarrow> smp" where
  "acquire_spin l c s = (let (old, s) = xchg l 1 s in if old \<noteq> 0 then s else set_pc c (AcqSet l) s)"

definition acquire_set :: "nat \<Rightarrow> nat \<Rightarrow> smp \<Rightarrow> smp" where
  "acquire_set l c s = upd_cpu c (\<lambda>x. x\<lparr>c_pc := Running, c_held := l # c_held x\<rparr>) (upd_lock l (\<lambda>x. x\<lparr>lk_cpu := Some c\<rparr>) s)"

text \<open>The steps of \<^verbatim>\<open>release(l)\<close>: check and forget the holder, unlock, restore interrupts.\<close>

definition release_start :: "nat \<Rightarrow> nat \<Rightarrow> smp \<Rightarrow> smp" where
  "release_start l c s = (if \<not> holding l c s then set_pc c (Panicked ''release'') s
     else upd_cpu c (\<lambda>x. x\<lparr>c_pc := RelXchg l, c_held := remove1 l (c_held x)\<rparr>) (upd_lock l (\<lambda>x. x\<lparr>lk_cpu := None\<rparr>) s))"

definition release_xchg :: "nat \<Rightarrow> nat \<Rightarrow> smp \<Rightarrow> smp" where
  "release_xchg l c s = set_pc c RelPop (snd (xchg l 0 s))"

definition release_pop :: "nat \<Rightarrow> smp \<Rightarrow> smp" where
  "release_pop c s = upd_cpu c popcli (set_pc c Running s)"

text \<open>The call stack recorded with a lock, from the chain of saved frame pointers in memory.\<close>

fun callerpcs :: "mem \<Rightarrow> nat \<Rightarrow> u32 \<Rightarrow> u32 list" where
  "callerpcs m 0 ebp = []"
| "callerpcs m (Suc n) ebp = (if ebp = 0 \<or> ebp < KERNBASE \<or> ebp = 0xffffffff then replicate (Suc n) 0
     else get32 m (ebp + 4) # callerpcs m n (get32 m ebp))"

definition getcallerpcs :: "mem \<Rightarrow> u32 \<Rightarrow> u32 list" where
  "getcallerpcs m v = callerpcs m 10 (v - 8)"

section \<open>Interleavings\<close>

text \<open>One step of any CPU. Code that runs on a CPU may begin to acquire or release any lock.\<close>

inductive smp_step :: "smp \<Rightarrow> smp \<Rightarrow> bool" where
  acq: "c < length (cpus s) \<Longrightarrow> l < length (locks s) \<Longrightarrow> c_pc (cpus s ! c) = Running \<Longrightarrow> smp_step s (acquire_start l c s)"
| check: "c < length (cpus s) \<Longrightarrow> c_pc (cpus s ! c) = AcqCheck l \<Longrightarrow> smp_step s (acquire_check l c s)"
| spin: "c < length (cpus s) \<Longrightarrow> c_pc (cpus s ! c) = AcqSpin l \<Longrightarrow> smp_step s (acquire_spin l c s)"
| got: "c < length (cpus s) \<Longrightarrow> c_pc (cpus s ! c) = AcqSet l \<Longrightarrow> smp_step s (acquire_set l c s)"
| rel: "c < length (cpus s) \<Longrightarrow> l < length (locks s) \<Longrightarrow> c_pc (cpus s ! c) = Running \<Longrightarrow> smp_step s (release_start l c s)"
| unlock: "c < length (cpus s) \<Longrightarrow> c_pc (cpus s ! c) = RelXchg l \<Longrightarrow> smp_step s (release_xchg l c s)"
| pop: "c < length (cpus s) \<Longrightarrow> c_pc (cpus s ! c) = RelPop \<Longrightarrow> smp_step s (release_pop c s)"

text \<open>A machine after boot: interrupts on, no lock held.\<close>

definition smp0 :: "nat \<Rightarrow> nat \<Rightarrow> smp" where
  "smp0 n k = \<lparr>cpus = replicate n \<lparr>ncli = 0, intena = False, c_if = True, c_pc = Running, c_held = []\<rparr>,
     locks = replicate k \<lparr>lk_locked = 0, lk_cpu = None\<rparr>\<rparr>"

section \<open>The invariant\<close>

text \<open>CPU \<open>x\<close> is past the exchange of \<^verbatim>\<open>acquire(l)\<close> and not past that of \<^verbatim>\<open>release(l)\<close>.\<close>

definition inside :: "nat \<Rightarrow> cpu_t \<Rightarrow> bool" where
  "inside l x \<longleftrightarrow> c_pc x = AcqSet l \<or> l \<in> set (c_held x) \<or> c_pc x = RelXchg l"

fun busy :: "lpc \<Rightarrow> nat" where
  "busy (AcqCheck l) = 1" | "busy (AcqSpin l) = 1" | "busy (AcqSet l) = 1" | "busy (RelXchg l) = 1" | "busy RelPop = 1"
| "busy Running = 0" | "busy (Panicked e) = 1"

fun about :: "lpc \<Rightarrow> nat option" where
  "about (AcqCheck l) = Some l" | "about (AcqSpin l) = Some l" | "about (AcqSet l) = Some l" | "about (RelXchg l) = Some l"
| "about RelPop = None" | "about Running = None" | "about (Panicked e) = None"

definition cpu_ok :: "nat \<Rightarrow> cpu_t \<Rightarrow> bool" where
  "cpu_ok k x \<longleftrightarrow> distinct (c_held x) \<and> (\<forall>l \<in> set (c_held x). l < k) \<and> (\<forall>l. about (c_pc x) = Some l \<longrightarrow> l < k) \<and>
     (\<forall>l. c_pc x = AcqSpin l \<or> c_pc x = AcqSet l \<or> c_pc x = RelXchg l \<longrightarrow> l \<notin> set (c_held x)) \<and>
     ((\<forall>e. c_pc x \<noteq> Panicked e) \<longrightarrow> ncli x = int (length (c_held x) + busy (c_pc x)) \<and> (0 < ncli x \<longrightarrow> \<not> c_if x))"

definition lock_ok :: "nat \<Rightarrow> smp \<Rightarrow> bool" where
  "lock_ok l s \<longleftrightarrow>
     (\<forall>c < length (cpus s). \<forall>d < length (cpus s). inside l (cpus s ! c) \<longrightarrow> inside l (cpus s ! d) \<longrightarrow> c = d) \<and>
     (\<forall>c < length (cpus s). inside l (cpus s ! c) \<longrightarrow> lk_locked (locks s ! l) \<noteq> 0) \<and>
     (\<forall>c < length (cpus s). l \<in> set (c_held (cpus s ! c)) \<longleftrightarrow> lk_cpu (locks s ! l) = Some c) \<and>
     (\<forall>c. lk_cpu (locks s ! l) = Some c \<longrightarrow> c < length (cpus s)) \<and>
     (lk_locked (locks s ! l) \<noteq> 0 \<longrightarrow> (\<exists>c < length (cpus s). inside l (cpus s ! c)))"

definition smp_inv :: "smp \<Rightarrow> bool" where
  "smp_inv s \<longleftrightarrow> (\<forall>x \<in> set (cpus s). cpu_ok (length (locks s)) x) \<and> (\<forall>l < length (locks s). lock_ok l s)"

lemma smp_invD:
  assumes "smp_inv s"
  shows "c < length (cpus s) \<Longrightarrow> cpu_ok (length (locks s)) (cpus s ! c)" "l < length (locks s) \<Longrightarrow> lock_ok l s"
  using assms by (auto simp: smp_inv_def)

lemma lock_okD:
  assumes "lock_ok l s" "c < length (cpus s)"
  shows "d < length (cpus s) \<Longrightarrow> inside l (cpus s ! c) \<Longrightarrow> inside l (cpus s ! d) \<Longrightarrow> c = d"
    "inside l (cpus s ! c) \<Longrightarrow> lk_locked (locks s ! l) \<noteq> 0"
    "l \<in> set (c_held (cpus s ! c)) \<longleftrightarrow> lk_cpu (locks s ! l) = Some c"
  using assms unfolding lock_ok_def by blast+

text \<open>A step changes one CPU and at most one lock; nothing else has to be looked at.\<close>

lemma smp_inv_upd:
  assumes "smp_inv s" "c < length (cpus s)" "cpu_ok (length (locks s)) x"
    "s' = s\<lparr>cpus := (cpus s)[c := x], locks := (locks s)[l := k]\<rparr>"
    "\<And>m. m \<noteq> l \<Longrightarrow> inside m x = inside m (cpus s ! c) \<and> (m \<in> set (c_held x) \<longleftrightarrow> m \<in> set (c_held (cpus s ! c)))"
    "l < length (locks s) \<Longrightarrow> lock_ok l s'"
  shows "smp_inv s'"
proof -
  have "cpu_ok (length (locks s')) y" if "y \<in> set (cpus s')" for y
    using that assms(1,3,4) set_update_subset_insert [of "cpus s" c x] by (auto simp: smp_inv_def)
  moreover have "lock_ok m s'" if m: "m < length (locks s')" for m
  proof (cases "m = l")
    case False
    have ok: "lock_ok m s" using smp_invD(2) [OF assms(1)] m assms(4) by simp
    have i: "inside m (cpus s' ! d) = inside m (cpus s ! d)" "m \<in> set (c_held (cpus s' ! d)) \<longleftrightarrow> m \<in> set (c_held (cpus s ! d))" for d
      using assms(2,4) assms(5) [OF False] by (auto simp: nth_list_update)
    have "locks s' ! m = locks s ! m" "length (cpus s') = length (cpus s)" using False assms(4) by auto
    then show ?thesis using ok unfolding lock_ok_def i by simp
  qed (use m assms(4,6) in simp)
  ultimately show ?thesis by (simp add: smp_inv_def)
qed

text \<open>The lock the step is about, where the step does not change who is inside.\<close>

lemma lock_ok_same:
  assumes "lock_ok l s" "c < length (cpus s)" "s' = s\<lparr>cpus := (cpus s)[c := x], locks := (locks s)[l := locks s ! l]\<rparr>"
    "inside l x = inside l (cpus s ! c)" "l \<in> set (c_held x) \<longleftrightarrow> l \<in> set (c_held (cpus s ! c))"
  shows "lock_ok l s'"
proof -
  have i: "inside l (cpus s' ! d) = inside l (cpus s ! d)" "l \<in> set (c_held (cpus s' ! d)) \<longleftrightarrow> l \<in> set (c_held (cpus s ! d))" for d
    using assms(2-5) by (auto simp: nth_list_update)
  have "locks s' ! l = locks s ! l" "length (cpus s') = length (cpus s)" using assms(3) by auto
  then show ?thesis using assms(1) unfolding lock_ok_def i by simp
qed

lemma smp_inv_pc:
  assumes "smp_inv s" "c < length (cpus s)" "cpu_ok (length (locks s)) x"
    "\<And>m. inside m x = inside m (cpus s ! c)" "set (c_held x) = set (c_held (cpus s ! c))"
  shows "smp_inv (s\<lparr>cpus := (cpus s)[c := x]\<rparr>)"
proof (rule smp_inv_upd [OF assms(1-3), where l = 0 and k = "locks s ! 0"])
  show "s\<lparr>cpus := (cpus s)[c := x]\<rparr> = s\<lparr>cpus := (cpus s)[c := x], locks := (locks s)[0 := locks s ! 0]\<rparr>" by simp
  show "lock_ok 0 (s\<lparr>cpus := (cpus s)[c := x]\<rparr>)" if "0 < length (locks s)"
    using lock_ok_same [OF smp_invD(2) [OF assms(1) that] assms(2)] assms(4,5) by simp
qed (use assms(4,5) in auto)

lemma spin_inv:
  assumes "smp_inv s" "c < length (cpus s)" "c_pc (cpus s ! c) = AcqSpin l"
  shows "smp_inv (acquire_spin l c s)"
proof -
  note ok = smp_invD(1) [OF assms(1,2)]
  have l: "l < length (locks s)" using ok assms(3) by (auto simp: cpu_ok_def)
  note lo = smp_invD(2) [OF assms(1) l]
  show ?thesis
  proof (cases "lk_locked (locks s ! l) = 0")
    case True
    let ?x = "(cpus s ! c)\<lparr>c_pc := AcqSet l\<rparr>" and ?k = "(locks s ! l)\<lparr>lk_locked := 1\<rparr>"
    have e: "acquire_spin l c s = s\<lparr>cpus := (cpus s)[c := ?x], locks := (locks s)[l := ?k]\<rparr>"
      using True by (simp add: acquire_spin_def xchg_def upd_lock_def upd_cpu_def set_pc_def)
    have none: "\<not> inside l (cpus s ! d)" if "d < length (cpus s)" for d using lock_okD(2) [OF lo that] True by blast
    have "lock_ok l (acquire_spin l c s)"
      using none lo l assms(2) unfolding lock_ok_def e by (auto simp: nth_list_update inside_def)
    then show ?thesis using ok assms(3)
      by (intro smp_inv_upd [OF assms(1,2) _ e]) (auto simp: cpu_ok_def inside_def)
  next
    case False
    let ?k = "(locks s ! l)\<lparr>lk_locked := 1\<rparr>"
    have e: "acquire_spin l c s = s\<lparr>cpus := (cpus s)[c := cpus s ! c], locks := (locks s)[l := ?k]\<rparr>"
      using False by (simp add: acquire_spin_def xchg_def upd_lock_def)
    have "lock_ok l (acquire_spin l c s)" using lo l False unfolding lock_ok_def e by simp
    then show ?thesis using ok by (intro smp_inv_upd [OF assms(1,2) _ e]) auto
  qed
qed

lemma got_inv:
  assumes "smp_inv s" "c < length (cpus s)" "c_pc (cpus s ! c) = AcqSet l"
  shows "smp_inv (acquire_set l c s)"
proof -
  note ok = smp_invD(1) [OF assms(1,2)]
  have l: "l < length (locks s)" using ok assms(3) by (auto simp: cpu_ok_def)
  note lo = smp_invD(2) [OF assms(1) l]
  let ?x = "(cpus s ! c)\<lparr>c_pc := Running, c_held := l # c_held (cpus s ! c)\<rparr>" and ?k = "(locks s ! l)\<lparr>lk_cpu := Some c\<rparr>"
  have e: "acquire_set l c s = s\<lparr>cpus := (cpus s)[c := ?x], locks := (locks s)[l := ?k]\<rparr>"
    by (simp add: acquire_set_def upd_lock_def upd_cpu_def)
  have c: "inside l (cpus s ! c)" using assms(3) by (simp add: inside_def)
  have other: "\<not> inside l (cpus s ! d)" if "d < length (cpus s)" "d \<noteq> c" for d using lock_okD(1) [OF lo assms(2) that(1) c] that(2) by blast
  have "lock_ok l (acquire_set l c s)"
    using other lock_okD(2) [OF lo assms(2) c] l assms(2) unfolding lock_ok_def e by (auto simp: nth_list_update inside_def)
  then show ?thesis using ok assms(3)
    by (intro smp_inv_upd [OF assms(1,2) _ e]) (auto simp: cpu_ok_def inside_def)
qed

lemma rel_inv:
  assumes "smp_inv s" "c < length (cpus s)" "l < length (locks s)" "c_pc (cpus s ! c) = Running"
  shows "smp_inv (release_start l c s)"
proof (cases "holding l c s")
  case True
  note ok = smp_invD(1) [OF assms(1,2)] and lo = smp_invD(2) [OF assms(1,3)]
  let ?x = "(cpus s ! c)\<lparr>c_pc := RelXchg l, c_held := remove1 l (c_held (cpus s ! c))\<rparr>" and ?k = "(locks s ! l)\<lparr>lk_cpu := None\<rparr>"
  have e: "release_start l c s = s\<lparr>cpus := (cpus s)[c := ?x], locks := (locks s)[l := ?k]\<rparr>"
    using True by (simp add: release_start_def upd_lock_def upd_cpu_def)
  have h: "l \<in> set (c_held (cpus s ! c))" "distinct (c_held (cpus s ! c))"
    using True lock_okD(3) [OF lo assms(2)] ok by (auto simp: holding_def cpu_ok_def)
  have c: "inside l (cpus s ! c)" using h(1) by (simp add: inside_def)
  have other: "\<not> inside l (cpus s ! d)" if "d < length (cpus s)" "d \<noteq> c" for d using lock_okD(1) [OF lo assms(2) that(1) c] that(2) by blast
  have "lock_ok l (release_start l c s)"
    using other lock_okD(2) [OF lo assms(2) c] h assms(2,3) unfolding lock_ok_def e by (auto simp: nth_list_update inside_def)
  moreover have "length (c_held (cpus s ! c)) = Suc (length (remove1 l (c_held (cpus s ! c))))"
    using h(1) by (simp add: length_remove1) (metis length_pos_if_in_set Suc_pred)
  ultimately show ?thesis using ok assms(3,4) h
    by (intro smp_inv_upd [OF assms(1,2) _ e]) (auto simp: cpu_ok_def inside_def distinct_remove1)
next
  case False
  then show ?thesis using smp_invD(1) [OF assms(1,2)] assms(4)
    unfolding release_start_def set_pc_def upd_cpu_def
    by (auto intro!: smp_inv_pc [OF assms(1,2)] simp: cpu_ok_def inside_def)
qed

lemma unlock_inv:
  assumes "smp_inv s" "c < length (cpus s)" "c_pc (cpus s ! c) = RelXchg l"
  shows "smp_inv (release_xchg l c s)"
proof -
  note ok = smp_invD(1) [OF assms(1,2)]
  have l: "l < length (locks s)" "l \<notin> set (c_held (cpus s ! c))" using ok assms(3) by (auto simp: cpu_ok_def)
  note lo = smp_invD(2) [OF assms(1) l(1)]
  let ?x = "(cpus s ! c)\<lparr>c_pc := RelPop\<rparr>" and ?k = "(locks s ! l)\<lparr>lk_locked := 0\<rparr>"
  have e: "release_xchg l c s = s\<lparr>cpus := (cpus s)[c := ?x], locks := (locks s)[l := ?k]\<rparr>"
    by (simp add: release_xchg_def xchg_def upd_lock_def upd_cpu_def set_pc_def)
  have c: "inside l (cpus s ! c)" using assms(3) by (simp add: inside_def)
  have other: "\<not> inside l (cpus s ! d)" if "d < length (cpus s)" "d \<noteq> c" for d using lock_okD(1) [OF lo assms(2) that(1) c] that(2) by blast
  have nobody: "lk_cpu (locks s ! l) \<noteq> Some d" for d
  proof
    assume d: "lk_cpu (locks s ! l) = Some d"
    then have "d < length (cpus s)" using lo by (simp add: lock_ok_def)
    then show False using lock_okD(3) [OF lo, of d] d other [of d] l(2) by (auto simp: inside_def)
  qed
  have "lock_ok l (release_xchg l c s)"
    unfolding lock_ok_def e using other nobody l assms(2) by (auto simp: nth_list_update inside_def)
  then show ?thesis using ok assms(3)
    by (intro smp_inv_upd [OF assms(1,2) _ e]) (auto simp: cpu_ok_def inside_def)
qed

lemma holding_iff:
  assumes "smp_inv s" "c < length (cpus s)" "l < length (locks s)"
  shows "holding l c s \<longleftrightarrow> l \<in> set (c_held (cpus s ! c))"
  using lock_okD(2,3) [OF smp_invD(2) [OF assms(1,3)] assms(2)] by (auto simp: holding_def inside_def)

lemma step_inv: "smp_step s s' \<Longrightarrow> smp_inv s \<Longrightarrow> smp_inv s'"
proof (induction rule: smp_step.induct)
  case (acq c s l)
  then show ?case using smp_invD(1) [OF acq(4,1)]
    unfolding acquire_start_def set_pc_def upd_cpu_def pushcli_def
    by (auto intro!: smp_inv_pc [OF acq(4,1)] simp: cpu_ok_def inside_def)
next
  case (check c s l)
  have l: "l < length (locks s)" using smp_invD(1) [OF check(3,1)] check(2) by (simp add: cpu_ok_def)
  show ?case using smp_invD(1) [OF check(3,1)] check(2)
    unfolding acquire_check_def set_pc_def upd_cpu_def holding_iff [OF check(3,1) l]
    by (auto intro!: smp_inv_pc [OF check(3,1)] simp: cpu_ok_def inside_def)
next
  case (pop c s)
  then show ?case using smp_invD(1) [OF pop(3,1)]
    unfolding release_pop_def set_pc_def upd_cpu_def popcli_def Let_def
    by (auto intro!: smp_inv_pc [OF pop(3,1)] simp: cpu_ok_def inside_def)
qed (auto intro: spin_inv got_inv rel_inv unlock_inv)

lemma smp0_inv: "smp_inv (smp0 n k)"
  by (auto simp: smp_inv_def smp0_def cpu_ok_def lock_ok_def inside_def)

lemma reach_inv: "smp_step\<^sup>*\<^sup>* (smp0 n k) s \<Longrightarrow> smp_inv s"
  by (induction rule: rtranclp_induct) (auto intro: smp0_inv step_inv)

section \<open>Properties\<close>

text \<open>C5. However the CPUs' steps interleave, no two CPUs are ever between \<^verbatim>\<open>acquire\<close> and \<^verbatim>\<open>release\<close> of the same lock; a
  CPU that holds a lock and has not stopped in a panic runs with interrupts disabled, and \<^verbatim>\<open>holding\<close> tells exactly
  whether it holds the lock.\<close>

theorem mutual_exclusion:
  assumes "smp_step\<^sup>*\<^sup>* (smp0 n k) s" "c < length (cpus s)" "l < length (locks s)"
  shows "(l \<in> set (c_held (cpus s ! c)) \<and> d < length (cpus s) \<and> l \<in> set (c_held (cpus s ! d)) \<longrightarrow> c = d) \<and>
    (l \<in> set (c_held (cpus s ! c)) \<and> (\<forall>e. c_pc (cpus s ! c) \<noteq> Panicked e) \<longrightarrow> \<not> c_if (cpus s ! c)) \<and>
    (holding l c s \<longleftrightarrow> l \<in> set (c_held (cpus s ! c)))"
proof -
  note inv = reach_inv [OF assms(1)]
  note ok = smp_invD(1) [OF inv assms(2)] and lo = smp_invD(2) [OF inv assms(3)]
  have "c = d" if "l \<in> set (c_held (cpus s ! c))" "d < length (cpus s)" "l \<in> set (c_held (cpus s ! d))"
    using lock_okD(1) [OF lo assms(2) that(2)] that by (simp add: inside_def)
  moreover have "\<not> c_if (cpus s ! c)" if "l \<in> set (c_held (cpus s ! c))" "\<forall>e. c_pc (cpus s ! c) \<noteq> Panicked e"
  proof -
    have "0 < length (c_held (cpus s ! c))" using length_pos_if_in_set [OF that(1)] .
    then have "0 < int (length (c_held (cpus s ! c)) + busy (c_pc (cpus s ! c)))" by linarith
    then show ?thesis using ok that(2) unfolding cpu_ok_def by metis
  qed
  ultimately show ?thesis using holding_iff [OF inv assms(2,3)] by blast
qed

text \<open>C40. A CPU that spins on a lock gets it with its next exchange as soon as no CPU is inside: the lock word is never left
  set by itself. A CPU that releases a lock it holds does not panic, neither in the check nor when it restores interrupts;
  \<^verbatim>\<open>acquire\<close> panics exactly when the CPU holds the lock already.\<close>

theorem lock_progress:
  assumes "smp_step\<^sup>*\<^sup>* (smp0 n k) s" "c < length (cpus s)"
  shows "(c_pc (cpus s ! c) = AcqSpin l \<and> (\<forall>d < length (cpus s). \<not> inside l (cpus s ! d)) \<longrightarrow>
      c_pc (cpus (acquire_spin l c s) ! c) = AcqSet l) \<and>
    (l \<in> set (c_held (cpus s ! c)) \<longrightarrow> c_pc (cpus (release_start l c s) ! c) = RelXchg l) \<and>
    (c_pc (cpus s ! c) = RelPop \<longrightarrow> c_pc (cpus (release_pop c s) ! c) = Running) \<and>
    (c_pc (cpus s ! c) = AcqCheck l \<longrightarrow>
      (c_pc (cpus (acquire_check l c s) ! c) = Panicked ''acquire'' \<longleftrightarrow> l \<in> set (c_held (cpus s ! c))))"
proof (intro conjI impI)
  note inv = reach_inv [OF assms(1)]
  note ok = smp_invD(1) [OF inv assms(2)]
  have lt: "l < length (locks s)" if "about (c_pc (cpus s ! c)) = Some l \<or> l \<in> set (c_held (cpus s ! c))"
    using ok that by (auto simp: cpu_ok_def)
  show "c_pc (cpus (acquire_spin l c s) ! c) = AcqSet l"
    if "c_pc (cpus s ! c) = AcqSpin l \<and> (\<forall>d < length (cpus s). \<not> inside l (cpus s ! d))"
  proof -
    have "lk_locked (locks s ! l) = 0" using smp_invD(2) [OF inv lt] that by (auto simp: lock_ok_def)
    then show ?thesis using assms(2) by (simp add: acquire_spin_def xchg_def upd_lock_def set_pc_def upd_cpu_def)
  qed
  show "c_pc (cpus (release_start l c s) ! c) = RelXchg l" if "l \<in> set (c_held (cpus s ! c))"
    using holding_iff [OF inv assms(2) lt] that assms(2) by (simp add: release_start_def upd_lock_def upd_cpu_def)
  show "c_pc (cpus (release_pop c s) ! c) = Running" if "c_pc (cpus s ! c) = RelPop"
    using ok that assms(2) by (auto simp: release_pop_def set_pc_def upd_cpu_def popcli_def cpu_ok_def Let_def)
  show "c_pc (cpus (acquire_check l c s) ! c) = Panicked ''acquire'' \<longleftrightarrow> l \<in> set (c_held (cpus s ! c))"
    if "c_pc (cpus s ! c) = AcqCheck l"
    using holding_iff [OF inv assms(2) lt] that assms(2) by (simp add: acquire_check_def set_pc_def upd_cpu_def)
qed

text \<open>Two CPUs, one lock: CPU 0 has acquired it and CPU 1 spins.\<close>

definition smp_ex :: smp where
  "smp_ex = acquire_check 0 1 (acquire_start 0 1 (acquire_set 0 0 (acquire_spin 0 0 (acquire_check 0 0 (acquire_start 0 0 (smp0 2 1))))))"

lemma smp_ex_reach: "smp_step\<^sup>*\<^sup>* (smp0 2 1) smp_ex"
proof -
  define s1 where "s1 = acquire_start 0 0 (smp0 2 1)"
  define s2 where "s2 = acquire_check 0 0 s1"
  define s3 where "s3 = acquire_spin 0 0 s2"
  define s4 where "s4 = acquire_set 0 0 s3"
  define s5 where "s5 = acquire_start 0 1 s4"
  note defs = smp0_def upd_cpu_def upd_lock_def set_pc_def xchg_def pushcli_def numeral_2_eq_2
    acquire_start_def acquire_check_def acquire_spin_def acquire_set_def holding_def
  have "smp_step (smp0 2 1) s1" unfolding s1_def by (rule smp_step.acq) (simp_all add: defs)
  moreover have "smp_step s1 s2" unfolding s2_def by (rule smp_step.check) (simp_all add: s1_def defs)
  moreover have "smp_step s2 s3" unfolding s3_def by (rule smp_step.spin) (simp_all add: s1_def s2_def defs)
  moreover have "smp_step s3 s4" unfolding s4_def by (rule smp_step.got) (simp_all add: s1_def s2_def s3_def defs)
  moreover have "smp_step s4 s5" unfolding s5_def by (rule smp_step.acq) (simp_all add: s1_def s2_def s3_def s4_def defs)
  moreover have "smp_step s5 (acquire_check 0 1 s5)" by (rule smp_step.check) (simp_all add: s1_def s2_def s3_def s4_def s5_def defs)
  ultimately show ?thesis unfolding smp_ex_def s1_def s2_def s3_def s4_def s5_def
    by (meson converse_rtranclp_into_rtranclp rtranclp.rtrancl_refl)
qed

lemma smp_ex_state:
  "length (cpus smp_ex) = 2" "length (locks smp_ex) = 1" "c_held (cpus smp_ex ! 0) = [0]" "c_pc (cpus smp_ex ! 0) = Running"
  by (simp_all add: smp_ex_def smp0_def upd_cpu_def upd_lock_def set_pc_def xchg_def pushcli_def numeral_2_eq_2
    acquire_start_def acquire_check_def acquire_spin_def acquire_set_def holding_def)

theorem mutual_exclusion_witness: "0 \<in> set (c_held (cpus smp_ex ! 0)) \<and> \<not> c_if (cpus smp_ex ! 0) \<and> holding 0 0 smp_ex"
  using mutual_exclusion [OF smp_ex_reach, of 0 0 0] by (simp add: smp_ex_state)

theorem lock_progress_witness: "c_pc (cpus (release_start 0 0 smp_ex) ! 0) = RelXchg 0"
  using lock_progress [OF smp_ex_reach, of 0 0] by (simp add: smp_ex_state)

end
