(* ===== verification/ProcLife.thy ===== *)
theory ProcLife
  imports File Vm Mailbox
begin

text \<open>
  The life of a process (\<^verbatim>\<open>proc.c\<close>): allocation of a slot, \<^verbatim>\<open>fork\<close> and \<^verbatim>\<open>clone\<close>, \<^verbatim>\<open>exit\<close> and \<^verbatim>\<open>wait\<close>, the
  scheduler's treatment of each slot, and the first two processes. \<^verbatim>\<open>ptable.lock\<close> makes each step atomic; the kernel stack's
  contents and the context switch are not modelled, so \<^verbatim>\<open>sched()\<close> ends a step with the outcome \<open>Sched\<close>.
\<close>

section \<open>Allocation\<close>

definition allocproc :: "'a kst_scheme \<Rightarrow> ('a kst_scheme, nat option) outcome" where
  "allocproc s = (case find_index (\<lambda>p. p_state p = UNUSED) (procs s) of None \<Rightarrow> Inr (None, s)
     | Some i \<Rightarrow>
       let s = upd_proc i (\<lambda>p. p\<lparr>p_state := EMBRYO, p_pid := nextpid s, p_sid := -1, p_uid := -2,
             p_errstr := replicate ERRMAX 0, p_errset := False\<rparr>) (s\<lparr>nextpid := nextpid s + 1\<rparr>);
           (k, s) = kalloc s; s = upd_proc i (\<lambda>p. p\<lparr>p_kstack := k\<rparr>) s in
       if k = 0 then Inr (None, upd_proc i (\<lambda>p. p\<lparr>p_state := UNUSED\<rparr>) s)
       else bnd (initmailbox i s) (\<lambda>(_, s). Inr (Some i, s)))"

text \<open>\<^verbatim>\<open>sched\<close> up to the context switch; its checks of the locks held and of the interrupt flag are not modelled here.\<close>

definition sched :: "'a pst_scheme \<Rightarrow> ('a pst_scheme, 'b) outcome" where
  "sched s = (if p_state (cur s) = RUNNING then Inl (Panic ''sched running'') else Inl (Sched s))"

definition yield1 :: "'a pst_scheme \<Rightarrow> ('a pst_scheme, 'b) outcome" where
  "yield1 s = sched (upd_cur (\<lambda>p. p\<lparr>p_state := RUNNABLE\<rparr>) s)"

definition yield :: "'a pst_scheme \<Rightarrow> ('a pst_scheme, 'b) outcome" where
  "yield s = yield1 s"

text \<open>\<open>mem_ok\<close>: the allocation of the log in \<^verbatim>\<open>fsinit\<close> succeeds.\<close>

definition forkret :: "bool \<Rightarrow> 'a kst_scheme \<Rightarrow> ('a kst_scheme, unit) outcome" where
  "forkret mem_ok s = (if first s \<and> p_pid (cur s) = 0
     then bnd (fsinit mem_ok 0 s) (\<lambda>(_, s). Inr ((), s\<lparr>first := False\<rparr>)) else Inr ((), s))"

section \<open>Memory size\<close>

fun growproc_threads :: "nat option list \<Rightarrow> u32 \<Rightarrow> 'a kst_scheme \<Rightarrow> ('a kst_scheme, unit) outcome" where
  "growproc_threads [] sz s = Inr ((), s)"
| "growproc_threads (t # ts) sz s = (case t of None \<Rightarrow> Inl (Fault ''growproc: no thread'')
     | Some i \<Rightarrow> growproc_threads ts sz
         (if p_state (procs s ! i) \<noteq> UNUSED then upd_proc i (\<lambda>p. p\<lparr>p_sz := sz\<rparr>) s else s))"

definition growproc :: "int \<Rightarrow> 'a kst_scheme \<Rightarrow> ('a kst_scheme, int) outcome" where
  "growproc n s =
    (let sz = p_sz (cur s); pgdir = p_pgdir (cur s) in
     bnd (if n > 0 then allocuvm pgdir sz (sz + of_int n) s
          else if n < 0 then deallocuvm pgdir sz (sz + of_int n) s
          else Inr (sz, s)) (\<lambda>(sz', s).
       if n \<noteq> 0 \<and> sz' = 0 then Inr (-1, s)
       else let s = upd_cur (\<lambda>p. p\<lparr>p_sz := sz'\<rparr>) s in
         bnd (if p_threadi (cur s) > 0 then growproc_threads (p_threads (cur s)) sz' s else Inr ((), s)) (\<lambda>(_, s).
         bnd (switchuvm (the (curproc s)) s) (\<lambda>(_, s). Inr (0, s)))))"

section \<open>Fork and clone\<close>

fun dup_files :: "nat \<Rightarrow> nat list \<Rightarrow> 'a kst_scheme \<Rightarrow> ('a kst_scheme, unit) outcome" where
  "dup_files np [] s = Inr ((), s)"
| "dup_files np (i # is) s = (case p_ofile (cur s) ! i of None \<Rightarrow> dup_files np is s
     | Some f \<Rightarrow> bnd (filedup f s) (\<lambda>(f, s). dup_files np is (upd_proc np (\<lambda>p. p\<lparr>p_ofile := (p_ofile p)[i := Some f]\<rparr>) s)))"

definition dup_dirs :: "nat \<Rightarrow> 'a kst_scheme \<Rightarrow> 'a kst_scheme" where
  "dup_dirs np s = (let (r, s) = idup (p_rootdir (cur s)) s; s = upd_proc np (\<lambda>p. p\<lparr>p_rootdir := r\<rparr>) s;
     (c, s) = idup (p_cwd (cur s)) s in upd_proc np (\<lambda>p. p\<lparr>p_cwd := c\<rparr>) s)"

definition fork :: "'a kst_scheme \<Rightarrow> ('a kst_scheme, int) outcome" where
  "fork s = bnd (allocproc s) (\<lambda>(r, s). case r of None \<Rightarrow> Inr (-1, seterr ''no free processes'' s)
     | Some np \<Rightarrow>
       bnd (copyuvm (p_pgdir (cur s)) (p_sz (cur s)) s) (\<lambda>(d, s).
         let s = upd_proc np (\<lambda>p. p\<lparr>p_pgdir := d\<rparr>) s in
         if d = 0
         then bnd (kfree (p_kstack (procs s ! np)) s) (\<lambda>(_, s).
           Inr (-1, seterr ''could not copy parent state'' (upd_proc np (\<lambda>p. p\<lparr>p_kstack := 0, p_state := UNUSED\<rparr>) s)))
         else let me = cur s;
             s = upd_proc np (\<lambda>p. p\<lparr>p_type := PROCESS, p_uid := p_uid me, p_sid := p_sid me, p_sz := p_sz me,
               p_parent := curproc s, p_tf := (p_tf me)\<lparr>tf_eax := 0\<rparr>\<rparr>) s in
           bnd (dup_files np [0..<NOFILE] s) (\<lambda>(_, s).
             let s = dup_dirs np s;
                 s = upd_proc np (\<lambda>p. p\<lparr>p_threadi := 0, p_name := safestrcpy (p_name p) (p_name (cur s)) 128\<rparr>) s;
                 pid = p_pid (procs s ! np) in
             Inr (pid, upd_proc np (\<lambda>p. p\<lparr>p_state := RUNNABLE\<rparr>) s))))"

definition addchild :: "nat \<Rightarrow> nat \<Rightarrow> 'a pst_scheme \<Rightarrow> int \<times> 'a pst_scheme" where
  "addchild par child s = (case find_index (\<lambda>t. t = None) (take THREADMAX (p_threads (procs s ! par))) of
     None \<Rightarrow> (1, s)
   | Some i \<Rightarrow> (0, upd_proc par (\<lambda>p. p\<lparr>p_threads := (p_threads p)[i := Some child], p_threadi := p_threadi p + 1\<rparr>) s))"

definition removechild :: "nat \<Rightarrow> nat \<Rightarrow> 'a pst_scheme \<Rightarrow> int \<times> 'a pst_scheme" where
  "removechild par child s = (case find_index (\<lambda>t. t = Some child) (take THREADMAX (p_threads (procs s ! par))) of
     None \<Rightarrow> (1, s)
   | Some i \<Rightarrow> (0, upd_proc par (\<lambda>p. p\<lparr>p_threads := (p_threads p)[i := None], p_threadi := p_threadi p - 1\<rparr>) s))"

text \<open>\<^verbatim>\<open>tfork\<close> fails before it does anything; the code after its first line is never reached.\<close>

definition tfork :: "'a pst_scheme \<Rightarrow> int \<times> 'a pst_scheme" where
  "tfork s = (-1, seterr ''system call is disabled'' s)"

definition clone :: "u32 \<Rightarrow> 'a kst_scheme \<Rightarrow> ('a kst_scheme, int) outcome" where
  "clone stack s =
    (if \<not> allowthreads s then Inr (-1, seterr ''threading is disabled'' s)
     else if \<not> useclone s then Inr (-1, seterr ''system call is disabled'' s)
     else if p_threadi (cur s) \<ge> THREADMAX then Inr (-1, seterr ''parent has maximum number of child threads'' s)
     else bnd (allocproc s) (\<lambda>(r, s). case r of None \<Rightarrow> Inr (-1, seterr ''no free processes'' s)
     | Some np \<Rightarrow>
       let me = cur s; esp = tf_esp (p_tf me) in
       case walkpgdir (p_pgdir me) esp False s of (pte, s) \<Rightarrow>
       if pte = 0 then Inl (Panic ''clone: parent has no stack page'')
       else let page = map (\<lambda>i. km s (p2v (PTE_ADDR (get32 (km s) pte)) + of_nat i)) [0..<4096] in
       case ustore (p_pgdir me) (km s) stack page of None \<Rightarrow> Inl (Fault ''clone: stack'')
       | Some m \<Rightarrow>
         let top = stack + PGSIZE;
             s = upd_proc np (\<lambda>p. p\<lparr>p_tf := (p_tf me)\<lparr>tf_esp := top - (p_ssp me - esp), tf_eax := 0\<rparr>, p_ssp := top,
               p_pgdir := p_pgdir me, p_sz := p_sz me, p_type := THREAD, p_uid := p_uid me, p_sid := p_sid me,
               p_parent := (if p_type me = PROCESS then curproc s else p_parent me)\<rparr>) (s\<lparr>km := m\<rparr>) in
         bnd (dup_files np [0..<NOFILE] s) (\<lambda>(_, s).
           let s = dup_dirs np s;
               s = upd_proc np (\<lambda>p. p\<lparr>p_name := safestrcpy (p_name p) (p_name (cur s)) 128\<rparr>) s;
               pid = p_pid (procs s ! np);
               s = upd_proc np (\<lambda>p. p\<lparr>p_state := RUNNABLE\<rparr>) s in
           Inr (pid, snd (addchild (the (if p_type (cur s) = THREAD then p_parent (cur s) else curproc s)) np s)))))"

section \<open>Exit and wait\<close>

text \<open>The slot of a dead process is given back.\<close>

definition clear_slot :: "proc \<Rightarrow> proc" where
  "clear_slot p = p\<lparr>p_state := UNUSED, p_pid := 0, p_parent := None, p_name := (p_name p)[0 := 0], p_killed := False\<rparr>"

definition dead_child :: "nat option \<Rightarrow> proc \<Rightarrow> bool" where
  "dead_child me p \<longleftrightarrow> p_parent p = me \<and> p_state p = ZOMBIE \<and> p_type p = PROCESS"

text \<open>One scan of \<^verbatim>\<open>wait1\<close>; a process that has to wait gives up the CPU and scans again when it runs.\<close>

definition wait1 :: "'a kst_scheme \<Rightarrow> ('a kst_scheme, int) outcome" where
  "wait1 s = (case find_index (dead_child (curproc s)) (procs s) of
     Some i \<Rightarrow>
       let p = procs s ! i in
       if \<not> p_crashed p
       then bnd (kfree (p_kstack p) s) (\<lambda>(_, s).
            bnd (freevm (p_pgdir p) (upd_proc i (\<lambda>p. p\<lparr>p_kstack := 0\<rparr>) s)) (\<lambda>(_, s). Inr (p_pid p, upd_proc i clear_slot s)))
       else Inr (p_pid p, upd_proc i (\<lambda>p. p\<lparr>p_state := CRASHED\<rparr>) s)
   | None \<Rightarrow>
       if (\<forall>p \<in> set (procs s). p_parent p \<noteq> curproc s) \<or> p_killed (cur s)
       then Inr (-1, snd (projr (werrstr (bytes_of ''no children's deaths to mourn'') 29 s)))
       else sched (upd_cur (\<lambda>p. p\<lparr>p_state := WAIT, p_waitrounds := WAITROUNDS\<rparr>) s))"

definition wait :: "'a kst_scheme \<Rightarrow> ('a kst_scheme, int) outcome" where
  "wait s = wait1 s"

fun close_files :: "nat list \<Rightarrow> 'a kst_scheme \<Rightarrow> ('a kst_scheme, unit) outcome" where
  "close_files [] s = Inr ((), s)"
| "close_files (fd # fds) s = (case p_ofile (cur s) ! fd of None \<Rightarrow> close_files fds s
     | Some f \<Rightarrow> bnd (fileclose f s) (\<lambda>(_, s). close_files fds (upd_cur (\<lambda>p. p\<lparr>p_ofile := (p_ofile p)[fd := None]\<rparr>) s)))"

text \<open>The loop \<^verbatim>\<open>while(wait1() != -1)\<close> of \<^verbatim>\<open>exit\<close>.\<close>

partial_function (option) exit_wait :: "'a kst_scheme \<Rightarrow> ('a kst_scheme, unit) outcome option" where
  "exit_wait s = (case wait1 s of Inl e \<Rightarrow> Some (Inl e) | Inr (r, s) \<Rightarrow> if r = -1 then Some (Inr ((), s)) else exit_wait s)"

definition kill_threads :: "'a pst_scheme \<Rightarrow> 'a pst_scheme" where
  "kill_threads s = fold (\<lambda>t s. case t of None \<Rightarrow> s | Some i \<Rightarrow> upd_proc i (\<lambda>p. p\<lparr>p_killed := True\<rparr>) s)
     (take THREADMAX (p_threads (cur s))) s"

text \<open>Abandoned children get \<open>initproc\<close> as their parent, which is woken if one of them is a zombie.\<close>

fun reparent :: "nat list \<Rightarrow> 'a pst_scheme \<Rightarrow> 'a pst_scheme" where
  "reparent [] s = s"
| "reparent (i # is) s = reparent is
     (if p_parent (procs s ! i) = curproc s
      then let s = upd_proc i (\<lambda>p. p\<lparr>p_parent := initproc s\<rparr>) s in
        if p_state (procs s ! i) = ZOMBIE then wakeup1 (map_option ChProc (initproc s)) s else s
      else s)"

definition exit :: "'a kst_scheme \<Rightarrow> ('a kst_scheme, unit) outcome" where
  "exit s =
    (if curproc s = initproc s then Inl (Panic ''init exiting'')
     else bnd (close_files [0..<NOFILE] s) (\<lambda>(_, s).
     case p_cwd (cur s) of None \<Rightarrow> Inl (Fault ''exit: no current directory'')
     | Some cwd \<Rightarrow>
     bnd (begin_op (i_dev (inodes s ! cwd)) s) (\<lambda>(_, s).
     bnd (iput cwd s) (\<lambda>(_, s).
     bnd (end_op (i_dev (inodes s ! cwd)) s) (\<lambda>(_, s).
       let s = upd_cur (\<lambda>p. p\<lparr>p_cwd := None\<rparr>) s in
       bnd (if p_type (cur s) = PROCESS \<and> p_threadi (cur s) > 0
            then (case exit_wait (kill_threads s) of None \<Rightarrow> Inl (Hang ''exit'') | Some r \<Rightarrow> r)
            else Inr ((), s)) (\<lambda>(_, s).
       bnd (flush_mailbox (the (curproc s)) s) (\<lambda>(_, s).
       bnd (kmfree (mb_lock (mbox (the (curproc s)) s)) s) (\<lambda>(_, s).
         let s = wakeup1 (map_option ChProc (p_parent (cur s))) s;
             s = reparent [0..<NPROC] s in
         sched (upd_cur (\<lambda>p. p\<lparr>p_state := ZOMBIE\<rparr>) s)))))))))"

section \<open>The scheduler\<close>

text \<open>A zombie thread is removed.\<close>

definition cull :: "nat \<Rightarrow> 'a kst_scheme \<Rightarrow> ('a kst_scheme, unit) outcome" where
  "cull i s = (let p = procs s ! i in
     bnd (kfree (p_kstack p) s) (\<lambda>(_, s).
       let s = upd_proc i (\<lambda>p. p\<lparr>p_kstack := 0\<rparr>) s in
       bnd (if \<not> useclone s then bnd (kfree (PTE_ADDR (p_stackpte p)) s) (\<lambda>(_, s). kfree (p_pgdir p) s) else Inr ((), s)) (\<lambda>(_, s).
         case p_parent p of None \<Rightarrow> Inl (Fault ''scheduler: thread without parent'')
         | Some par \<Rightarrow> Inr ((), upd_proc i clear_slot (snd (removechild par i s))))))"

definition eligible :: "'a pst_scheme \<Rightarrow> proc \<Rightarrow> bool" where
  "eligible s p \<longleftrightarrow> \<not> (first s \<and> p_pid p \<noteq> 0) \<and> \<not> (p_uid p \<noteq> -1 \<and> singleuser s = 1)"

text \<open>What the scheduler does with slot \<open>i\<close> before it may switch to it; true if it does switch.\<close>

definition sched_visit :: "nat \<Rightarrow> 'a kst_scheme \<Rightarrow> ('a kst_scheme, bool) outcome" where
  "sched_visit i s =
    bnd (if p_type (procs s ! i) = THREAD \<and> p_state (procs s ! i) = ZOMBIE then cull i s else Inr ((), s)) (\<lambda>(_, s).
      let p = procs s ! i in
      if \<not> eligible s p then Inr (False, s)
      else if p_state p \<noteq> RUNNABLE
      then Inr (False, if p_state p = WAIT
          then (if p_waitrounds p > 0 then upd_proc i (\<lambda>p. p\<lparr>p_waitrounds := p_waitrounds p - 1\<rparr>) s
                else upd_proc i (\<lambda>p. p\<lparr>p_state := RUNNABLE\<rparr>) s) else s)
      else bnd (switchuvm i (s\<lparr>curproc := Some i\<rparr>)) (\<lambda>(_, s). Inr (True, upd_proc i (\<lambda>p. p\<lparr>p_state := RUNNING\<rparr>) s)))"

text \<open>One round over the table. \<open>run\<close> is what the chosen process does until it gives up the CPU.\<close>

fun sched_round :: "('a kst_scheme \<Rightarrow> 'a kst_scheme) \<Rightarrow> nat list \<Rightarrow> 'a kst_scheme \<Rightarrow> ('a kst_scheme, unit) outcome" where
  "sched_round run [] s = Inr ((), s)"
| "sched_round run (i # is) s = bnd (sched_visit i s) (\<lambda>(go, s).
     sched_round run is (if go then (switchkvm (run s))\<lparr>curproc := None\<rparr> else s))"

section \<open>The first processes\<close>

definition user_tf :: trapframe where
  "user_tf = \<lparr>tf_edi = 0, tf_esi = 0, tf_ebp = 0, tf_ebx = 0, tf_edx = 0, tf_ecx = 0, tf_eax = 0, tf_gs = 0, tf_fs = 0,
     tf_es = 5 * 8 + 3, tf_ds = 5 * 8 + 3, tf_trapno = 0, tf_err = 0, tf_eip = 0, tf_cs = 4 * 8 + 3, tf_eflags = 0x200,
     tf_esp = PGSIZE, tf_ss = 5 * 8 + 3\<rparr>"

definition firstproc :: "string \<Rightarrow> bytes \<Rightarrow> 'a kst_scheme \<Rightarrow> ('a kst_scheme, nat) outcome" where
  "firstproc msg code s = bnd (allocproc s) (\<lambda>(r, s). case r of None \<Rightarrow> Inl (Fault msg)
     | Some p \<Rightarrow>
       let s = s\<lparr>initproc := Some p\<rparr> in
       bnd (setupkvm s) (\<lambda>(d, s).
         let s = upd_proc p (\<lambda>x. x\<lparr>p_pgdir := d\<rparr>) s in
         if d = 0 then Inl (Panic msg)
         else bnd (inituvm d code s) (\<lambda>(_, s).
           Inr (p, upd_proc p (\<lambda>x. x\<lparr>p_sz := PGSIZE, p_tf := user_tf, p_uid := -1, p_sid := -1\<rparr>) s))))"

text \<open>\<open>code\<close> is the linked image of \<^verbatim>\<open>initcode.S\<close>; \<open>junk\<close> what the name buffer of \<^verbatim>\<open>namei\<close> holds at first.\<close>

definition userinit :: "'a kst_scheme devsw list \<Rightarrow> bytes \<Rightarrow> bytes \<Rightarrow> 'a kst_scheme \<Rightarrow> ('a kst_scheme, unit) outcome" where
  "userinit devsw junk code s = bnd (firstproc ''userinit: out of memory?'' code s) (\<lambda>(p, s).
     let s = upd_proc p (\<lambda>x. x\<lparr>p_name := safestrcpy (p_name x) (bytes_of ''userinit'') 128, p_rootdir := None\<rparr>) s in
     bnd (namei devsw junk [slash] s) (\<lambda>(ip, s).
       Inr ((), (upd_proc p (\<lambda>x. x\<lparr>p_cwd := ip, p_state := RUNNABLE\<rparr>) s)\<lparr>booted := True\<rparr>)))"

definition kernelinit :: "bytes \<Rightarrow> 'a kst_scheme \<Rightarrow> ('a kst_scheme, unit) outcome" where
  "kernelinit code s = bnd (firstproc ''kernelinit: out of memory?'' code s) (\<lambda>(p, s).
     Inr ((), upd_proc p (\<lambda>x. x\<lparr>p_name := safestrcpy (p_name x) (bytes_of ''kernel'') 128, p_rootdir := None, p_cwd := None,
       p_state := RUNNABLE\<rparr>) s))"

section \<open>A waiting process runs again\<close>

fun sched_rounds :: "('a kst_scheme \<Rightarrow> 'a kst_scheme) \<Rightarrow> nat \<Rightarrow> 'a kst_scheme \<Rightarrow> ('a kst_scheme, unit) outcome" where
  "sched_rounds run 0 s = Inr ((), s)"
| "sched_rounds run (Suc n) s = bnd (sched_round run [0..<NPROC] s) (\<lambda>(_, s). sched_rounds run n s)"

text \<open>What the scheduler looks at in slot \<open>j\<close>, and a table in which it meets no dead thread and no runnable or waiting process without
  an address space.\<close>

definition slot :: "nat \<Rightarrow> 'a pst_scheme \<Rightarrow> procstate \<times> int \<times> int \<times> int" where
  "slot j s = (p_state (procs s ! j), p_waitrounds (procs s ! j), p_pid (procs s ! j), p_uid (procs s ! j))"

definition sane :: "'a pst_scheme \<Rightarrow> bool" where
  "sane s \<longleftrightarrow> length (procs s) = NPROC \<and> (\<forall>p \<in> set (procs s). \<not> (p_type p = THREAD \<and> p_state p = ZOMBIE) \<and>
     (p_state p \<in> {RUNNABLE, WAIT} \<longrightarrow> p_pgdir p \<noteq> 0))"

text \<open>The other processes, when they run, leave slot \<open>j\<close> and the mode of the scheduler alone.\<close>

definition quiet :: "nat \<Rightarrow> ('a kst_scheme \<Rightarrow> 'a kst_scheme) \<Rightarrow> bool" where
  "quiet j run \<longleftrightarrow> (\<forall>s. sane s \<longrightarrow> curproc s \<noteq> Some j \<longrightarrow>
     sane (run s) \<and> slot j (run s) = slot j s \<and> p_pgdir (procs (run s) ! j) = p_pgdir (procs s ! j) \<and>
     first (run s) = first s \<and> singleuser (run s) = singleuser s)"

lemma sane_upd:
  assumes "sane s" "\<not> (p_type (f (procs s ! i)) = THREAD \<and> p_state (f (procs s ! i)) = ZOMBIE)"
    "p_state (f (procs s ! i)) \<in> {RUNNABLE, WAIT} \<longrightarrow> p_pgdir (f (procs s ! i)) \<noteq> 0"
  shows "sane (upd_proc i f s)"
  using assms set_update_subset_insert [of "procs s" i "f (procs s ! i)"] by (auto simp: sane_def upd_proc_def)

lemma sane_slot:
  assumes "sane s" "i < NPROC"
  shows "\<not> (p_type (procs s ! i) = THREAD \<and> p_state (procs s ! i) = ZOMBIE)"
    "p_state (procs s ! i) \<in> {RUNNABLE, WAIT} \<Longrightarrow> p_pgdir (procs s ! i) \<noteq> 0"
  using assms nth_mem [of i "procs s"] by (auto simp: sane_def)

definition kept :: "nat \<Rightarrow> 'a pst_scheme \<Rightarrow> 'a pst_scheme \<Rightarrow> bool" where
  "kept j s s' \<longleftrightarrow> sane s' \<and> slot j s' = slot j s \<and> p_pgdir (procs s' ! j) = p_pgdir (procs s ! j) \<and>
     first s' = first s \<and> singleuser s' = singleuser s"

lemma kept_trans: "kept j s s1 \<Longrightarrow> kept j s1 s2 \<Longrightarrow> kept j s s2"
  by (simp add: kept_def)

lemma kept_upd:
  assumes "sane s" "i \<noteq> j" "sane (upd_proc i f s)"
  shows "kept j s (upd_proc i f s)"
  using assms by (auto simp: kept_def slot_def upd_proc_def)

lemma visit_other:
  fixes s :: "'a kst_scheme"
  assumes "sane s" "i < NPROC" "i \<noteq> j"
  shows "\<exists>go s'. sched_visit i s = Inr (go, s') \<and> kept j s s' \<and> (go \<longrightarrow> curproc s' = Some i)"
proof -
  note sl = sane_slot [OF assms(1,2)]
  have refl: "kept j s s" using assms(1) by (simp add: kept_def)
  have run: "kept j s (upd_proc i (\<lambda>p. p\<lparr>p_state := RUNNING\<rparr>) (s\<lparr>curproc := Some i, cr3 := c\<rparr>))" for c
    using assms(1,3) sane_upd [OF assms(1), where i = i and f = "\<lambda>p. p\<lparr>p_state := RUNNING\<rparr>"]
    by (auto simp: kept_def slot_def upd_proc_def sane_def)
  have tick: "kept j s (upd_proc i (\<lambda>p. p\<lparr>p_waitrounds := p_waitrounds p - 1\<rparr>) s)"
    "kept j s (upd_proc i (\<lambda>p. p\<lparr>p_state := RUNNABLE\<rparr>) s)" if "p_state (procs s ! i) = WAIT"
    using that sl by (auto intro!: kept_upd [OF assms(1,3)] sane_upd [OF assms(1)])
  show ?thesis
  proof (cases "eligible s (procs s ! i)")
    case True
    then show ?thesis
      using sl refl run tick by (cases "p_state (procs s ! i)") (auto simp: sched_visit_def switchuvm_def Let_def)
  qed (use sl refl in \<open>auto simp: sched_visit_def Let_def\<close>)
qed

lemma round_other:
  fixes s :: "'a kst_scheme"
  assumes "quiet j run" "sane s" "set is \<subseteq> {..<NPROC}" "j \<notin> set is"
  shows "\<exists>s'. sched_round run is s = Inr ((), s') \<and> kept j s s'"
  using assms(2-4)
proof (induction "is" arbitrary: s)
  case Nil
  then show ?case by (simp add: kept_def)
next
  case (Cons i "is")
  obtain go s1 where 1: "sched_visit i s = Inr (go, s1)" "kept j s s1" "go \<longrightarrow> curproc s1 = Some i"
    using visit_other [OF Cons.prems(1), of i j] Cons.prems(2,3) by auto
  define s2 where "s2 = (if go then (switchkvm (run s1))\<lparr>curproc := None\<rparr> else s1)"
  have "kept j s1 s2"
  proof (cases go)
    case True
    then have "curproc s1 \<noteq> Some j" "sane s1" using 1(2,3) Cons.prems(3) by (auto simp: kept_def)
    then have "kept j s1 (run s1)" using assms(1) unfolding quiet_def kept_def by blast
    then show ?thesis using True by (simp add: kept_def s2_def switchkvm_def slot_def sane_def)
  qed (use 1(2) in \<open>simp add: s2_def kept_def\<close>)
  then have k: "kept j s s2" using kept_trans [OF 1(2)] by blast
  then obtain s3 where "sched_round run is s2 = Inr ((), s3)" "kept j s2 s3"
    using Cons.IH [of s2] Cons.prems(2,3) by (auto simp: kept_def)
  then show ?case using 1(1) kept_trans [OF k] by (auto simp: s2_def)
qed

lemma sched_round_append:
  "sched_round run (xs @ ys) s = bnd (sched_round run xs s) (\<lambda>(_, s). sched_round run ys s)"
  by (induction xs arbitrary: s) (auto simp: bnd_assoc split_def)

text \<open>One round: the counter of the waiting process goes down, or it becomes runnable.\<close>

lemma round_waiting:
  fixes s :: "'a kst_scheme"
  assumes "quiet j run" "sane s" "j < NPROC" "p_state (procs s ! j) = WAIT" "eligible s (procs s ! j)"
  shows "\<exists>s'. sched_round run [0..<NPROC] s = Inr ((), s') \<and> sane s' \<and> eligible s' (procs s' ! j) \<and>
    (if p_waitrounds (procs s ! j) > 0
     then p_state (procs s' ! j) = WAIT \<and> p_waitrounds (procs s' ! j) = p_waitrounds (procs s ! j) - 1
     else p_state (procs s' ! j) = RUNNABLE)"
proof -
  have split: "[0..<NPROC] = [0..<j] @ j # [Suc j..<NPROC]"
    using upt_add_eq_append [of 0 j "NPROC - j"] upt_conv_Cons [OF assms(3)] assms(3) by simp
  obtain s1 where 1: "sched_round run [0..<j] s = Inr ((), s1)" "kept j s s1"
    using round_other [OF assms(1,2), of "[0..<j]"] assms(3) by (auto simp: subset_iff)
  then have st: "p_state (procs s1 ! j) = WAIT" "p_waitrounds (procs s1 ! j) = p_waitrounds (procs s ! j)"
    "eligible s1 (procs s1 ! j)" "sane s1" using assms(4,5) by (auto simp: kept_def slot_def eligible_def)
  define f where "f = (if p_waitrounds (procs s ! j) > 0 then (\<lambda>p :: proc. p\<lparr>p_waitrounds := p_waitrounds p - 1\<rparr>) else (\<lambda>p. p\<lparr>p_state := RUNNABLE\<rparr>))"
  have v: "sched_visit j s1 = Inr (False, upd_proc j f s1)" using st by (simp add: sched_visit_def f_def Let_def)
  have pg: "p_pgdir (procs s1 ! j) \<noteq> 0" using sane_slot(2) [OF st(4) assms(3)] st(1) by simp
  have s2: "sane (upd_proc j f s1)" using st(1) pg by (intro sane_upd [OF st(4)]) (auto simp: f_def)
  obtain s3 where 3: "sched_round run [Suc j..<NPROC] (upd_proc j f s1) = Inr ((), s3)" "kept j (upd_proc j f s1) s3"
    using round_other [OF assms(1) s2, of "[Suc j..<NPROC]"] by (auto simp: subset_iff)
  have "j < length (procs s1)" using st(4) assms(3) by (simp add: sane_def)
  then have "slot j s3 = (if p_waitrounds (procs s ! j) > 0 then (WAIT, p_waitrounds (procs s ! j) - 1, p_pid (procs s1 ! j), p_uid (procs s1 ! j))
      else (RUNNABLE, p_waitrounds (procs s1 ! j), p_pid (procs s1 ! j), p_uid (procs s1 ! j)))" "sane s3" "first s3 = first s1" "singleuser s3 = singleuser s1"
    using 3(2) st(1,2) by (auto simp: kept_def slot_def f_def upd_proc_def)
  then have "sane s3 \<and> eligible s3 (procs s3 ! j) \<and> (if p_waitrounds (procs s ! j) > 0
     then p_state (procs s3 ! j) = WAIT \<and> p_waitrounds (procs s3 ! j) = p_waitrounds (procs s ! j) - 1
     else p_state (procs s3 ! j) = RUNNABLE)"
    using st(3) by (auto simp: slot_def eligible_def split: if_splits)
  moreover have "sched_round run [0..<NPROC] s = Inr ((), s3)"
    unfolding split sched_round_append using 1(1) v 3(1) by simp
  ultimately show ?thesis by blast
qed


text \<open>An example: slot 0 waits with its counter at 5, and every process that gets the CPU goes to sleep.\<close>

definition sleeper :: "kst \<Rightarrow> kst" where
  "sleeper s = (case curproc s of None \<Rightarrow> s | Some i \<Rightarrow> upd_proc i (\<lambda>p. p\<lparr>p_state := SLEEPING\<rparr>) s)"

definition wait_ex :: kst where
  "wait_ex = kst_on ((fs_on (\<lambda>_. []) [])\<lparr>procs := zero_proc\<lparr>p_state := WAIT, p_waitrounds := 5, p_uid := -1, p_pgdir := 0x80200000\<rparr>
     # replicate 63 zero_proc, first := False\<rparr>) Map.empty"

lemma sleeper_quiet: "quiet 0 sleeper"
proof -
  have "sane (sleeper s)" if "sane s" for s
    using sane_upd [OF that, where f = "\<lambda>p. p\<lparr>p_state := SLEEPING\<rparr>"] that by (auto simp: sleeper_def split: option.split)
  then show ?thesis by (auto simp: quiet_def sleeper_def slot_def upd_proc_def split: option.split)
qed


end
