(* ===== verification/Sysargs.thy ===== *)
theory Sysargs
  imports ProcLife
begin

text \<open>
  System call arguments (\<^verbatim>\<open>syscall.c\<close>): they lie on the user stack and are read through the page table of the calling
  process. A byte that is not mapped is a page fault in the kernel. Where the sources return a pointer to a string in user
  memory the model returns the string.
\<close>

definition umem :: "u32 \<Rightarrow> nat \<Rightarrow> 'a kst_scheme \<Rightarrow> ('a kst_scheme, bytes) outcome" where
  "umem va n s = (case uload (p_pgdir (cur s)) (km s) va n of None \<Rightarrow> Inl (Fault ''page fault'') | Some bs \<Rightarrow> Inr (bs, s))"

definition umem_put :: "u32 \<Rightarrow> bytes \<Rightarrow> 'a kst_scheme \<Rightarrow> ('a kst_scheme, unit) outcome" where
  "umem_put va bs s = (case ustore (p_pgdir (cur s)) (km s) va bs of None \<Rightarrow> Inl (Fault ''page fault'')
     | Some m \<Rightarrow> Inr ((), s\<lparr>km := m\<rparr>))"

definition fetchint :: "u32 \<Rightarrow> 'a kst_scheme \<Rightarrow> ('a kst_scheme, u32 option) outcome" where
  "fetchint addr s = (let sz = p_sz (cur s) in
     if addr \<ge> sz \<or> addr + 4 > sz then Inr (None, s)
     else bnd (umem addr 4 s) (\<lambda>(bs, s). Inr (Some (of_nat (unle32 bs)), s)))"

text \<open>The bytes from \<open>a\<close> up to the first NUL among the next \<open>n\<close>.\<close>

fun fetchstr_loop :: "u32 \<Rightarrow> nat \<Rightarrow> 'a kst_scheme \<Rightarrow> ('a kst_scheme, bytes option) outcome" where
  "fetchstr_loop a 0 s = Inr (None, s)"
| "fetchstr_loop a (Suc n) s = (case uload1 (p_pgdir (cur s)) (km s) a of None \<Rightarrow> Inl (Fault ''page fault'')
     | Some c \<Rightarrow> if c = 0 then Inr (Some [], s)
         else bnd (fetchstr_loop (a + 1) n s) (\<lambda>(r, s). Inr (map_option ((#) c) r, s)))"

definition fetchstr :: "u32 \<Rightarrow> 'a kst_scheme \<Rightarrow> ('a kst_scheme, bytes option) outcome" where
  "fetchstr addr s = (let sz = p_sz (cur s) in
     if addr \<ge> sz then Inr (None, s) else fetchstr_loop addr (unat (sz - addr)) s)"

definition argint :: "nat \<Rightarrow> 'a kst_scheme \<Rightarrow> ('a kst_scheme, u32 option) outcome" where
  "argint n s = fetchint (tf_esp (p_tf (cur s)) + 4 + 4 * of_nat n) s"

definition argptr :: "nat \<Rightarrow> int \<Rightarrow> 'a kst_scheme \<Rightarrow> ('a kst_scheme, u32 option) outcome" where
  "argptr n sz s = bnd (argint n s) (\<lambda>(r, s). Inr (case r of None \<Rightarrow> None
     | Some i \<Rightarrow> if i \<ge> p_sz (cur s) \<or> i + of_int sz > p_sz (cur s) then None else Some i, s))"

definition argstr :: "nat \<Rightarrow> 'a kst_scheme \<Rightarrow> ('a kst_scheme, bytes option) outcome" where
  "argstr n s = bnd (argint n s) (\<lambda>(r, s). case r of None \<Rightarrow> Inr (None, s) | Some addr \<Rightarrow> fetchstr addr s)"

text \<open>A system call that returns -1 unless the argument can be fetched.\<close>

definition with_arg :: "('s, 'x option) outcome \<Rightarrow> ('x \<Rightarrow> 's \<Rightarrow> ('s, int) outcome) \<Rightarrow> ('s, int) outcome" where
  "with_arg a f = bnd a (\<lambda>(r, s). case r of None \<Rightarrow> Inr (-1, s) | Some x \<Rightarrow> f x s)"

section \<open>What a checked argument guarantees\<close>

lemma fetchint_bounds:
  assumes "fetchint addr s = Inr (Some v, s')"
  shows "s' = s" "addr < p_sz (cur s)" "addr + 4 \<le> p_sz (cur s)"
  using assms by (auto simp: fetchint_def umem_def Let_def not_le not_less bnd_eq_Inr split: if_splits option.splits)

lemma argint_same: "argint n s = Inr (r, s') \<Longrightarrow> s' = s"
  by (auto simp: argint_def fetchint_def umem_def Let_def bnd_eq_Inr split: if_splits option.splits)

lemma argptr_bounds:
  assumes "argptr n sz s = Inr (Some p, s')"
  shows "s' = s" "p < p_sz (cur s)" "p + of_int sz \<le> p_sz (cur s)"
proof -
  obtain r s1 where r: "argint n s = Inr (r, s1)" using assms by (auto simp: argptr_def bnd_eq_Inr)
  have "s1 = s" using argint_same [OF r] .
  then show "s' = s" "p < p_sz (cur s)" "p + of_int sz \<le> p_sz (cur s)"
    using assms r by (auto simp: argptr_def not_le not_less split: option.splits if_splits)
qed

text \<open>C22. A pointer argument accepted with a non-negative size lies, with all its bytes, below the size of the process: the sum
  cannot have wrapped around.\<close>

theorem argptr_in_range:
  fixes s :: "'a kst_scheme"
  assumes "argptr n sz s = Inr (Some p, s')" "0 \<le> sz" "sz < 2 ^ 31" "p_sz (cur s) \<le> KERNBASE"
  shows "s' = s \<and> unat p + nat sz \<le> unat (p_sz (cur s))"
proof -
  note b = argptr_bounds [OF assms(1)]
  have "unat p < unat (p_sz (cur s))" "unat (p_sz (cur s)) \<le> 2 ^ 31"
    using b(2) assms(4) by (auto simp: word_less_nat_alt word_le_nat_alt KERNBASE_def)
  moreover have "nat sz < 2 ^ 31" using assms(2,3) by simp
  ultimately have "unat p + nat sz < 2 ^ 32" by simp
  then have "unat (p + of_nat (nat sz)) = unat p + nat sz" by (rule unat_add_of_nat)
  then show ?thesis using b(1,3) assms(2) by (simp add: word_le_nat_alt)
qed

text \<open>C39. A negative size passes the check of a pointer argument: whatever the caller's buffer, a count of \<open>-n\<close> is accepted
  when \<open>n\<close> bytes lie before the pointer.\<close>

theorem argptr_accepts_negative:
  fixes s :: "'a kst_scheme"
  assumes "argint n s = Inr (Some p, s)" "p < p_sz (cur s)" "k \<le> p"
  shows "argptr n (- uint k) s = Inr (Some p, s)"
proof -
  have "p - k \<le> p" using assms(3) by (rule word_sub_le)
  then have "\<not> p - k > p_sz (cur s)" using assms(2) by (meson leD le_less_trans less_imp_le)
  then show ?thesis using assms(1,2) by (simp add: argptr_def not_le)
qed

section \<open>A process with one page of memory, for the examples\<close>

text \<open>The page directory is at \<open>0x80200000\<close>, the page table at \<open>0x80201000\<close> and the page of the process at \<open>0x80202000\<close>;
  the stack pointer is 0, so the first system call argument is the word at 4.\<close>

definition one_page :: "u32 list \<Rightarrow> mem" where
  "one_page ws = put32 (put32 (fold (\<lambda>(i, w) m. put32 m (0x80202004 + 4 * of_nat i) w) (enumerate 0 ws) (\<lambda>_. 0))
     0x80200000 0x201007) 0x80201000 0x202007"

definition uproc :: proc where
  "uproc = zero_proc\<lparr>p_state := RUNNING, p_pid := 3, p_pgdir := 0x80200000, p_sz := 4096\<rparr>"

definition ustate :: "u32 list \<Rightarrow> kst" where
  "ustate ws = (kst_on ((fs_on (\<lambda>_. []) [])\<lparr>procs := [uproc], curproc := Some 0\<rparr>) Map.empty)\<lparr>km := one_page ws\<rparr>"

lemma cur_ustate [simp]: "cur (ustate ws) = uproc" "km (ustate ws) = one_page ws"
  by (simp_all add: cur_def ustate_def)

lemma va2ka_one_page:
  assumes "va < 0x1000" "get32 m 0x80200000 = 0x201007" "get32 m 0x80201000 = 0x202007"
  shows "va2ka 0x80200000 m va = Some (0x80202000 + va)"
proof -
  have n: "unat va < 2 ^ 12" using assms(1) by (simp add: word_less_nat_alt)
  have "drop_bit 22 va = 0" "drop_bit 12 va = 0"
    using n by (simp_all add: word_unat_eq_iff drop_bit_eq_div unat_div_distrib)
  then have "PDX va = 0" "PTX va = 0" by (simp_all add: PDX_def PTX_def)
  moreover have "va AND 0xFFF = va"
  proof -
    have "take_bit 12 va = va" using n by (simp add: take_bit_eq_mod word_unat_eq_iff unat_mod_distrib)
    then show ?thesis by (simp add: take_bit_eq_mask mask_eq_exp_minus_1)
  qed
  ultimately show ?thesis using assms(2,3) by (simp add: va2ka_def PTE_P_def PTE_ADDR_def p2v_def KERNBASE_def)
qed

lemma uproc_sel [simp]: "p_pgdir uproc = 0x80200000" "p_sz uproc = 4096" "tf_esp (p_tf uproc) = 0"
  by (simp_all add: uproc_def zero_proc_def zero_tf_def)

lemma one_page_map [simp]:
  "get32 (one_page [w]) 0x80200000 = 0x201007" "get32 (one_page [w]) 0x80201000 = 0x202007"
  by (simp_all add: one_page_def) (simp add: get32_def put32_def)

lemma argint_example: "argint 0 (ustate [64]) = Inr (Some 64, ustate [64])"
proof -
  have b: "one_page [64] 0x80202004 = 64" "one_page [64] 0x80202005 = 0" "one_page [64] 0x80202006 = 0" "one_page [64] 0x80202007 = 0"
    by (simp_all add: one_page_def put32_def)
  have "uload 0x80200000 (one_page [64]) 4 (Suc (Suc (Suc (Suc 0)))) = Some [64, 0, 0, 0]"
    using b by (simp add: uload1_def va2ka_one_page)
  then have "uload 0x80200000 (one_page [64]) 4 4 = Some [64, 0, 0, 0]" by (simp add: eval_nat_numeral)
  then show ?thesis by (simp add: argint_def fetchint_def umem_def unle32_def)
qed

theorem argptr_in_range_witness:
  "argptr 0 16 (ustate [64]) = Inr (Some 64, ustate [64]) \<and> unat (64 :: u32) + nat 16 \<le> unat (p_sz (cur (ustate [64])))"
proof -
  have "argptr 0 16 (ustate [64]) = Inr (Some 64, ustate [64])" by (simp add: argptr_def argint_example)
  then show ?thesis using argptr_in_range [of 0 16 "ustate [64]"] by (simp add: KERNBASE_def)
qed

theorem argptr_accepts_negative_witness: "argptr 0 (- 64) (ustate [64]) = Inr (Some 64, ustate [64])"
  using argptr_accepts_negative [OF argint_example, of 64] by simp

end
