(* ===== verification/Sysproc.thy ===== *)
theory Sysproc
  imports Sysargs Users
begin

text \<open>
  The system calls on processes and messages (\<^verbatim>\<open>sysproc.c\<close>). A call that blocks ends with the outcome of its
  \<^verbatim>\<open>sleep\<close> or \<^verbatim>\<open>sched\<close>; what it does when it runs again is a definition of its own.
\<close>

definition sys_fork :: "'a kst_scheme \<Rightarrow> ('a kst_scheme, int) outcome" where
  "sys_fork s = fork s"

definition sys_exit :: "'a kst_scheme \<Rightarrow> ('a kst_scheme, int) outcome" where
  "sys_exit s = bnd (exit s) (\<lambda>(_, s). Inr (0, s))"

definition sys_wait :: "'a kst_scheme \<Rightarrow> ('a kst_scheme, int) outcome" where
  "sys_wait s = wait s"

definition sys_kill :: "'a kst_scheme \<Rightarrow> ('a kst_scheme, int) outcome" where
  "sys_kill s = with_arg (argint 0 s) (\<lambda>pid s. Inr (kill (sint pid) s))"

definition sys_sbrk :: "'a kst_scheme \<Rightarrow> ('a kst_scheme, int) outcome" where
  "sys_sbrk s = with_arg (argint 0 s) (\<lambda>n s. let addr = sint (p_sz (cur s)) in
     bnd (growproc (sint n) s) (\<lambda>(r, s). Inr (if r < 0 then -1 else addr, s)))"

text \<open>The loop of \<^verbatim>\<open>sys_sleep\<close>; the comparison is unsigned.\<close>

definition sleep_until :: "u32 \<Rightarrow> u32 \<Rightarrow> 'a kst_scheme \<Rightarrow> ('a kst_scheme, int) outcome" where
  "sleep_until ticks0 n s =
    (if ticks s - ticks0 < n then (if p_killed (cur s) then Inr (-1, s) else sleep ChTicks s) else Inr (0, s))"

definition sys_sleep :: "'a kst_scheme \<Rightarrow> ('a kst_scheme, int) outcome" where
  "sys_sleep s = with_arg (argint 0 s) (\<lambda>n s.
     if n = 0 then bnd (yield s :: ('a kst_scheme, unit) outcome) (\<lambda>(_, s). Inr (if p_killed (cur s) then -1 else 0, s))
     else sleep_until (ticks s) (if sint n > 0 then n * 100 else 5) s)"

definition sys_uptime :: "'a kst_scheme \<Rightarrow> ('a kst_scheme, int) outcome" where
  "sys_uptime s = Inr (sint (ticks s), s)"

definition sys_chuser :: "'a kst_scheme \<Rightarrow> ('a kst_scheme, int) outcome" where
  "sys_chuser s = with_arg (argint 0 s) (\<lambda>uid s. Inr (chuser (sint uid) s))"

definition sys_chsystem :: "'a kst_scheme \<Rightarrow> ('a kst_scheme, int) outcome" where
  "sys_chsystem s = with_arg (argint 0 s) (\<lambda>sid s. Inr (chsystem (sint sid) s))"

definition sys_disallow :: "'a kst_scheme \<Rightarrow> ('a kst_scheme, int) outcome" where
  "sys_disallow s = Inr (disallow s)"

text \<open>\<open>after\<close> is the memory that follows the error string in the process record, \<open>junk\<close> the pointer before it is set.\<close>

definition sys_errstr :: "bytes \<Rightarrow> u32 \<Rightarrow> 'a kst_scheme \<Rightarrow> ('a kst_scheme, int) outcome" where
  "sys_errstr after junk s = with_arg (argint 0 s) (\<lambda>direc s. with_arg (argint 2 s) (\<lambda>n s.
     let nbytes = sint n in
     with_arg (if nbytes > 0 then argptr 1 nbytes s else Inr (Some junk, s)) (\<lambda>buf s.
       if direc = 0 then bnd (rerrstr after nbytes s) (\<lambda>((r, out), s). bnd (umem_put buf out s) (\<lambda>(_, s). Inr (r, s)))
       else if direc = 1 then bnd (umem buf (nat nbytes) s) (\<lambda>(bs, s). werrstr bs nbytes s)
       else Inr (-1, s))))"

definition sys_tfork :: "'a kst_scheme \<Rightarrow> ('a kst_scheme, int) outcome" where
  "sys_tfork s = Inr (tfork s)"

definition sys_clone :: "'a kst_scheme \<Rightarrow> ('a kst_scheme, int) outcome" where
  "sys_clone s = with_arg (argint 0 s) (\<lambda>stk s. clone stk s)"

definition SIZEOF_MESSAGE :: u32 where "SIZEOF_MESSAGE = 12"

definition sys_sendmsg :: "'a kst_scheme \<Rightarrow> ('a kst_scheme, int) outcome" where
  "sys_sendmsg s = with_arg (argint 0 s) (\<lambda>pid s. with_arg (argint 2 s) (\<lambda>n s. with_arg (argptr 1 (sint n) s) (\<lambda>msgdata s.
     case findpid (sint pid) s of None \<Rightarrow> Inr (0, s)
     | Some p \<Rightarrow>
       bnd (kmalloc SIZEOF_MESSAGE s) (\<lambda>(msg, s).
         if msg = 0 then Inl (Fault ''sys_sendmsg: no memory'')
         else bnd (kmallocz n s) (\<lambda>(data, s).
         bnd (umem msgdata (unat n) s) (\<lambda>(bs, s).
           let s = (upd_msg msg \<lparr>m_size = n, m_data = data, m_next = 0\<rparr> s)\<lparr>km := store (km s) data bs\<rparr> in
           bnd (psendmsg p msg s) (\<lambda>(_, s). Inr (0, s))))))))"

definition sys_recvwait :: "'a kst_scheme \<Rightarrow> ('a kst_scheme, int) outcome" where
  "sys_recvwait s = bnd (precvwait s) (\<lambda>(sz, s). Inr (sint sz, s))"

text \<open>The part of \<^verbatim>\<open>sys_recvmsg\<close> after the message has been taken from the mailbox.\<close>

definition recvmsg_copy :: "u32 \<Rightarrow> u32 \<Rightarrow> u32 \<Rightarrow> 'a kst_scheme \<Rightarrow> ('a kst_scheme, int) outcome" where
  "recvmsg_copy msgbuf n msg s = (case msgs s msg of None \<Rightarrow> Inl (Fault ''sys_recvmsg: no message'')
     | Some m \<Rightarrow>
       let cpysize = (if m_size m < n then m_size m else n) in
       bnd (umem_put msgbuf (map (\<lambda>i. km s (m_data m + of_nat i)) [0..<unat cpysize]) s) (\<lambda>(_, s).
       bnd (kmfree (m_data m) s) (\<lambda>(_, s).
       bnd (kmfree msg (s\<lparr>msgs := (msgs s)(msg := None)\<rparr>)) (\<lambda>(_, s). Inr (0, s)))))"

definition sys_recvmsg :: "'a kst_scheme \<Rightarrow> ('a kst_scheme, int) outcome" where
  "sys_recvmsg s = with_arg (argint 1 s) (\<lambda>n s. with_arg (argptr 0 (sint n) s) (\<lambda>msgbuf s.
     bnd (precvmsg s) (\<lambda>(msg, s). recvmsg_copy msgbuf n msg s)))"

end
