(* ===== verification/Sysfile.thy ===== *)
theory Sysfile
  imports Sysargs
begin

text \<open>
  The system calls on files (\<^verbatim>\<open>sysfile.c\<close>) and \<^verbatim>\<open>chroot\<close> (\<^verbatim>\<open>syschroot.c\<close>). The device switch and what an
  uninitialised local holds are arguments.
\<close>

section \<open>File descriptors\<close>

definition argfd :: "nat \<Rightarrow> 'a kst_scheme \<Rightarrow> ('a kst_scheme, (nat \<times> nat) option) outcome" where
  "argfd n s = bnd (argint n s) (\<lambda>(r, s). case r of None \<Rightarrow> Inr (None, s)
     | Some v \<Rightarrow> let fd = sint v; bad = Inr (None, snd (projr (werrstr (bytes_of ''the file is not open'') 20 s))) in
       if fd < 0 \<or> fd \<ge> int NOFILE then bad
       else case p_ofile (cur s) ! nat fd of None \<Rightarrow> bad | Some f \<Rightarrow> Inr (Some (nat fd, f), s))"

definition fdalloc :: "nat \<Rightarrow> 'a kst_scheme \<Rightarrow> int \<times> 'a kst_scheme" where
  "fdalloc f s = (case find_index (\<lambda>x. x = None) (p_ofile (cur s)) of
     None \<Rightarrow> (-1, seterr ''cannot allocate file'' s)
   | Some fd \<Rightarrow> (int fd, upd_cur (\<lambda>p. p\<lparr>p_ofile := (p_ofile p)[fd := Some f]\<rparr>) s))"

definition sys_dup :: "'a kst_scheme \<Rightarrow> ('a kst_scheme, int) outcome" where
  "sys_dup s = with_arg (argfd 0 s) (\<lambda>(_, f) s. let (fd, s) = fdalloc f s in
     if fd < 0 then Inr (-1, s) else bnd (filedup f s) (\<lambda>(_, s). Inr (fd, s)))"

definition sys_read :: "'a kst_scheme devsw list \<Rightarrow> 'a kst_scheme \<Rightarrow> ('a kst_scheme, int) outcome" where
  "sys_read devsw s = with_arg (argfd 0 s) (\<lambda>(_, f) s. with_arg (argint 2 s) (\<lambda>n s. with_arg (argptr 1 (sint n) s) (\<lambda>p s.
     bnd (fileread devsw f (sint n) s) (\<lambda>((r, bs), s). bnd (umem_put p bs s) (\<lambda>(_, s). Inr (r, s))))))"

definition sys_write :: "'a kst_scheme devsw list \<Rightarrow> 'a kst_scheme \<Rightarrow> ('a kst_scheme, int) outcome" where
  "sys_write devsw s = with_arg (argfd 0 s) (\<lambda>(_, f) s. with_arg (argint 2 s) (\<lambda>n s. with_arg (argptr 1 (sint n) s) (\<lambda>p s.
     bnd (umem p (nat (sint n)) s) (\<lambda>(bs, s). filewrite devsw f bs (sint n) s))))"

text \<open>Both the distance and the direction come from the third argument.\<close>

definition sys_seek :: "'a kst_scheme \<Rightarrow> ('a kst_scheme, int) outcome" where
  "sys_seek s = with_arg (argfd 0 s) (\<lambda>(_, f) s. with_arg (argint 2 s) (\<lambda>n s. with_arg (argint 2 s) (\<lambda>dir s.
     Inr (fileseek f (sint n) (sint dir) s))))"

definition sys_close :: "'a kst_scheme \<Rightarrow> ('a kst_scheme, int) outcome" where
  "sys_close s = with_arg (argfd 0 s) (\<lambda>(fd, f) s.
     bnd (fileclose f (upd_cur (\<lambda>p. p\<lparr>p_ofile := (p_ofile p)[fd := None]\<rparr>) s)) (\<lambda>(_, s). Inr (0, s)))"

text \<open>The 24 bytes of a \<^verbatim>\<open>struct stat\<close>, with the bytes between the fields and the last field as they were.\<close>

definition stat_bytes :: "stat \<Rightarrow> bytes \<Rightarrow> bytes" where
  "stat_bytes st old = le_s16 (st_type st) @ slice 2 2 old @ le32 (st_dev st) @ le32 (st_ino st) @ le_s16 (st_nlink st) @
     slice 14 2 old @ le32 (st_size st) @ le_s16 (st_owner st) @ [st_perms st] @ slice 23 1 old"

definition stat0 :: stat where
  "stat0 = \<lparr>st_type = 0, st_dev = 0, st_ino = 0, st_nlink = 0, st_size = 0, st_owner = 0, st_perms = 0, st_attrib = 0\<rparr>"

definition sys_fstat :: "'a kst_scheme \<Rightarrow> ('a kst_scheme, int) outcome" where
  "sys_fstat s = with_arg (argfd 0 s) (\<lambda>(_, f) s. with_arg (argptr 1 24 s) (\<lambda>p s.
     bnd (filestat f stat0 s) (\<lambda>((r, st), s).
       if r < 0 then Inr (r, s)
       else bnd (umem p 24 s) (\<lambda>(old, s). bnd (umem_put p (stat_bytes st old) s) (\<lambda>(_, s). Inr (r, s))))))"

section \<open>Links\<close>

definition sys_link_bad :: "nat \<Rightarrow> 'a kst_scheme \<Rightarrow> ('a kst_scheme, int) outcome" where
  "sys_link_bad ip s =
    bnd (ilock (Some ip) s) (\<lambda>(_, s).
    bnd (iupdate ip (upd_inode ip (\<lambda>x. x\<lparr>i_nlink := i_nlink x - 1\<rparr>) s)) (\<lambda>(_, s).
    bnd (iunlockput ip s) (\<lambda>(_, s).
    bnd (end_op (i_dev (inodes s ! ip)) s) (\<lambda>(_, s). Inr (-1, s)))))"

definition sys_link :: "'a kst_scheme devsw list \<Rightarrow> bytes \<Rightarrow> 'a kst_scheme \<Rightarrow> ('a kst_scheme, int) outcome" where
  "sys_link devsw junk s = with_arg (argstr 0 s) (\<lambda>old s. with_arg (argstr 1 s) (\<lambda>new s.
     bnd (namei_direct devsw junk old s) (\<lambda>(r, s). case r of None \<Rightarrow> Inr (-1, seterr ''cannot find file'' s)
     | Some ip \<Rightarrow>
       bnd (begin_op (i_dev (inodes s ! ip)) s) (\<lambda>(_, s).
       bnd (ilock (Some ip) s) (\<lambda>(_, s).
       if i_type (inodes s ! ip) = T_DIR
       then bnd (iunlockput ip s) (\<lambda>(_, s). bnd (end_op (i_dev (inodes s ! ip)) s) (\<lambda>(_, s).
         Inr (-1, seterr ''cannot make links of directories'' s)))
       else bnd (iupdate ip (upd_inode ip (\<lambda>x. x\<lparr>i_nlink := i_nlink x + 1\<rparr>) s)) (\<lambda>(_, s).
         let s = iunlock (Some ip) s in
         bnd (nameiparent devsw new junk s) (\<lambda>((r, name), s). case r of
           None \<Rightarrow> sys_link_bad ip (seterr ''target inode has no parent'' s)
         | Some dp \<Rightarrow>
           bnd (ilock (Some dp) s) (\<lambda>(_, s).
           bnd (if i_dev (inodes s ! dp) \<noteq> i_dev (inodes s ! ip) then Inr (-1, s)
                else dirlink devsw dp name (i_inum (inodes s ! ip)) s) (\<lambda>(r, s).
           bnd (iunlockput dp s) (\<lambda>(_, s).
             if r < 0 then sys_link_bad ip (seterr ''can not link across devices'' s)
             else bnd (iput ip s) (\<lambda>(_, s). bnd (end_op (i_dev (inodes s ! ip)) s) (\<lambda>(_, s). Inr (0, s)))))))))))))"

fun isdirempty_loop :: "'a kst_scheme devsw list \<Rightarrow> nat \<Rightarrow> nat list \<Rightarrow> 'a kst_scheme \<Rightarrow> ('a kst_scheme, bool) outcome" where
  "isdirempty_loop devsw dp [] s = Inr (True, s)"
| "isdirempty_loop devsw dp (off # offs) s = bnd (readi devsw dp off 16 s) (\<lambda>((r, de), s).
     if r \<noteq> 16 then Inl (Panic ''isdirempty: readi'')
     else if de_inum de \<noteq> 0 then Inr (False, s) else isdirempty_loop devsw dp offs s)"

definition isdirempty :: "'a kst_scheme devsw list \<Rightarrow> nat \<Rightarrow> 'a kst_scheme \<Rightarrow> ('a kst_scheme, bool) outcome" where
  "isdirempty devsw dp s = isdirempty_loop devsw dp (drop 2 (dir_offs (i_size (inodes s ! dp)))) s"

definition sys_unlink_bad :: "nat \<Rightarrow> 'a kst_scheme \<Rightarrow> ('a kst_scheme, int) outcome" where
  "sys_unlink_bad dp s = bnd (iunlockput dp s) (\<lambda>(_, s).
     bnd (end_op (i_dev (inodes s ! dp)) s) (\<lambda>(_, s). Inr (-1, s)))"

text \<open>The removal of the entry at \<open>off\<close>, once all checks have passed.\<close>

definition unlink_entry :: "'a kst_scheme devsw list \<Rightarrow> nat \<Rightarrow> nat \<Rightarrow> nat \<Rightarrow> 'a kst_scheme \<Rightarrow> ('a kst_scheme, int) outcome" where
  "unlink_entry devsw dp ip off s =
    bnd (writei devsw dp (replicate 16 0) off 16 s) (\<lambda>(r, s).
    if r \<noteq> 16 then Inl (Panic ''unlink: writei'')
    else bnd (if i_type (inodes s ! ip) = T_DIR
              then iupdate dp (upd_inode dp (\<lambda>x. x\<lparr>i_nlink := i_nlink x - 1\<rparr>) s) else Inr ((), s)) (\<lambda>(_, s).
    bnd (iunlockput dp s) (\<lambda>(_, s).
    bnd (iupdate ip (upd_inode ip (\<lambda>x. x\<lparr>i_nlink := i_nlink x - 1\<rparr>) s)) (\<lambda>(_, s).
    bnd (iunlockput ip s) (\<lambda>(_, s).
    bnd (end_op (i_dev (inodes s ! dp)) s) (\<lambda>(_, s). Inr (0, s)))))))"

definition sys_unlink :: "'a kst_scheme devsw list \<Rightarrow> bytes \<Rightarrow> 'a kst_scheme \<Rightarrow> ('a kst_scheme, int) outcome" where
  "sys_unlink devsw junk s = with_arg (argstr 0 s) (\<lambda>path s.
     bnd (nameiparent_direct devsw path junk s) (\<lambda>((r, name), s). case r of
       None \<Rightarrow> Inr (-1, seterr ''target inode has no parent'' s)
     | Some dp \<Rightarrow>
       bnd (begin_op (i_dev (inodes s ! dp)) s) (\<lambda>(_, s).
       bnd (ilock (Some dp) s) (\<lambda>(_, s).
       if namecmp name (bytes_of ''.'') = 0 \<or> namecmp name (bytes_of ''..'') = 0
       then sys_unlink_bad dp (seterr ''unable to create links . and ..'' s)
       else bnd (dirlookup devsw dp name s) (\<lambda>(r, s). case r of
         None \<Rightarrow> sys_unlink_bad dp (seterr ''cannot find file'' s)
       | Some (ip, off) \<Rightarrow>
         bnd (ilock (Some ip) s) (\<lambda>(_, s).
         if checkinodeperm ip OP_UNLINK s \<noteq> 0 then sys_unlink_bad dp (seterr ''cannot unlink file'' s)
         else if i_nlink (inodes s ! ip) < 1 then Inl (Panic ''unlink: nlink < 1'')
         else bnd (if i_type (inodes s ! ip) = T_DIR then isdirempty devsw ip s else Inr (True, s)) (\<lambda>(empty, s).
           if \<not> empty then bnd (iunlockput ip s) (\<lambda>(_, s). sys_unlink_bad dp (seterr ''directory not empty'' s))
           else unlink_entry devsw dp ip off s)))))))"

section \<open>Creating and opening\<close>

definition O_RDONLY :: u32 where "O_RDONLY = 0"
definition O_WRONLY :: u32 where "O_WRONLY = 1"
definition O_RDWR :: u32 where "O_RDWR = 2"
definition O_CREATE :: u32 where "O_CREATE = 0x200"

text \<open>A short: the low 16 bits, as a signed number.\<close>

definition short_of :: "int \<Rightarrow> int" where "short_of x = s16 (nat (x mod 2 ^ 16))"

text \<open>The entries of a new directory.\<close>

definition create_dots :: "'a kst_scheme devsw list \<Rightarrow> nat \<Rightarrow> nat \<Rightarrow> 'a kst_scheme \<Rightarrow> ('a kst_scheme, bool) outcome" where
  "create_dots devsw dp ip s =
    bnd (iupdate dp (upd_inode dp (\<lambda>x. x\<lparr>i_nlink := i_nlink x + 1\<rparr>) s)) (\<lambda>(_, s).
    bnd (dirlink devsw ip (bytes_of ''.'') (i_inum (inodes s ! ip)) s) (\<lambda>(r, s).
      if r < 0 then Inr (False, s)
      else bnd (dirlink devsw ip (bytes_of ''..'') (i_inum (inodes s ! dp)) s) (\<lambda>(r, s). Inr (\<not> r < 0, s))))"

definition create :: "'a kst_scheme devsw list \<Rightarrow> bytes \<Rightarrow> bytes \<Rightarrow> int \<Rightarrow> int \<Rightarrow> int \<Rightarrow> bool \<Rightarrow> 'a kst_scheme
    \<Rightarrow> ('a kst_scheme, nat option) outcome" where
  "create devsw junk path type major minor beginop s =
    bnd (nameiparent_direct devsw path junk s) (\<lambda>((r, name), s). case r of None \<Rightarrow> Inr (None, s)
    | Some dp \<Rightarrow>
      bnd (if beginop then begin_op (i_dev (inodes s ! dp)) s else Inr ((), s)) (\<lambda>(_, s).
      bnd (ilock (Some dp) s) (\<lambda>(_, s).
      bnd (dirlookup devsw dp name s) (\<lambda>(r, s). case r of
        Some (ip, off) \<Rightarrow>
          bnd (iunlockput dp s) (\<lambda>(_, s).
          bnd (ilock (Some ip) s) (\<lambda>(_, s).
            if type = T_FILE \<and> i_type (inodes s ! ip) = T_FILE then Inr (Some ip, s)
            else bnd (iunlockput ip s) (\<lambda>(_, s). Inr (None, s))))
      | None \<Rightarrow>
          bnd (ialloc (i_dev (inodes s ! dp)) type s) (\<lambda>(r, s). case r of
            None \<Rightarrow> Inr (None, seterr ''filesystem full: could not alloc inode'' s)
          | Some ip \<Rightarrow>
            bnd (ilock (Some ip) s) (\<lambda>(_, s).
            bnd (iupdate ip (upd_inode ip (\<lambda>x. x\<lparr>i_major := short_of major, i_minor := short_of minor, i_nlink := 1,
                  i_owner := short_of (p_uid (cur s)), i_perms := W_READ OR U_READ OR U_WRITE\<rparr>) s)) (\<lambda>(_, s).
            bnd (if type = T_DIR then create_dots devsw dp ip s else Inr (True, s)) (\<lambda>(ok, s).
              if \<not> ok then Inr (None, seterr ''unable to create links . and ..'' s)
              else bnd (dirlink devsw dp name (i_inum (inodes s ! ip)) s) (\<lambda>(r, s).
                if r < 0 then Inl (Panic ''create: dirlink'')
                else bnd (iunlockput dp s) (\<lambda>(_, s). Inr (Some ip, s)))))))))))"

definition canread :: "file_t \<Rightarrow> u32 \<Rightarrow> 'a kst_scheme \<Rightarrow> bool" where
  "canread f omode s \<longleftrightarrow> checkfileperm f OP_READ s = 0 \<and>
     (\<not> omode AND O_WRONLY = O_WRONLY \<or> omode AND O_RDWR = O_RDWR)"

definition canwrite :: "file_t \<Rightarrow> u32 \<Rightarrow> 'a kst_scheme \<Rightarrow> bool" where
  "canwrite f omode s \<longleftrightarrow> checkfileperm f OP_WRITE s = 0 \<and>
     (omode AND O_WRONLY = O_WRONLY \<or> omode AND O_RDWR = O_RDWR)"

text \<open>The end of \<^verbatim>\<open>sys_open\<close>, with the inode locked.\<close>

definition open_fd :: "nat \<Rightarrow> u32 \<Rightarrow> 'a kst_scheme \<Rightarrow> ('a kst_scheme, int) outcome" where
  "open_fd ip omode s =
    (let (r, s) = filealloc s; (fd, s) = (case r of None \<Rightarrow> (-1, s) | Some f \<Rightarrow> fdalloc f s) in
     case r of
       Some f \<Rightarrow>
         if fd < 0
         then bnd (fileclose f s) (\<lambda>(_, s). bnd (iunlockput ip s) (\<lambda>(_, s). bnd (end_op (i_dev (inodes s ! ip)) s) (\<lambda>(_, s).
           Inr (-1, seterr ''cannot allocate file'' s))))
         else bnd (end_op (i_dev (inodes s ! ip)) (iunlock (Some ip) s)) (\<lambda>(_, s).
           let s = upd_file f (\<lambda>x. x\<lparr>f_type := FD_INODE, f_ip := Some ip, f_off := 0\<rparr>) s;
               s = upd_file f (\<lambda>x. x\<lparr>f_readable := canread x omode s\<rparr>) s in
           Inr (fd, upd_file f (\<lambda>x. x\<lparr>f_writable := canwrite x omode s\<rparr>) s))
     | None \<Rightarrow> bnd (iunlockput ip s) (\<lambda>(_, s). bnd (end_op (i_dev (inodes s ! ip)) s) (\<lambda>(_, s).
           Inr (-1, seterr ''cannot allocate file'' s))))"

definition sys_open :: "'a kst_scheme devsw list \<Rightarrow> bytes \<Rightarrow> 'a kst_scheme \<Rightarrow> ('a kst_scheme, int) outcome" where
  "sys_open devsw junk s = with_arg (argstr 0 s) (\<lambda>path s. with_arg (argint 1 s) (\<lambda>omode s.
     if omode AND O_CREATE \<noteq> 0
     then bnd (create devsw junk path T_FILE 0 0 True s) (\<lambda>(r, s). case r of
       None \<Rightarrow> Inr (-1, seterr ''cannot open file'' s) | Some ip \<Rightarrow> open_fd ip omode s)
     else bnd (namei_direct devsw junk path s) (\<lambda>(r, s). case r of
       None \<Rightarrow> Inr (-1, seterr ''cannot find file'' s)
     | Some ip \<Rightarrow>
       bnd (begin_op (i_dev (inodes s ! ip)) s) (\<lambda>(_, s).
       bnd (ilock (Some ip) s) (\<lambda>(_, s).
         if checkinodeperm ip OP_OPEN s \<noteq> 0
         then bnd (iunlockput ip (seterr ''not allowed'' s)) (\<lambda>(_, s). bnd (end_op (i_dev (inodes s ! ip)) s) (\<lambda>(_, s). Inr (-1, s)))
         else if i_type (inodes s ! ip) = T_DIR \<and> omode \<noteq> O_RDONLY
         then bnd (iunlockput ip s) (\<lambda>(_, s). bnd (end_op (i_dev (inodes s ! ip)) s) (\<lambda>(_, s).
           Inr (-1, seterr ''file is unwriteable'' s)))
         else open_fd ip omode s)))))"

text \<open>The failure exit of \<^verbatim>\<open>sys_mkdir\<close>, \<^verbatim>\<open>sys_mknod\<close> and \<^verbatim>\<open>sys_chdir\<close>: \<open>ip\<close> is the local variable, which holds
  anything if an argument could not be fetched.\<close>

definition create_failed :: "nat option \<Rightarrow> string \<Rightarrow> 'a kst_scheme \<Rightarrow> ('a kst_scheme, int) outcome" where
  "create_failed ip err s = bnd (case ip of None \<Rightarrow> Inr ((), s) | Some i \<Rightarrow> end_op (i_dev (inodes s ! i)) s) (\<lambda>(_, s).
     Inr (-1, seterr err s))"

definition put_created :: "nat \<Rightarrow> 'a kst_scheme \<Rightarrow> ('a kst_scheme, int) outcome" where
  "put_created ip s = bnd (iunlockput ip s) (\<lambda>(_, s). bnd (end_op (i_dev (inodes s ! ip)) s) (\<lambda>(_, s). Inr (0, s)))"

definition sys_mkdir :: "'a kst_scheme devsw list \<Rightarrow> bytes \<Rightarrow> nat option \<Rightarrow> 'a kst_scheme \<Rightarrow> ('a kst_scheme, int) outcome" where
  "sys_mkdir devsw junk ip0 s = bnd (argstr 0 s) (\<lambda>(r, s). case r of
     None \<Rightarrow> create_failed ip0 ''cannot create file'' s
   | Some path \<Rightarrow> bnd (create devsw junk path T_DIR 0 0 True s) (\<lambda>(r, s). case r of
       None \<Rightarrow> create_failed None ''cannot create file'' s | Some ip \<Rightarrow> put_created ip s))"

definition sys_mknod :: "'a kst_scheme devsw list \<Rightarrow> bytes \<Rightarrow> nat option \<Rightarrow> 'a kst_scheme \<Rightarrow> ('a kst_scheme, int) outcome" where
  "sys_mknod devsw junk ip0 s =
    (if p_uid (cur s) > -1 then Inr (-1, seterr ''not allowed'' s)
     else bnd (argstr 0 s) (\<lambda>(path, s).
       bnd (if path = None then Inr (None, s) else argint 1 s) (\<lambda>(major, s).
       bnd (if major = None then Inr (None, s) else argint 2 s) (\<lambda>(minor, s).
         case minor of None \<Rightarrow> create_failed ip0 ''cannot create file'' s
         | Some mi \<Rightarrow>
           bnd (create devsw junk (the path) T_DEV (sint (the major)) (sint mi) True s) (\<lambda>(r, s). case r of
             None \<Rightarrow> create_failed None ''cannot create file'' s
           | Some ip \<Rightarrow> put_created ip (upd_inode ip (\<lambda>x. x\<lparr>i_perms := U_READ OR U_WRITE\<rparr>) s))))))"

definition sys_chdir :: "'a kst_scheme devsw list \<Rightarrow> bytes \<Rightarrow> nat option \<Rightarrow> 'a kst_scheme \<Rightarrow> ('a kst_scheme, int) outcome" where
  "sys_chdir devsw junk ip0 s = bnd (argstr 0 s) (\<lambda>(r, s). case r of
     None \<Rightarrow> create_failed ip0 ''cannot find file'' s
   | Some path \<Rightarrow> bnd (namei_direct devsw junk path s) (\<lambda>(r, s). case r of
       None \<Rightarrow> create_failed None ''cannot find file'' s
     | Some ip \<Rightarrow>
       bnd (begin_op (i_dev (inodes s ! ip)) s) (\<lambda>(_, s).
       bnd (ilock (Some ip) s) (\<lambda>(_, s).
         if i_type (inodes s ! ip) \<noteq> T_DIR
         then bnd (iunlockput ip s) (\<lambda>(_, s). bnd (end_op (i_dev (inodes s ! ip)) s) (\<lambda>(_, s).
           Inr (-1, seterr ''file is the wrong type'' s)))
         else case p_cwd (cur s) of None \<Rightarrow> Inl (Fault ''sys_chdir: no current directory'')
         | Some cwd \<Rightarrow>
           bnd (iput cwd (iunlock (Some ip) s)) (\<lambda>(_, s).
           bnd (end_op (i_dev (inodes s ! ip)) s) (\<lambda>(_, s).
             Inr (0, upd_cur (\<lambda>p. p\<lparr>p_cwd := Some ip\<rparr>) s)))))))"

section \<open>Pipes and permissions\<close>

definition sys_pipe :: "'a kst_scheme \<Rightarrow> ('a kst_scheme, int) outcome" where
  "sys_pipe s = with_arg (argptr 0 8 s) (\<lambda>fd s. bnd (pipealloc s) (\<lambda>(r, s). case r of None \<Rightarrow> Inr (-1, s)
     | Some (rfile, wfile) \<Rightarrow>
       let (fd0, s) = fdalloc rfile s; (fd1, s) = (if fd0 < 0 then (-1, s) else fdalloc wfile s) in
       if fd0 < 0 \<or> fd1 < 0
       then let s = (if fd0 \<ge> 0 then upd_cur (\<lambda>p. p\<lparr>p_ofile := (p_ofile p)[nat fd0 := None]\<rparr>) s else s) in
         bnd (fileclose rfile s) (\<lambda>(_, s). bnd (fileclose wfile s) (\<lambda>(_, s). Inr (-1, s)))
       else bnd (umem_put fd (le32 (nat fd0) @ le32 (nat fd1)) s) (\<lambda>(_, s). Inr (0, s))))"

definition sys_chperms :: "'a kst_scheme devsw list \<Rightarrow> bytes \<Rightarrow> 'a kst_scheme \<Rightarrow> ('a kst_scheme, int) outcome" where
  "sys_chperms devsw junk s = with_arg (argstr 0 s) (\<lambda>fname s. with_arg (argint 1 s) (\<lambda>rmode s. with_arg (argint 2 s) (\<lambda>perms s.
     bnd (namei_direct devsw junk fname s) (\<lambda>(r, s). case r of None \<Rightarrow> Inr (-1, seterr ''cannot find file'' s)
     | Some ip \<Rightarrow>
       bnd (begin_op (i_dev (inodes s ! ip)) s) (\<lambda>(_, s).
       bnd (ilock (Some ip) s) (\<lambda>(_, s).
         if rmode = 0
         then let rval = int (unat (i_perms (inodes s ! ip))) in
           bnd (iunlockput ip s) (\<lambda>(_, s). bnd (end_op (i_dev (inodes s ! ip)) s) (\<lambda>(_, s). Inr (rval, s)))
         else if rmode = 1
         then if i_owner (inodes s ! ip) \<noteq> p_uid (cur s) \<and> singleuser s = 0 \<and> p_uid (cur s) \<noteq> -1
           then bnd (iunlockput ip (seterr ''not allowed'' s)) (\<lambda>(_, s). bnd (end_op (i_dev (inodes s ! ip)) s) (\<lambda>(_, s). Inr (-1, s)))
           else bnd (iupdate ip (upd_inode ip (\<lambda>x. x\<lparr>i_perms := ucast perms\<rparr>) s)) (\<lambda>(_, s).
             bnd (iunlockput ip s) (\<lambda>(_, s). bnd (end_op (i_dev (inodes s ! ip)) s) (\<lambda>(_, s). Inr (0, s))))
         else bnd (iunlockput ip s) (\<lambda>(_, s). bnd (end_op (i_dev (inodes s ! ip)) s) (\<lambda>(_, s).
             Inr (-1, seterr ''unknown arguments given to system call'' s)))))))))"

definition sys_fssync :: "'a kst_scheme \<Rightarrow> ('a kst_scheme, int) outcome" where
  "sys_fssync s = Inr (0, s)"

section \<open>Changing the root\<close>

text \<open>The path as \<^verbatim>\<open>chroot\<close> keeps it: with a slash at the end. \<open>junk\<close> is what the local buffer held before.\<close>

definition chroot_path :: "bytes \<Rightarrow> bytes \<Rightarrow> bytes" where
  "chroot_path junk path =
    (let pathlen = length path + 1; b = patch 0 (path @ [0]) junk in
     if b ! (pathlen - 2) \<noteq> slash then b[pathlen - 1 := slash, pathlen := 0] else b)"

definition chroot :: "'a kst_scheme devsw list \<Rightarrow> bytes \<Rightarrow> bytes \<Rightarrow> bytes \<Rightarrow> 'a kst_scheme \<Rightarrow> ('a kst_scheme, int) outcome" where
  "chroot devsw junk pathbf path s =
    (if p_injail (cur s) \<or> p_uid (cur s) \<noteq> -1 \<or> hd0 path \<noteq> slash then Inr (-1, s)
     else bnd (namei_direct devsw junk path s) (\<lambda>(r, s). case r of None \<Rightarrow> Inr (-1, s)
     | Some rp \<Rightarrow>
       if i_inum (inodes s ! rp) = i_inum (inodes s ! the (rootdir s))
       then Inr (0, upd_cur (\<lambda>p. p\<lparr>p_rootdir := None\<rparr>) s)
       else bnd (begin_op (i_dev (inodes s ! rp)) s) (\<lambda>(_, s).
         bnd (ilock (Some rp) s) (\<lambda>(_, s).
           if length path + 1 \<ge> 122 \<or> i_type (inodes s ! rp) \<noteq> T_DIR
           then bnd (iunlockput rp s) (\<lambda>(_, s). bnd (end_op (i_dev (inodes s ! rp)) s) (\<lambda>(_, s). Inr (-1, s)))
           else let s = upd_cur (\<lambda>p. p\<lparr>p_rdirpath := safestrcpy (p_rdirpath p) (chroot_path pathbf path) 128\<rparr>) s in
             bnd (case p_rootdir (cur s) of None \<Rightarrow> Inr ((), s) | Some old \<Rightarrow> iput old s) (\<lambda>(_, s).
               let (d, s) = idup (Some rp) s;
                   s = upd_cur (\<lambda>p. p\<lparr>p_rootdir := d, p_cwd := d, p_injail := True\<rparr>) s in
               bnd (end_op (i_dev (inodes s ! rp)) s) (\<lambda>(_, s). Inr (0, s)))))))"

definition sys_chroot :: "'a kst_scheme devsw list \<Rightarrow> bytes \<Rightarrow> bytes \<Rightarrow> 'a kst_scheme \<Rightarrow> ('a kst_scheme, int) outcome" where
  "sys_chroot devsw junk pathbf s = with_arg (argstr 0 s) (\<lambda>path s. chroot devsw junk pathbf path s)"

text \<open>With a root of its own a process gets the path below it; without one the function duplicates a null string.\<close>

definition vroot2root :: "bytes \<Rightarrow> bytes \<Rightarrow> 'a kst_scheme \<Rightarrow> ('a kst_scheme, bytes) outcome" where
  "vroot2root pathbuf opath s =
    (if p_rootdir (cur s) = None then Inl (Fault ''vroot2root: strdup(nil)'')
     else let rdirlen = strlen (p_rdirpath (cur s));
              buf = safestrcpy pathbuf (p_rdirpath (cur s)) 256;
              path = (if hd0 opath = slash then tl opath else opath) in
       Inr (cstr (take rdirlen buf @ safestrcpy (drop rdirlen buf) path 256), s))"

end
