(* ===== verification/Exec.thy ===== *)
theory Exec
  imports Sysfile
begin

text \<open>
  Running a program (\<^verbatim>\<open>exec.c\<close>): the ELF image is loaded into a new address space, the arguments are pushed on its stack,
  and the process switches to it. The strings of the arguments have been read from the old address space.
\<close>

definition MAXARG :: nat where "MAXARG = 32"
definition ELF_MAGIC :: u32 where "ELF_MAGIC = 0x464C457F"

text \<open>The fields of the ELF and program headers that \<^verbatim>\<open>exec\<close> reads.\<close>

definition elf_magic :: "bytes \<Rightarrow> u32" where "elf_magic h = of_nat (unle32 (slice 0 4 h))"
definition elf_entry :: "bytes \<Rightarrow> u32" where "elf_entry h = of_nat (unle32 (slice 24 4 h))"
definition elf_phoff :: "bytes \<Rightarrow> nat" where "elf_phoff h = unle32 (slice 28 4 h)"
definition elf_phnum :: "bytes \<Rightarrow> nat" where "elf_phnum h = unle16 (slice 44 2 h)"

definition ph_type :: "bytes \<Rightarrow> nat" where "ph_type h = unle32 (slice 0 4 h)"
definition ph_off :: "bytes \<Rightarrow> u32" where "ph_off h = of_nat (unle32 (slice 4 4 h))"
definition ph_vaddr :: "bytes \<Rightarrow> u32" where "ph_vaddr h = of_nat (unle32 (slice 8 4 h))"
definition ph_filesz :: "bytes \<Rightarrow> u32" where "ph_filesz h = of_nat (unle32 (slice 16 4 h))"
definition ph_memsz :: "bytes \<Rightarrow> u32" where "ph_memsz h = of_nat (unle32 (slice 20 4 h))"

text \<open>One program segment; the new size of the process, or the error string.\<close>

definition load_segment :: "'a kst_scheme devsw list \<Rightarrow> u32 \<Rightarrow> nat \<Rightarrow> bytes \<Rightarrow> u32 \<Rightarrow> 'a kst_scheme
    \<Rightarrow> ('a kst_scheme, string + u32) outcome" where
  "load_segment devsw pgdir ip ph sz s =
    (if ph_type ph \<noteq> 1 then Inr (Inr sz, s)
     else if ph_memsz ph < ph_filesz ph then Inr (Inl ''elf memsz < filesz'', s)
     else bnd (allocuvm pgdir sz (ph_vaddr ph + ph_memsz ph) s) (\<lambda>(sz, s).
       if sz = 0 then Inr (Inl ''allocuvm failed'', s)
       else bnd (loaduvm devsw pgdir (ph_vaddr ph) ip (ph_off ph) (ph_filesz ph) s) (\<lambda>(r, s).
         Inr (if r < 0 then Inl ''loaduvm failed'' else Inr sz, s))))"

fun load_segments :: "'a kst_scheme devsw list \<Rightarrow> u32 \<Rightarrow> nat \<Rightarrow> nat list \<Rightarrow> u32 \<Rightarrow> 'a kst_scheme
    \<Rightarrow> ('a kst_scheme, string + u32) outcome" where
  "load_segments devsw pgdir ip [] sz s = Inr (Inr sz, s)"
| "load_segments devsw pgdir ip (off # offs) sz s =
    bnd (readi devsw ip off 32 s) (\<lambda>((r, ph), s).
      if r \<noteq> 32 then Inr (Inl ''bad header read'', s)
      else bnd (load_segment devsw pgdir ip ph sz s) (\<lambda>(r, s). case r of
        Inl e \<Rightarrow> Inr (Inl e, s) | Inr sz \<Rightarrow> load_segments devsw pgdir ip offs sz s))"

text \<open>The strings of the arguments, from the top of the stack downwards; the stack pointer and their addresses.\<close>

fun push_args :: "u32 \<Rightarrow> bytes list \<Rightarrow> nat \<Rightarrow> u32 \<Rightarrow> u32 list \<Rightarrow> 'a kst_scheme
    \<Rightarrow> ('a kst_scheme, (u32 \<times> u32 list) option) outcome" where
  "push_args pgdir [] argc sp as s = Inr (Some (sp, as), s)"
| "push_args pgdir (a # args) argc sp as s =
    (if argc \<ge> MAXARG then Inr (None, seterr ''argv is more than MAXARG'' s)
     else let sp = (sp - of_nat (length a + 1)) AND NOT 3 in
       bnd (copyout pgdir sp (a @ [0]) s) (\<lambda>(r, s).
         if r < 0 then Inr (None, s) else push_args pgdir args (Suc argc) sp (as @ [sp]) s))"

definition ustack :: "u32 \<Rightarrow> u32 list \<Rightarrow> u32 list" where
  "ustack sp as = [0xffffffff, of_nat (length as), sp - of_nat (length as + 1) * 4] @ as @ [0]"

text \<open>The part of the path after the last slash.\<close>

fun exec_name :: "bytes \<Rightarrow> bytes \<Rightarrow> bytes" where
  "exec_name lst [] = lst"
| "exec_name lst (c # cs) = exec_name (if c = slash then cs else lst) cs"

definition exec_bad :: "u32 \<Rightarrow> nat option \<Rightarrow> 'a kst_scheme \<Rightarrow> ('a kst_scheme, int) outcome" where
  "exec_bad pgdir ip s =
    bnd (if pgdir \<noteq> 0 then freevm pgdir s else Inr ((), s)) (\<lambda>(_, s).
    bnd (case ip of None \<Rightarrow> Inr ((), s)
       | Some ip \<Rightarrow> bnd (iunlockput ip s) (\<lambda>(_, s). end_op (i_dev (inodes s ! ip)) s)) (\<lambda>(_, s). Inr (-1, s)))"

text \<open>The second half: stack, arguments and the switch to the new image.\<close>

definition exec_stack :: "bytes \<Rightarrow> bytes list \<Rightarrow> bytes \<Rightarrow> u32 \<Rightarrow> u32 \<Rightarrow> 'a kst_scheme \<Rightarrow> ('a kst_scheme, int) outcome" where
  "exec_stack path argv elf pgdir sz s =
    (let sz = PGROUNDUP sz in
     bnd (allocuvm pgdir sz (sz + 2 * PGSIZE) s) (\<lambda>(sz, s).
       if sz = 0 then exec_bad pgdir None (seterr ''allocuvm failed'' s)
       else bnd (clearpteu pgdir (sz - 2 * PGSIZE) s) (\<lambda>(_, s).
         bnd (push_args pgdir argv 0 sz [] s) (\<lambda>(r, s). case r of
           None \<Rightarrow> exec_bad pgdir None s
         | Some (sp, as) \<Rightarrow>
           let us = ustack sp as; sp = sp - of_nat (length us) * 4 in
           bnd (copyout pgdir sp (concat (map (\<lambda>w. le32 (unat w)) us)) s) (\<lambda>(r, s).
             if r < 0 then exec_bad pgdir None s
             else let oldpgdir = p_pgdir (cur s);
                 s = upd_cur (\<lambda>p. p\<lparr>p_name := safestrcpy (p_name p) (exec_name path path) 128, p_pgdir := pgdir, p_sz := sz,
                   p_tf := (p_tf p)\<lparr>tf_eip := elf_entry elf, tf_esp := sp\<rparr>, p_ssp := sz\<rparr>) s in
               bnd (switchuvm (the (curproc s)) s) (\<lambda>(_, s).
               bnd (freevm oldpgdir s) (\<lambda>(_, s). Inr (0, s))))))))"

text \<open>\<open>junk\<close> is the ELF header before it is read. The length of the header read is compared as an unsigned number.\<close>

definition exec :: "'a kst_scheme devsw list \<Rightarrow> bytes \<Rightarrow> bytes \<Rightarrow> bytes \<Rightarrow> bytes list \<Rightarrow> 'a kst_scheme \<Rightarrow> ('a kst_scheme, int) outcome" where
  "exec devsw name junk path argv s =
    (if p_type (cur s) = THREAD then Inr (-1, seterr ''threads are unable to exec'' s)
     else bnd (namei_direct devsw name path s) (\<lambda>(r, s). case r of None \<Rightarrow> Inr (-1, seterr ''cannot find file'' s)
     | Some ip \<Rightarrow>
       bnd (begin_op (i_dev (inodes s ! ip)) s) (\<lambda>(_, s).
       bnd (ilock (Some ip) s) (\<lambda>(_, s).
       if checkinodeperm ip OP_EXEC s \<noteq> 0 \<and> singleuser s = 0 then exec_bad 0 (Some ip) (seterr ''not allowed'' s)
       else bnd (readi devsw ip 0 52 s) (\<lambda>((r, h), s). let elf = patch 0 h junk in
         if (of_int r :: u32) < 52 then exec_bad 0 (Some ip) s
         else if elf_magic elf \<noteq> ELF_MAGIC then exec_bad 0 (Some ip) (seterr ''not an executable'' s)
         else bnd (setupkvm s) (\<lambda>(pgdir, s).
           if pgdir = 0 then exec_bad 0 (Some ip) (seterr ''setupkvm() failed'' s)
           else bnd (load_segments devsw pgdir ip (map (\<lambda>i. (elf_phoff elf + 32 * i) mod 2 ^ 32) [0..<elf_phnum elf]) 0 s) (\<lambda>(r, s). case r of
             Inl e \<Rightarrow> exec_bad pgdir (Some ip) (seterr e s)
           | Inr sz \<Rightarrow>
             bnd (iunlockput ip s) (\<lambda>(_, s).
             bnd (end_op (i_dev (inodes s ! ip)) s) (\<lambda>(_, s).
               exec_stack path argv elf pgdir sz s)))))))))"

text \<open>The argument vector is read word by word until a null pointer.\<close>

function sys_exec_args :: "u32 \<Rightarrow> nat \<Rightarrow> 'a kst_scheme \<Rightarrow> ('a kst_scheme, bytes list option) outcome" where
  "sys_exec_args uargv i s =
    (if i \<ge> MAXARG then Inr (None, s)
     else bnd (fetchint (uargv + 4 * of_nat i) s) (\<lambda>(r, s). case r of None \<Rightarrow> Inr (None, s)
       | Some uarg \<Rightarrow>
         if uarg = 0 then Inr (Some [], s)
         else bnd (fetchstr uarg s) (\<lambda>(r, s). case r of None \<Rightarrow> Inr (None, seterr ''no known arguments'' s)
           | Some a \<Rightarrow> bnd (sys_exec_args uargv (Suc i) s) (\<lambda>(r, s). Inr (map_option ((#) a) r, s)))))"
  by pat_completeness auto
termination
  by (relation "measure (\<lambda>(uargv, i, s). MAXARG - i)") auto

declare sys_exec_args.simps [simp del]

definition sys_exec :: "'a kst_scheme devsw list \<Rightarrow> bytes \<Rightarrow> bytes \<Rightarrow> 'a kst_scheme \<Rightarrow> ('a kst_scheme, int) outcome" where
  "sys_exec devsw name junk s =
    bnd (argstr 0 s) (\<lambda>(path, s). bnd (if path = None then Inr (None, s) else argint 1 s) (\<lambda>(uargv, s).
      case uargv of None \<Rightarrow> Inr (-1, seterr ''Missing or malformed syscall arguments'' s)
      | Some u \<Rightarrow> with_arg (sys_exec_args u 0 s) (\<lambda>argv s. exec devsw name junk (the path) argv s)))"

end
