(* ===== verification/Syscall.thy ===== *)
theory Syscall
  imports Sysproc Exec
begin

text \<open>
  The system call dispatcher (\<^verbatim>\<open>syscall.c\<close>, \<^verbatim>\<open>syscall.h\<close>). What the calls' local buffers and pointers hold before they are
  set is one record of arguments.
\<close>

record locals =
  l_name :: bytes
  l_elf :: bytes
  l_path :: bytes
  l_after :: bytes
  l_ptr :: u32
  l_ip :: "nat option"

text \<open>The table \<^verbatim>\<open>syscalls\<close>.\<close>

definition syscalls :: "'a kst_scheme devsw list \<Rightarrow> locals \<Rightarrow> int \<Rightarrow> ('a kst_scheme \<Rightarrow> ('a kst_scheme, int) outcome) option" where
  "syscalls devsw l num =
    (if num = 1 then Some sys_fork else if num = 2 then Some sys_exit else if num = 3 then Some sys_wait
     else if num = 4 then Some sys_pipe else if num = 5 then Some (sys_read devsw) else if num = 6 then Some sys_kill
     else if num = 7 then Some (sys_exec devsw (l_name l) (l_elf l)) else if num = 8 then Some sys_fstat
     else if num = 9 then Some (sys_chdir devsw (l_name l) (l_ip l)) else if num = 10 then Some sys_dup
     else if num = 11 then Some (\<lambda>s. Inr (sys_getpid s, s)) else if num = 12 then Some sys_sbrk
     else if num = 13 then Some sys_sleep else if num = 14 then Some sys_uptime
     else if num = 15 then Some (sys_open devsw (l_name l)) else if num = 16 then Some (sys_write devsw)
     else if num = 17 then Some (sys_mknod devsw (l_name l) (l_ip l)) else if num = 18 then Some (sys_unlink devsw (l_name l))
     else if num = 19 then Some (sys_link devsw (l_name l)) else if num = 20 then Some (sys_mkdir devsw (l_name l) (l_ip l))
     else if num = 21 then Some sys_close else if num = 22 then Some sys_chuser else if num = 23 then Some sys_chsystem
     else if num = 24 then Some sys_disallow else if num = 25 then Some (\<lambda>s. Inr (sys_getuid s, s))
     else if num = 26 then Some (\<lambda>s. Inr (sys_getsid s, s)) else if num = 27 then Some (\<lambda>s. Inr (sys_getts s, s))
     else if num = 28 then Some (sys_chroot devsw (l_name l) (l_path l)) else if num = 29 then Some (sys_errstr (l_after l) (l_ptr l))
     else if num = 30 then Some (sys_chperms devsw (l_name l)) else if num = 31 then Some sys_seek
     else if num = 32 then Some sys_tfork else if num = 33 then Some sys_clone else if num = 34 then Some sys_sendmsg
     else if num = 35 then Some sys_recvmsg else if num = 36 then Some sys_recvwait
     else if num = 37 then Some sys_fssync else None)"

text \<open>The result goes to \<^verbatim>\<open>eax\<close>; an unknown number gives -1.\<close>

definition syscall :: "'a kst_scheme devsw list \<Rightarrow> locals \<Rightarrow> 'a kst_scheme \<Rightarrow> ('a kst_scheme, unit) outcome" where
  "syscall devsw l s = (let num = sint (tf_eax (p_tf (cur s))); ret = (\<lambda>r s.
       Inr ((), upd_cur (\<lambda>p. p\<lparr>p_tf := (p_tf p)\<lparr>tf_eax := of_int r\<rparr>\<rparr>) s)) in
     case syscalls devsw l num of None \<Rightarrow> ret (-1) s | Some f \<Rightarrow> bnd (f s) (\<lambda>(r, s). ret r s))"

end
