(* ===== verification/Spec2Isabelle.thy ===== *)
theory Spec2Isabelle
  imports Prelude Kstring ProcTable Users Disk Bio Log Txn Blocks Inode InodeDisk FileData Dir Refs Path Fifo Kstate Kalloc Kmalloc Pipe File Vm Mailbox
    Heap Aspace Console Spinlock ProcLife Sysargs Sysproc Sysfile Exec Syscall
begin

text \<open>
  A verification development for the xv6-vsd kernel.
\<close>

end
